(* ===== verification/Prelude.thy ===== *)
theory Prelude
  imports Main "HOL-Library.Word"
begin

text \<open>
  Shared vocabulary of the development: bytes and machine words as they lie in memory
  (little endian, as on the targets the repository is built for), the result type of
  code that may throw, fail an assertion or run into undefined behaviour, and the lemmas
  on byte lists that every component uses.
\<close>

section \<open>Bytes and machine integers\<close>

type_synonym u8 = "8 word"
type_synonym u32 = "32 word"
type_synonym u64 = "64 word"
type_synonym bytes = "u8 list"

text \<open>\<open>size_t\<close> arithmetic on the 64-bit targets, on naturals below \<open>2 ^ 64\<close>.\<close>

definition size_sub :: "nat \<Rightarrow> nat \<Rightarrow> nat" where
  "size_sub a b = (a + 2 ^ 64 - b) mod 2 ^ 64"

definition size_add :: "nat \<Rightarrow> int \<Rightarrow> nat" where
  "size_add a d = nat ((int a + d) mod 2 ^ 64)"

text \<open>The largest size of a \<open>std::vector<char>\<close> (\<open>max_size()\<close>).\<close>

definition vec_max :: nat where
  "vec_max = 2 ^ 63 - 1"

lemma size_sub_le: "b \<le> a \<Longrightarrow> a < 2 ^ 64 \<Longrightarrow> size_sub a b = a - b"
proof -
  assume "b \<le> a" "a < 2 ^ 64"
  moreover from \<open>b \<le> a\<close> have "a + 2 ^ 64 - b = (a - b) + 2 ^ 64" by simp
  ultimately show ?thesis by (simp only: size_sub_def mod_add_self2) simp
qed

lemma size_sub_wrap: "a < b \<Longrightarrow> b < 2 ^ 64 \<Longrightarrow> size_sub a b = 2 ^ 64 - (b - a)"
  by (simp add: size_sub_def)

lemma size_add_nat: "a + n < 2 ^ 64 \<Longrightarrow> size_add a (int n) = a + n"
  by (simp add: size_add_def nat_eq_iff)

lemma vec_max_less: "n \<le> vec_max \<Longrightarrow> n < 2 ^ 64"
  by (simp add: vec_max_def)

lemma size_sub_less: "b \<le> a \<Longrightarrow> a \<le> vec_max \<Longrightarrow> size_sub a b < n \<longleftrightarrow> a < b + n"
  using size_sub_le [of b a] vec_max_less [of a] by auto

section \<open>Results: exceptions, failed assertions, undefined behaviour\<close>

text \<open>
  The exceptions are those the code throws or lets through from the standard library
  (\<open>what()\<close> as a string); \<open>assert\<close> is active, as no build file defines
  \<open>NDEBUG\<close>. Undefined behaviour of C++ is an outcome of its own: nothing is promised
  about what the program does there. \<open>Diverges\<close> is the outcome of a loop model that ran
  out of its fuel.
\<close>

datatype ub =
    Out_of_bounds
  | Signed_overflow
  | Division_by_zero
  | Dangling_reference
  | Uninitialised_read
  | Float_cast

datatype exn =
    Runtime_error string
  | Logic_error string
  | Invalid_argument string
  | Out_of_range string
  | Length_error
  | Assertion string
  | Undefined ub
  | Diverges

type_synonym 'a res = "exn + 'a"

definition rbind :: "'a res \<Rightarrow> ('a \<Rightarrow> 'b res) \<Rightarrow> 'b res" where
  "rbind m f = (case m of Inl e \<Rightarrow> Inl e | Inr x \<Rightarrow> f x)"

named_theorems res_simps \<open>evaluation of code that may fail\<close>

lemma rbind_Inl [simp, res_simps]: "rbind (Inl e) f = Inl e"
  by (simp add: rbind_def)

lemma rbind_Inr [simp, res_simps]: "rbind (Inr x) f = f x"
  by (simp add: rbind_def)

lemma rbind_eq_Inr [res_simps]: "rbind m f = Inr y \<longleftrightarrow> (\<exists>x. m = Inr x \<and> f x = Inr y)"
  by (cases m) auto

lemma rbind_assoc: "rbind (rbind m f) g = rbind m (\<lambda>x. rbind (f x) g)"
  by (cases m) auto

lemma rbind_cong [fundef_cong]:
  "m = m' \<Longrightarrow> (\<And>x. m' = Inr x \<Longrightarrow> f x = f' x) \<Longrightarrow> rbind m f = rbind m' f'"
  by (cases m) (auto simp: rbind_def)

lemma rbind_split:
  "P (rbind m f) \<longleftrightarrow> (\<forall>e. m = Inl e \<longrightarrow> P (Inl e)) \<and> (\<forall>x. m = Inr x \<longrightarrow> P (f x))"
  by (cases m) auto

definition rmap :: "('a \<Rightarrow> 'b) \<Rightarrow> 'a res \<Rightarrow> 'b res" where
  "rmap f m = rbind m (\<lambda>x. Inr (f x))"

lemma rmap_simps [simp, res_simps]: "rmap f (Inl e) = Inl e" "rmap f (Inr x) = Inr (f x)"
  by (simp_all add: rmap_def)

definition is_fault :: "'a res \<Rightarrow> bool" where
  "is_fault m = (case m of Inl (Undefined _) \<Rightarrow> True | _ \<Rightarrow> False)"

section \<open>Memory representation of unsigned integers\<close>

fun le_bytes :: "nat \<Rightarrow> nat \<Rightarrow> bytes" where
  "le_bytes 0 x = []"
| "le_bytes (Suc n) x = of_nat (x mod 256) # le_bytes n (x div 256)"

fun le_val :: "bytes \<Rightarrow> nat" where
  "le_val [] = 0"
| "le_val (b # bs) = unat b + 256 * le_val bs"

definition mem_of_word :: "'a::len word \<Rightarrow> bytes" where
  "mem_of_word w = le_bytes (LENGTH('a) div 8) (unat w)"

definition word_of_mem :: "bytes \<Rightarrow> 'a::len word" where
  "word_of_mem bs = of_nat (le_val bs)"

lemma unat_byte_less [simp]: "unat (b :: u8) < 256"
  using unsigned_less [of b, where 'a=nat] by simp

lemma unat_of_nat_byte [simp]: "unat (of_nat n :: u8) = n mod 256"
  by (simp add: unat_of_nat)

lemma length_le_bytes [simp]: "length (le_bytes n x) = n"
  by (induction n arbitrary: x) auto

lemma le_bytes_numeral [simp]:
  "le_bytes (numeral k) x = of_nat (x mod 256) # le_bytes (pred_numeral k) (x div 256)"
  by (metis le_bytes.simps(2) numeral_eq_Suc)

lemma le_val_le_bytes: "le_val (le_bytes n x) = x mod 256 ^ n"
  by (induction n arbitrary: x) (simp_all add: mod_mult2_eq add.commute)

lemma le_val_less: "le_val bs < 256 ^ length bs"
proof (induction bs)
  case (Cons b bs)
  have "unat b + 256 * le_val bs < 256 * (le_val bs + 1)" by simp
  also have "\<dots> \<le> 256 * 256 ^ length bs" using Cons.IH by (intro mult_le_mono2) simp
  finally show ?case by simp
qed simp

lemma le_bytes_le_val: "le_bytes (length bs) (le_val bs) = bs"
  by (induction bs) (auto simp: unat_of_nat)

lemma length_mem_of_u32 [simp]: "length (mem_of_word (w :: u32)) = 4"
  and length_mem_of_u64 [simp]: "length (mem_of_word (v :: u64)) = 8"
  by (simp_all add: mem_of_word_def)

lemma word_of_mem_of_u32 [simp]: "word_of_mem (mem_of_word (w :: u32)) = w"
proof -
  have "unat w < 256 ^ 4" using unsigned_less [of w, where 'a=nat] by simp
  then show ?thesis by (simp add: mem_of_word_def word_of_mem_def le_val_le_bytes)
qed

lemma word_of_mem_of_u64 [simp]: "word_of_mem (mem_of_word (w :: u64)) = w"
proof -
  have "unat w < 256 ^ 8" using unsigned_less [of w, where 'a=nat] by simp
  then show ?thesis by (simp add: mem_of_word_def word_of_mem_def le_val_le_bytes)
qed

lemma mem_of_word_of_mem32: "length bs = 4 \<Longrightarrow> mem_of_word (word_of_mem bs :: u32) = bs"
  using le_val_less [of bs] le_bytes_le_val [of bs]
  by (simp add: mem_of_word_def word_of_mem_def unat_of_nat)

lemma mem_of_word_of_mem64: "length bs = 8 \<Longrightarrow> mem_of_word (word_of_mem bs :: u64) = bs"
  using le_val_less [of bs] le_bytes_le_val [of bs]
  by (simp add: mem_of_word_def word_of_mem_def unat_of_nat)

lemma mem_of_word_inject32 [simp]: "mem_of_word (v :: u32) = mem_of_word w \<longleftrightarrow> v = w"
  by (metis word_of_mem_of_u32)

lemma mem_of_word_inject64 [simp]: "mem_of_word (v :: u64) = mem_of_word w \<longleftrightarrow> v = w"
  by (metis word_of_mem_of_u64)

section \<open>Positions in byte lists\<close>

definition slice :: "nat \<Rightarrow> nat \<Rightarrow> 'a list \<Rightarrow> 'a list" where
  "slice i n xs = take n (drop i xs)"

definition insert_at :: "nat \<Rightarrow> 'a list \<Rightarrow> 'a list \<Rightarrow> 'a list" where
  "insert_at i ys xs = take i xs @ ys @ drop i xs"

lemma length_insert_at [simp]: "length (insert_at i ys xs) = length ys + length xs"
  by (simp add: insert_at_def)

lemma length_slice: "i + n \<le> length xs \<Longrightarrow> length (slice i n xs) = n"
  by (simp add: slice_def)

lemma slice_append_mid [simp]: "slice (length xs) (length ys) (xs @ ys @ zs) = ys"
  by (simp add: slice_def)

lemma take_insert_at: "i \<le> length xs \<Longrightarrow> take (i + length ys) (insert_at i ys xs) = take i xs @ ys"
  by (simp add: insert_at_def)

lemma drop_insert_at: "i \<le> length xs \<Longrightarrow> drop (i + length ys) (insert_at i ys xs) = drop i xs"
  by (simp add: insert_at_def)

text \<open>A store of \<open>ys\<close> into an array at offset \<open>i\<close>, inside its bounds.\<close>

definition overwrite :: "nat \<Rightarrow> 'a list \<Rightarrow> 'a list \<Rightarrow> 'a list" where
  "overwrite i ys xs = take i xs @ ys @ drop (i + length ys) xs"

lemma length_overwrite [simp]: "i + length ys \<le> length xs \<Longrightarrow> length (overwrite i ys xs) = length xs"
  by (simp add: overwrite_def)

section \<open>Numbers as text\<close>

definition hexify :: string where
  "hexify = ''0123456789abcdef''"

fun hex_text :: "nat \<Rightarrow> string" where
  "hex_text n = (if n < 16 then [hexify ! n] else hex_text (n div 16) @ [hexify ! (n mod 16)])"

declare hex_text.simps [simp del]

text \<open>\<open>std::hex\<close> with a minimal width, filled with zeros.\<close>

definition hex_width :: "nat \<Rightarrow> nat \<Rightarrow> string" where
  "hex_width w n = (let t = hex_text n in replicate (w - length t) CHR ''0'' @ t)"

text \<open>A list transformed element by element, up to the first error.\<close>

fun map_res :: "('x \<Rightarrow> 'y res) \<Rightarrow> 'x list \<Rightarrow> 'y list res" where
  "map_res f [] = Inr []"
| "map_res f (x # xs) = rbind (f x) (\<lambda>y. rbind (map_res f xs) (\<lambda>ys. Inr (y # ys)))"

lemma map_res_all:
  assumes "\<And>x. x \<in> set xs \<Longrightarrow> f (g x) = (if ok x then Inr x else Inl e)"
  shows "map_res f (map g xs) = (if list_all ok xs then Inr xs else Inl e)"
  using assms by (induction xs) simp_all

lemma map_res_ok: "(\<And>x. x \<in> set xs \<Longrightarrow> f (g x) = Inr x) \<Longrightarrow> map_res f (map g xs) = Inr xs"
  by (induction xs) simp_all

end
