(* ===== verification/Streams.thy ===== *)
theory Streams
  imports Prelude
begin

text \<open>
  The byte streams of \<open>p2p-network/include\<close>: \<open>buffer_stream\<close> (\<open>buffer_stream.hpp\<close>),
  \<open>memory_reader\<close> (\<open>memory_reader.hpp\<close>) and the typed \<open>write<T>\<close> / \<open>read<T>\<close> of
  \<open>stream.h\<close>, which dispatch to the virtual byte operations. A stream has one cursor
  \<open>n_\<close> for reading and writing; writing inserts at the cursor. The virtual functions a
  client reaches through \<open>stream&\<close> are the interfaces \<open>byte_writer\<close> and
  \<open>byte_reader\<close>; both classes are interpreted below.
\<close>

section \<open>buffer\_stream\<close>

record buffer_stream =
  bs_buf :: bytes
  bs_pos :: nat

definition bs_new :: buffer_stream where
  "bs_new = \<lparr>bs_buf = [], bs_pos = 0\<rparr>"

definition index_out_of_range :: exn where
  "index_out_of_range = Runtime_error ''index of out range''"

definition end_of_stream :: exn where
  "end_of_stream = Runtime_error ''end of stream''"

definition bs_size :: "'a buffer_stream_scheme \<Rightarrow> nat" where
  "bs_size s = length (bs_buf s)"

text \<open>
  In \<open>remove_first\<close> the branch for a cursor inside the removed prefix assigns to the
  parameter \<open>n\<close>, not to the member \<open>n_\<close>: the cursor stays where it was.
\<close>

definition bs_remove_first :: "nat \<Rightarrow> 'a buffer_stream_scheme \<Rightarrow> 'a buffer_stream_scheme res" where
  "bs_remove_first n s =
     (if n > bs_size s then Inl index_out_of_range
      else let s1 = s\<lparr>bs_buf := drop n (bs_buf s)\<rparr>
           in if bs_pos s1 < n then (let n = (0 :: nat) in Inr s1)
              else Inr (s1\<lparr>bs_pos := bs_pos s1 - n\<rparr>))"

definition bs_remove :: "nat \<Rightarrow> 'a buffer_stream_scheme \<Rightarrow> 'a buffer_stream_scheme res" where
  "bs_remove n s =
     (if n > bs_pos s then Inl index_out_of_range
      else if bs_pos s > bs_size s then Inl (Undefined Out_of_bounds)
      else Inr (s\<lparr>bs_buf := take (bs_pos s - n) (bs_buf s) @ drop (bs_pos s) (bs_buf s), bs_pos := bs_pos s - n\<rparr>))"

definition bs_move :: "int \<Rightarrow> 'a buffer_stream_scheme \<Rightarrow> 'a buffer_stream_scheme res" where
  "bs_move offset s =
     (if size_add (bs_pos s) offset > bs_size s then Inl index_out_of_range
      else Inr (s\<lparr>bs_pos := size_add (bs_pos s) offset\<rparr>))"

definition bs_move_to :: "nat \<Rightarrow> 'a buffer_stream_scheme \<Rightarrow> 'a buffer_stream_scheme res" where
  "bs_move_to offset s =
     (if offset > bs_size s then Inl index_out_of_range else Inr (s\<lparr>bs_pos := offset\<rparr>))"

definition bs_write :: "bytes \<Rightarrow> 'a buffer_stream_scheme \<Rightarrow> 'a buffer_stream_scheme res" where
  "bs_write p s =
     (if bs_pos s > bs_size s then Inl (Undefined Out_of_bounds)
      else if bs_size s + length p > vec_max then Inl Length_error
      else Inr (s\<lparr>bs_buf := insert_at (bs_pos s) p (bs_buf s), bs_pos := bs_pos s + length p\<rparr>))"

definition bs_read :: "nat \<Rightarrow> 'a buffer_stream_scheme \<Rightarrow> (bytes \<times> 'a buffer_stream_scheme) res" where
  "bs_read count s =
     (if size_sub (bs_size s) (bs_pos s) < count then Inl end_of_stream
      else if bs_pos s + count > bs_size s then Inl (Undefined Out_of_bounds)
      else Inr (slice (bs_pos s) count (bs_buf s), s\<lparr>bs_pos := bs_pos s + count\<rparr>))"

section \<open>memory\_reader\<close>

record memory_reader =
  mr_mem :: bytes
  mr_pos :: nat

definition mr_new :: "bytes \<Rightarrow> memory_reader" where
  "mr_new b = \<lparr>mr_mem = b, mr_pos = 0\<rparr>"

definition mr_size :: "memory_reader \<Rightarrow> nat" where
  "mr_size s = length (mr_mem s)"

definition mr_move :: "int \<Rightarrow> memory_reader \<Rightarrow> memory_reader res" where
  "mr_move offset s =
     (if size_add (mr_pos s) offset > mr_size s then Inl index_out_of_range
      else Inr (s\<lparr>mr_pos := size_add (mr_pos s) offset\<rparr>))"

definition mr_move_to :: "nat \<Rightarrow> memory_reader \<Rightarrow> memory_reader res" where
  "mr_move_to offset s =
     (if offset > mr_size s then Inl index_out_of_range else Inr (s\<lparr>mr_pos := offset\<rparr>))"

definition mr_write :: "bytes \<Rightarrow> memory_reader \<Rightarrow> memory_reader res" where
  "mr_write p s = Inl (Logic_error ''memory_reader is read-only'')"

definition mr_read :: "nat \<Rightarrow> memory_reader \<Rightarrow> (bytes \<times> memory_reader) res" where
  "mr_read count s =
     (if size_sub (mr_size s) (mr_pos s) < count then Inl end_of_stream
      else if mr_pos s + count > mr_size s then Inl (Undefined Out_of_bounds)
      else Inr (slice (mr_pos s) count (mr_mem s), s\<lparr>mr_pos := mr_pos s + count\<rparr>))"

section \<open>Typed access (stream.h)\<close>

text \<open>
  \<open>write<T>\<close> passes the object representation to the virtual \<open>write\<close>, \<open>read<T>\<close>
  fills one. The virtual functions are the parameters \<open>wr\<close> and \<open>rd\<close>.
\<close>

definition write_word :: "(bytes \<Rightarrow> 's \<Rightarrow> 's res) \<Rightarrow> 'a::len word \<Rightarrow> 's \<Rightarrow> 's res" where
  "write_word wr v s = wr (mem_of_word v) s"

definition read_word :: "(nat \<Rightarrow> 's \<Rightarrow> (bytes \<times> 's) res) \<Rightarrow> 's \<Rightarrow> ('a::len word \<times> 's) res" where
  "read_word rd s = rbind (rd (LENGTH('a) div 8) s) (\<lambda>(b, s). Inr (word_of_mem b, s))"

section \<open>The invariant and the cursor specification\<close>

definition bs_inv :: "'a buffer_stream_scheme \<Rightarrow> bool" where
  "bs_inv s \<longleftrightarrow> bs_pos s \<le> bs_size s \<and> bs_size s \<le> vec_max"

definition mr_inv :: "memory_reader \<Rightarrow> bool" where
  "mr_inv s \<longleftrightarrow> mr_pos s \<le> mr_size s \<and> mr_size s \<le> vec_max"

lemma bs_inv_new [simp]: "bs_inv bs_new"
  by (simp add: bs_inv_def bs_new_def bs_size_def)

lemma mr_inv_new [simp]: "length b \<le> vec_max \<Longrightarrow> mr_inv (mr_new b)"
  by (simp add: mr_inv_def mr_new_def mr_size_def)

text \<open>
  A stream in its invariant is a text editor's line: the bytes before the cursor and the
  bytes behind it.
\<close>

definition cursor :: "'a buffer_stream_scheme \<Rightarrow> bytes \<times> bytes" where
  "cursor s = (take (bs_pos s) (bs_buf s), drop (bs_pos s) (bs_buf s))"

definition mr_cursor :: "memory_reader \<Rightarrow> bytes \<times> bytes" where
  "mr_cursor s = (take (mr_pos s) (mr_mem s), drop (mr_pos s) (mr_mem s))"

lemmas stream_defs = bs_inv_def bs_size_def mr_inv_def mr_size_def cursor_def mr_cursor_def

lemma bs_write_ok:
  assumes "bs_inv s" "bs_size s + length p \<le> vec_max"
  shows "\<exists>s'. bs_write p s = Inr s' \<and> bs_inv s' \<and> fst (cursor s') = fst (cursor s) @ p
           \<and> snd (cursor s') = snd (cursor s) \<and> bs_size s' = bs_size s + length p"
  using assms by (auto simp: bs_write_def stream_defs take_insert_at drop_insert_at)

lemma bs_read_ok:
  assumes "bs_inv s" "n \<le> length (snd (cursor s))"
  shows "\<exists>s'. bs_read n s = Inr (take n (snd (cursor s)), s') \<and> bs_inv s'
           \<and> bs_buf s' = bs_buf s \<and> snd (cursor s') = drop n (snd (cursor s))"
proof -
  have "\<not> size_sub (bs_size s) (bs_pos s) < n"
    using assms by (subst size_sub_less) (auto simp: stream_defs)
  with assms show ?thesis
    by (auto simp: bs_read_def stream_defs slice_def add.commute)
qed

lemma bs_read_eof:
  "bs_inv s \<Longrightarrow> length (snd (cursor s)) < n \<Longrightarrow> bs_read n s = Inl end_of_stream"
  using size_sub_less [of "bs_pos s" "bs_size s" n]
  by (simp add: bs_read_def stream_defs)

lemma mr_read_ok:
  assumes "mr_inv s" "n \<le> length (snd (mr_cursor s))"
  shows "\<exists>s'. mr_read n s = Inr (take n (snd (mr_cursor s)), s') \<and> mr_inv s'
           \<and> mr_mem s' = mr_mem s \<and> snd (mr_cursor s') = drop n (snd (mr_cursor s))"
proof -
  have "\<not> size_sub (mr_size s) (mr_pos s) < n"
    using assms by (subst size_sub_less) (auto simp: stream_defs)
  with assms show ?thesis
    by (auto simp: mr_read_def stream_defs slice_def add.commute)
qed

lemma mr_read_eof:
  "mr_inv s \<Longrightarrow> length (snd (mr_cursor s)) < n \<Longrightarrow> mr_read n s = Inl end_of_stream"
  using size_sub_less [of "mr_pos s" "mr_size s" n]
  by (simp add: mr_read_def stream_defs)

section \<open>The interfaces a serializer uses\<close>

locale byte_writer =
  fixes wr :: "bytes \<Rightarrow> 's \<Rightarrow> 's res"
    and w_inv :: "'s \<Rightarrow> bool"
    and written :: "'s \<Rightarrow> bytes"
    and room :: "'s \<Rightarrow> nat"
  assumes wr_ok: "w_inv s \<Longrightarrow> length p \<le> room s \<Longrightarrow>
    \<exists>s'. wr p s = Inr s' \<and> w_inv s' \<and> written s' = written s @ p \<and> room s' = room s - length p"
begin

text \<open>\<open>writes f p\<close>: the operation \<open>f\<close> appends exactly the bytes \<open>p\<close>.\<close>

definition writes :: "('s \<Rightarrow> 's res) \<Rightarrow> bytes \<Rightarrow> bool" where
  "writes f p \<longleftrightarrow> (\<forall>s. w_inv s \<longrightarrow> length p \<le> room s \<longrightarrow>
     (\<exists>s'. f s = Inr s' \<and> w_inv s' \<and> written s' = written s @ p \<and> room s' = room s - length p))"

lemma writes_wr [intro]: "writes (wr p) p"
  by (simp add: writes_def wr_ok)

lemma writes_word [intro]: "writes (write_word wr v) (mem_of_word v)"
  by (simp add: writes_def write_word_def wr_ok)

lemma writes_skip [intro]: "writes Inr []"
  by (simp add: writes_def)

lemma writes_seq:
  assumes f: "writes f p" and g: "writes g q"
  shows "writes (\<lambda>s. rbind (f s) g) (p @ q)"
  unfolding writes_def
proof (intro allI impI)
  fix s assume s: "w_inv s" "length (p @ q) \<le> room s"
  with f obtain s1 where s1: "f s = Inr s1" "w_inv s1" "written s1 = written s @ p"
      "room s1 = room s - length p"
    unfolding writes_def by (metis add_leD1 length_append)
  with s have "length q \<le> room s1" by simp
  with g s1 obtain s2 where "g s1 = Inr s2" "w_inv s2" "written s2 = written s1 @ q"
      "room s2 = room s1 - length q"
    unfolding writes_def by metis
  with s1 show "\<exists>s'. rbind (f s) g = Inr s' \<and> w_inv s' \<and> written s' = written s @ p @ q
      \<and> room s' = room s - length (p @ q)"
    by simp
qed

lemma writesD:
  "writes f p \<Longrightarrow> w_inv s \<Longrightarrow> length p \<le> room s \<Longrightarrow>
     \<exists>s'. f s = Inr s' \<and> w_inv s' \<and> written s' = written s @ p \<and> room s' = room s - length p"
  by (simp add: writes_def)

end

locale byte_reader =
  fixes rd :: "nat \<Rightarrow> 's \<Rightarrow> (bytes \<times> 's) res"
    and r_inv :: "'s \<Rightarrow> bool"
    and unread :: "'s \<Rightarrow> bytes"
  assumes rd_ok: "r_inv s \<Longrightarrow> n \<le> length (unread s) \<Longrightarrow>
      \<exists>s'. rd n s = Inr (take n (unread s), s') \<and> r_inv s' \<and> unread s' = drop n (unread s)"
    and rd_eof: "r_inv s \<Longrightarrow> length (unread s) < n \<Longrightarrow> rd n s = Inl end_of_stream"
begin

text \<open>\<open>reads f p v\<close>: on input that starts with \<open>p\<close>, \<open>f\<close> consumes \<open>p\<close> and returns \<open>v\<close>.\<close>

definition reads :: "('s \<Rightarrow> ('v \<times> 's) res) \<Rightarrow> bytes \<Rightarrow> 'v \<Rightarrow> bool" where
  "reads f p v \<longleftrightarrow> (\<forall>s rest. r_inv s \<longrightarrow> unread s = p @ rest \<longrightarrow>
     (\<exists>s'. f s = Inr (v, s') \<and> r_inv s' \<and> unread s' = rest))"

lemma reads_rd [intro]: "reads (rd (length p)) p p"
  unfolding reads_def
proof (intro allI impI)
  fix s rest assume "r_inv s" "unread s = p @ rest"
  then show "\<exists>s'. rd (length p) s = Inr (p, s') \<and> r_inv s' \<and> unread s' = rest"
    using rd_ok [of s "length p"] by simp
qed

lemma reads_rd_n: "length p = n \<Longrightarrow> reads (rd n) p p"
  using reads_rd [of p] by simp

lemma reads_return [intro]: "reads (\<lambda>s. Inr (v, s)) [] v"
  by (simp add: reads_def)

lemma reads_bind:
  assumes f: "reads f p v" and g: "reads (g v) q w"
  shows "reads (\<lambda>s. rbind (f s) (\<lambda>(x, s). g x s)) (p @ q) w"
  unfolding reads_def
proof (intro allI impI)
  fix s rest assume "r_inv s" "unread s = (p @ q) @ rest"
  with f obtain s1 where s1: "f s = Inr (v, s1)" "r_inv s1" "unread s1 = q @ rest"
    unfolding reads_def by (metis append_assoc)
  with g obtain s2 where "g v s1 = Inr (w, s2)" "r_inv s2" "unread s2 = rest"
    unfolding reads_def by metis
  with s1 show "\<exists>s'. rbind (f s) (\<lambda>(x, s). g x s) = Inr (w, s') \<and> r_inv s' \<and> unread s' = rest"
    by simp
qed

lemma reads_word:
  assumes "length p = LENGTH('a) div 8"
  shows "reads (read_word rd :: 's \<Rightarrow> ('a::len word \<times> 's) res) p (word_of_mem p)"
proof -
  have "reads (\<lambda>s. rbind (rd (LENGTH('a) div 8) s) (\<lambda>(b, s). Inr (word_of_mem b :: 'a word, s)))
      (p @ []) (word_of_mem p)"
    by (rule reads_bind [OF reads_rd_n [OF assms]]) auto
  then show ?thesis by (simp add: read_word_def [abs_def])
qed

lemma reads_u32 [intro]: "reads (read_word rd) (mem_of_word (w :: u32)) w"
  using reads_word [of "mem_of_word w", where 'a = 32] by simp

lemma reads_u64 [intro]: "reads (read_word rd) (mem_of_word (w :: u64)) w"
  using reads_word [of "mem_of_word w", where 'a = 64] by simp

lemma readsD:
  "reads f p v \<Longrightarrow> r_inv s \<Longrightarrow> unread s = p @ rest \<Longrightarrow>
     \<exists>s'. f s = Inr (v, s') \<and> r_inv s' \<and> unread s' = rest"
  by (simp add: reads_def)

end

interpretation bs_writer: byte_writer bs_write bs_inv "\<lambda>s. fst (cursor s)" "\<lambda>s. vec_max - bs_size s"
proof unfold_locales
  fix s :: "'a buffer_stream_scheme" and p :: bytes assume s: "bs_inv s" "length p \<le> vec_max - bs_size s"
  then have "bs_size s + length p \<le> vec_max" by (auto simp: bs_inv_def)
  from bs_write_ok [OF s(1) this]
  show "\<exists>s'. bs_write p s = Inr s' \<and> bs_inv s' \<and> fst (cursor s') = fst (cursor s) @ p \<and>
      vec_max - bs_size s' = vec_max - bs_size s - length p"
    by auto
qed

interpretation bs_reader: byte_reader bs_read bs_inv "\<lambda>s. snd (cursor s)"
  by unfold_locales (use bs_read_ok bs_read_eof in blast)+

interpretation mr_reader: byte_reader mr_read mr_inv "\<lambda>s. snd (mr_cursor s)"
  by unfold_locales (use mr_read_ok mr_read_eof in blast)+

section \<open>Properties of the streams\<close>

lemma size_add_cursor:
  assumes "n \<le> len" "len \<le> vec_max" "- (2 ^ 63) \<le> d" "d < 2 ^ 63"
  shows "size_add n d \<le> len \<longleftrightarrow> 0 \<le> int n + d \<and> int n + d \<le> int len"
    and "0 \<le> int n + d \<Longrightarrow> size_add n d = nat (int n + d)"
proof -
  have n: "int n < 2 ^ 63" "int len < 2 ^ 63" using assms by (simp_all add: vec_max_def)
  show *: "0 \<le> int n + d \<Longrightarrow> size_add n d = nat (int n + d)"
    using n assms by (simp add: size_add_def)
  show "size_add n d \<le> len \<longleftrightarrow> 0 \<le> int n + d \<and> int n + d \<le> int len"
  proof (cases "0 \<le> int n + d")
    case True
    with * show ?thesis by (simp add: nat_le_iff)
  next
    case False
    then have "(int n + d) mod 2 ^ 64 = int n + d + 2 ^ 64"
      using assms(3) by (subst mod_add_self2 [symmetric], subst mod_pos_pos_trivial) auto
    with False assms(3) n show ?thesis by (simp add: size_add_def)
  qed
qed

lemma bs_move_spec:
  assumes "bs_inv s" "- (2 ^ 63) \<le> d" "d < 2 ^ 63"
  shows "bs_move d s = (if 0 \<le> int (bs_pos s) + d \<and> int (bs_pos s) + d \<le> int (bs_size s)
           then Inr (s\<lparr>bs_pos := nat (int (bs_pos s) + d)\<rparr>) else Inl index_out_of_range)"
  using assms size_add_cursor [of "bs_pos s" "bs_size s" d]
  by (auto simp: bs_move_def bs_inv_def)

text \<open>
  The specification of a stream as a line with a cursor: what is left of it and what is
  right of it. Reading moves bytes across the cursor, writing puts bytes to its left.
\<close>

fun line_write :: "bytes \<Rightarrow> bytes \<times> bytes \<Rightarrow> (bytes \<times> bytes) res" where
  "line_write p (l, r) =
     (if length l + length r + length p > vec_max then Inl Length_error else Inr (l @ p, r))"

fun line_read :: "nat \<Rightarrow> bytes \<times> bytes \<Rightarrow> (bytes \<times> bytes \<times> bytes) res" where
  "line_read n (l, r) =
     (if length r < n then Inl end_of_stream else Inr (take n r, l @ take n r, drop n r))"

fun line_remove :: "nat \<Rightarrow> bytes \<times> bytes \<Rightarrow> (bytes \<times> bytes) res" where
  "line_remove n (l, r) =
     (if length l < n then Inl index_out_of_range else Inr (take (length l - n) l, r))"

fun line_move :: "int \<Rightarrow> bytes \<times> bytes \<Rightarrow> (bytes \<times> bytes) res" where
  "line_move d (l, r) =
     (let k = int (length l) + d in
      if 0 \<le> k \<and> k \<le> int (length l + length r)
      then Inr (take (nat k) (l @ r), drop (nat k) (l @ r)) else Inl index_out_of_range)"

lemma cursor_lengths:
  "bs_inv s \<Longrightarrow> length (fst (cursor s)) = bs_pos s"
  "bs_inv s \<Longrightarrow> length (fst (cursor s)) + length (snd (cursor s)) = bs_size s"
  by (simp_all add: stream_defs)

lemma bs_write_line: "bs_inv s \<Longrightarrow> rmap cursor (bs_write p s) = line_write p (cursor s)"
  by (auto simp: bs_write_def stream_defs take_insert_at drop_insert_at)

lemma bs_read_line:
  assumes "bs_inv s"
  shows "rmap (\<lambda>(b, s). (b, cursor s)) (bs_read n s) = line_read n (cursor s)"
proof (cases "length (snd (cursor s)) < n")
  case True
  with assms show ?thesis
    by (cases "cursor s") (simp add: bs_read_eof)
next
  case False
  then have "n \<le> length (snd (cursor s))" by simp
  from bs_read_ok [OF assms this] obtain s' where s':
    "bs_read n s = Inr (take n (snd (cursor s)), s')" "bs_buf s' = bs_buf s"
    "snd (cursor s') = drop n (snd (cursor s))" by blast
  then have "bs_pos s' = bs_pos s + n"
    by (auto simp: bs_read_def split: if_splits)
  then have "fst (cursor s') = fst (cursor s) @ take n (snd (cursor s))"
    using s'(2) by (simp add: cursor_def take_add)
  with False s' show ?thesis
    by (cases "cursor s"; cases "cursor s'") simp
qed

lemma bs_remove_line: "bs_inv s \<Longrightarrow> rmap cursor (bs_remove n s) = line_remove n (cursor s)"
  by (auto simp: bs_remove_def stream_defs min_def)

lemma bs_move_line:
  assumes "bs_inv s" "- (2 ^ 63) \<le> d" "d < 2 ^ 63"
  shows "rmap cursor (bs_move d s) = line_move d (cursor s)"
  using assms bs_move_spec [OF assms] by (auto simp: Let_def stream_defs)

text \<open>
  C1: in every state that satisfies the stream invariant, \<open>write\<close>, \<open>read\<close>,
  \<open>remove\<close> and \<open>move\<close> of \<open>buffer_stream\<close> do to the line with a cursor exactly what
  their specification says, failures included, for every \<open>intptr_t\<close> offset: the unsigned
  arithmetic of the bounds checks never lets an access out of the buffer.
\<close>

theorem buffer_stream_refines_line:
  assumes "bs_inv s" "- (2 ^ 63) \<le> d" "d < 2 ^ 63"
  shows "rmap cursor (bs_write p s) = line_write p (cursor s)
    \<and> rmap (\<lambda>(b, s). (b, cursor s)) (bs_read n s) = line_read n (cursor s)
    \<and> rmap cursor (bs_remove n s) = line_remove n (cursor s)
    \<and> rmap cursor (bs_move d s) = line_move d (cursor s)"
  using assms by (simp add: bs_write_line bs_read_line bs_remove_line bs_move_line)

theorem buffer_stream_refines_line_witness:
  "rmap cursor (bs_move (- 1) \<lparr>bs_buf = [1, 2, 3], bs_pos = 3\<rparr>) = Inr ([1, 2], [3])"
proof -
  have "bs_inv \<lparr>bs_buf = [1, 2, 3], bs_pos = 3\<rparr>"
    by (simp add: stream_defs vec_max_def)
  from buffer_stream_refines_line [OF this, of "- 1"] show ?thesis
    by (simp add: cursor_def)
qed

text \<open>The operations of a stream, with the arguments of the call.\<close>

datatype stream_op =
    Op_write bytes
  | Op_read nat
  | Op_remove nat
  | Op_remove_first nat
  | Op_move int
  | Op_move_to nat

fun bs_apply :: "stream_op \<Rightarrow> buffer_stream \<Rightarrow> buffer_stream res" where
  "bs_apply (Op_write p) s = bs_write p s"
| "bs_apply (Op_read n) s = rmap snd (bs_read n s)"
| "bs_apply (Op_remove n) s = bs_remove n s"
| "bs_apply (Op_remove_first n) s = bs_remove_first n s"
| "bs_apply (Op_move d) s = bs_move d s"
| "bs_apply (Op_move_to n) s = bs_move_to n s"

fun op_safe :: "stream_op \<Rightarrow> buffer_stream \<Rightarrow> bool" where
  "op_safe (Op_remove_first n) s \<longleftrightarrow> bs_pos s \<ge> n"
| "op_safe _ s \<longleftrightarrow> True"

lemma bs_read_not_fault: "bs_inv s \<Longrightarrow> \<not> is_fault (bs_read n s)"
  using bs_read_ok [of s n] bs_read_eof [of s n]
  by (cases "n \<le> length (snd (cursor s))") (auto simp: is_fault_def end_of_stream_def)

text \<open>
  Every call on a stream whose invariant holds ends in a stream whose invariant holds
  or throws, and never touches memory outside the buffer, except \<open>remove_first\<close> of a
  prefix that reaches beyond the cursor.
\<close>

theorem stream_op_safe:
  assumes "bs_inv s" "op_safe op s"
  shows "\<not> is_fault (bs_apply op s) \<and> (\<forall>s'. bs_apply op s = Inr s' \<longrightarrow> bs_inv s')"
proof (intro conjI allI impI)
  show "\<not> is_fault (bs_apply op s)"
  proof (cases op)
    case (Op_read n)
    with bs_read_not_fault [OF assms(1), of n] show ?thesis
      by (cases "bs_read n s") (auto simp: is_fault_def)
  qed (use assms in \<open>auto simp: is_fault_def bs_write_def bs_remove_def bs_remove_first_def
        bs_move_def bs_move_to_def index_out_of_range_def bs_inv_def\<close>)
  fix s' assume "bs_apply op s = Inr s'"
  then show "bs_inv s'"
    using assms
    by (cases op) (auto simp: bs_write_def bs_read_def bs_remove_def bs_remove_first_def bs_move_def
        bs_move_to_def bs_inv_def bs_size_def rmap_def rbind_def split: if_splits sum.splits)
qed

theorem stream_op_safe_witness:
  "bs_apply (Op_write [7]) bs_new = Inr \<lparr>bs_buf = [7], bs_pos = 1\<rparr> \<and> bs_inv \<lparr>bs_buf = [7], bs_pos = 1\<rparr>"
proof -
  have "bs_apply (Op_write [7]) bs_new = Inr \<lparr>bs_buf = [7], bs_pos = 1\<rparr>"
    by (simp add: bs_new_def bs_write_def bs_size_def vec_max_def insert_at_def)
  moreover from this stream_op_safe [of bs_new "Op_write [7]"]
  have "bs_inv \<lparr>bs_buf = [7], bs_pos = 1\<rparr>" by simp
  ultimately show ?thesis ..
qed

text \<open>
  C39: \<open>remove_first\<close> drops the prefix but leaves the cursor where it was when the cursor
  lies inside the prefix; when fewer bytes are left than the cursor's position, the stream's
  bounds check on the next \<open>read\<close> wraps around and the read goes out of the buffer.
\<close>

theorem remove_first_stale_cursor:
  assumes "bs_inv s" "bs_pos s < n" "n \<le> bs_size s" "bs_size s - n < bs_pos s"
    and "0 < k" "k \<le> 2 ^ 63"
  shows "\<exists>s'. bs_remove_first n s = Inr s' \<and> bs_pos s' = bs_pos s
           \<and> bs_read k s' = Inl (Undefined Out_of_bounds)"
proof -
  let ?s = "s\<lparr>bs_buf := drop n (bs_buf s)\<rparr>"
  have "bs_remove_first n s = Inr ?s"
    using assms by (simp add: bs_remove_first_def)
  moreover have "\<not> size_sub (bs_size ?s) (bs_pos ?s) < k"
    using assms size_sub_wrap [of "bs_size ?s" "bs_pos ?s"]
    by (simp add: bs_size_def bs_inv_def vec_max_def)
  then have "bs_read k ?s = Inl (Undefined Out_of_bounds)"
    using assms by (simp add: bs_read_def bs_size_def)
  ultimately show ?thesis by auto
qed

theorem remove_first_stale_cursor_witness:
  "\<exists>s'. bs_remove_first 3 \<lparr>bs_buf = [1, 2, 3], bs_pos = 2\<rparr> = Inr s' \<and> bs_pos s' = 2
     \<and> bs_read 1 s' = Inl (Undefined Out_of_bounds)"
  using remove_first_stale_cursor [of "\<lparr>bs_buf = [1, 2, 3], bs_pos = 2\<rparr>" 3 1]
  by (simp add: stream_defs vec_max_def)

end
