(* ===== verification/Messages.thy ===== *)
theory Messages
  imports Streams
begin

text \<open>
  Network messages (\<open>p2p-network/include/message.h\<close>, \<open>p2p-network/src/message.cpp\<close>):
  the packed six-byte header as it lies in memory, and the message, which is a
  \<open>buffer_stream\<close> (the payload) with a header.
\<close>

section \<open>The header\<close>

record message_header =
  hdr_size :: u32
  hdr_type :: u8
  hdr_ttl :: u8

definition sizeof_header :: nat where
  "sizeof_header = 6"

definition header_bytes :: "message_header \<Rightarrow> bytes" where
  "header_bytes h = mem_of_word (hdr_size h) @ [hdr_type h, hdr_ttl h]"

text \<open>Reading a \<open>message_header\<close> through a pointer to its six bytes.\<close>

definition header_of :: "bytes \<Rightarrow> message_header" where
  "header_of bs = \<lparr>hdr_size = word_of_mem (slice 0 4 bs), hdr_type = bs ! 4, hdr_ttl = bs ! 5\<rparr>"

lemma length_header_bytes [simp]: "length (header_bytes h) = 6"
  by (simp add: header_bytes_def)

lemma header_bytes_not_Nil [simp]: "header_bytes h \<noteq> []"
  by (simp add: header_bytes_def)

lemma header_of_bytes [simp]: "header_of (header_bytes h @ rest) = h"
  by (simp add: header_of_def header_bytes_def slice_def nth_append)

lemma header_of_bytes_exact [simp]: "header_of (header_bytes h) = h"
  using header_of_bytes [of h "[]"] by simp

lemma header_bytes_of:
  assumes "length bs = 6"
  shows "header_bytes (header_of bs) = bs"
proof -
  have "bs = take 4 bs @ [bs ! 4, bs ! 5]"
    using assms by (auto simp: list_eq_iff_nth_eq nth_append less_Suc_eq numeral_eq_Suc)
  moreover have "length (take 4 bs) = 4" using assms by simp
  ultimately show ?thesis
    by (simp add: header_bytes_def header_of_def slice_def mem_of_word_of_mem32)
qed

lemma header_bytes_inject [simp]: "header_bytes g = header_bytes h \<longleftrightarrow> g = h"
  by (metis header_of_bytes_exact)

section \<open>Messages\<close>

record message = buffer_stream +
  header :: message_header

text \<open>
  The constructors. The one that takes a type leaves \<open>size_\<close> uninitialised; the value it
  happens to hold is the parameter \<open>junk\<close>. The one that takes a header and a buffer copies
  \<open>size_\<close> bytes from the buffer, whose accessible memory is \<open>mem\<close>. The copy constructor
  copies header and payload, and so leaves the cursor of the copy at its end.
\<close>

definition message_new :: "u32 \<Rightarrow> u8 \<Rightarrow> u8 \<Rightarrow> message" where
  "message_new junk msg_type ttl =
     buffer_stream.extend bs_new \<lparr>header = \<lparr>hdr_size = junk, hdr_type = msg_type, hdr_ttl = ttl\<rparr>\<rparr>"

definition message_recv :: "message_header \<Rightarrow> bytes option \<Rightarrow> message res" where
  "message_recv h buf =
     (let m = buffer_stream.extend bs_new \<lparr>header = h\<rparr>
      in case buf of
           None \<Rightarrow> Inr m
         | Some mem \<Rightarrow>
             (if hdr_size h > 0
              then (if unat (hdr_size h) > length mem then Inl (Undefined Out_of_bounds)
                    else bs_write (take (unat (hdr_size h)) mem) m)
              else Inr m))"

definition message_copy :: "message \<Rightarrow> message res" where
  "message_copy other =
     (let m = buffer_stream.extend bs_new \<lparr>header = header other\<rparr>
      in if bs_size other > 0 then bs_write (bs_buf other) m else Inr m)"

definition hop :: "message \<Rightarrow> message" where
  "hop m = m\<lparr>header := (header m)\<lparr>hdr_ttl := hdr_ttl (header m) - 1\<rparr>\<rparr>"

text \<open>\<open>operator<<\<close> and \<open>operator>>\<close> for integers and for fixed-size buffers.\<close>

definition message_put :: "'a::len word \<Rightarrow> message \<Rightarrow> message res" where
  "message_put v m = write_word bs_write v m"

definition message_put_buffer :: "bytes \<Rightarrow> message \<Rightarrow> message res" where
  "message_put_buffer b m = bs_write b m"

definition message_get :: "message \<Rightarrow> ('a::len word \<times> message) res" where
  "message_get m = read_word bs_read m"

definition message_get_buffer :: "nat \<Rightarrow> message \<Rightarrow> (bytes \<times> message) res" where
  "message_get_buffer n m = bs_read n m"

section \<open>Facts about messages\<close>

definition payload :: "message \<Rightarrow> bytes" where
  "payload m = bs_buf m"

lemmas message_ext = buffer_stream.defs bs_new_def

lemma message_new_simps [simp]:
  "payload (message_new junk t ttl) = []"
  "hdr_type (header (message_new junk t ttl)) = t"
  "hdr_ttl (header (message_new junk t ttl)) = ttl"
  "bs_pos (message_new junk t ttl) = 0"
  by (simp_all add: message_new_def payload_def message_ext)

lemma message_copy_ok:
  assumes "length (payload m) \<le> vec_max"
  shows "message_copy m = Inr (m\<lparr>bs_pos := length (payload m)\<rparr>)"
  using assms
  by (cases m) (auto simp: message_copy_def Let_def message_ext bs_write_def bs_size_def payload_def insert_at_def)

lemma message_recv_ok:
  assumes "unat (hdr_size h) = length p" "length p \<le> vec_max"
  shows "message_recv h (Some (p @ rest)) = Inr \<lparr>bs_buf = p, bs_pos = length p, header = h\<rparr>"
proof (cases "p = []")
  case True
  then have "hdr_size h = 0" using assms by (simp add: unat_eq_zero)
  with True show ?thesis by (simp add: message_recv_def Let_def message_ext)
next
  case False
  then have "hdr_size h > 0" using assms(1) by (metis length_0_conv unat_eq_zero word_gt_0)
  with assms show ?thesis
    by (simp add: message_recv_def Let_def message_ext bs_write_def bs_size_def insert_at_def)
qed

lemma message_recv_fault:
  "length mem < unat (hdr_size h) \<Longrightarrow> message_recv h (Some mem) = Inl (Undefined Out_of_bounds)"
  by (auto simp: message_recv_def Let_def word_gt_0 unat_eq_zero)

text \<open>
  A message that arrives has its cursor at the end of the payload, as the constructor
  fills it by writing. Reading from it, before anyone moves the cursor back, throws
  ``end of stream'' whatever was sent.
\<close>

theorem received_message_unreadable:
  assumes "message_recv h (Some mem) = Inr m" "0 < n"
  shows "bs_read n m = Inl end_of_stream"
proof -
  from assms(1) have "bs_pos m = bs_size m" "bs_size m \<le> vec_max"
    by (auto simp: message_recv_def Let_def message_ext bs_write_def bs_size_def insert_at_def vec_max_def
        split: if_splits)
  then show ?thesis
    using assms(2) by (intro bs_read_eof) (auto simp: stream_defs)
qed

theorem received_message_unreadable_witness:
  "bs_read 8 \<lparr>bs_buf = [1, 2], bs_pos = 2, header = \<lparr>hdr_size = 2, hdr_type = 3, hdr_ttl = 44\<rparr>\<rparr>
     = Inl end_of_stream"
proof -
  have "message_recv \<lparr>hdr_size = 2, hdr_type = 3, hdr_ttl = 44\<rparr> (Some [1, 2])
      = Inr \<lparr>bs_buf = [1, 2], bs_pos = 2, header = \<lparr>hdr_size = 2, hdr_type = 3, hdr_ttl = 44\<rparr>\<rparr>"
    using message_recv_ok [of "\<lparr>hdr_size = 2, hdr_type = 3, hdr_ttl = 44\<rparr>" "[1, 2]" "[]"]
    by (simp add: vec_max_def)
  from received_message_unreadable [OF this] show ?thesis by simp
qed

end
