(* ===== verification/Protocol.thy ===== *)
theory Protocol
  imports Messages
begin

text \<open>
  The framing layer (\<open>p2p-network/include/protocol.h\<close>, \<open>p2p-network/src/protocol.cpp\<close>):
  \<open>protocol::receive\<close> cuts the byte stream of a socket into messages and calls a handler
  for each, \<open>send\<close> queues messages and \<open>get_packet\<close> turns the next one into bytes.

  The handler is called while \<open>receive\<close> runs and may call \<open>send\<close> on the same object; it
  never touches the receiving fields. So the class is a record of the receiving fields,
  \<open>rx\<close>, extended by the send queue, and \<open>receive\<close> works on \<open>rx\<close> while the handler
  carries its own state \<open>'h\<close>, in which the send queue lives.
\<close>

section \<open>State\<close>

record rx =
  receive_buffer :: bytes
  recv_total_size :: nat
  max_pkt_size :: nat

record protocol = rx +
  send_queue :: "message list"

definition protocol_new :: protocol where
  "protocol_new = \<lparr>receive_buffer = [], recv_total_size = sizeof_header,
     max_pkt_size = 1024 * 10, send_queue = []\<rparr>"

datatype errc = Success | Unknown_operation | Message_too_big | Invalid_header

fun errc_message :: "errc \<Rightarrow> string" where
  "errc_message Success = ''Successfull''"
| "errc_message Unknown_operation = ''Unknown operation''"
| "errc_message Message_too_big = ''Message was too big''"
| "errc_message Invalid_header = ''Invalid header''"

section \<open>Receiving\<close>

text \<open>What the handler is called with: a message, or an error code and a null pointer.\<close>

datatype frame_event = Ev_message message | Ev_error errc

type_synonym 'h handler = "'h \<Rightarrow> frame_event \<Rightarrow> bool res \<times> 'h"

definition deliver :: "'h handler \<Rightarrow> message_header \<Rightarrow> bytes option \<Rightarrow> 'h \<Rightarrow> bool res \<times> 'h" where
  "deliver handler hdr buf h =
     (case message_recv hdr buf of
        Inl e \<Rightarrow> (Inl e, h)
      | Inr msg \<Rightarrow> handler h (Ev_message (hop msg)))"

text \<open>
  One round of the \<open>while (ptr != end)\<close> loop on the bytes \<open>data\<close> from \<open>ptr\<close> on. The
  result is \<open>Inl\<close> of the function's result, or \<open>Inr\<close> of the number of bytes to advance.
  The unsigned difference \<open>recv_total_size_ - receive_buffer_.size()\<close> wraps around.
\<close>

definition receive_iter ::
  "'h handler \<Rightarrow> bytes \<Rightarrow> rx \<Rightarrow> 'h \<Rightarrow> (bool res + nat) \<times> rx \<times> 'h" where
  "receive_iter handler data p h =
     (let available = length data;
          remaining0 = size_sub (recv_total_size p) (length (receive_buffer p));
          remaining = (if remaining0 > available then available else remaining0);
          rb = receive_buffer p @ take remaining data;
          p1 = p\<lparr>receive_buffer := rb\<rparr>
      in if length rb = sizeof_header then
           (let hdr = header_of rb; new_size = unat (hdr_size hdr)
            in if new_size = 0 then
                 (case deliver handler hdr None h of
                    (Inl e, h') \<Rightarrow> (Inl (Inl e), p1, h')
                  | (Inr continue_parse, h') \<Rightarrow>
                      (let p2 = p1\<lparr>receive_buffer := []\<rparr>
                       in if \<not> continue_parse then (Inl (Inr False), p2, h')
                          else (Inr remaining, p2, h')))
               else if new_size > max_pkt_size p then
                 (case handler h (Ev_error Message_too_big) of
                    (Inl e, h') \<Rightarrow> (Inl (Inl e), p1, h')
                  | (Inr _, h') \<Rightarrow> (Inl (Inr False), p1, h'))
               else (Inr remaining, p1\<lparr>recv_total_size := new_size\<rparr>, h))
         else if length rb = recv_total_size p1 then
           (if length rb < sizeof_header then (Inl (Inl (Undefined Out_of_bounds)), p1, h)
            else case deliver handler (header_of rb) (Some (drop sizeof_header rb)) h of
              (Inl e, h') \<Rightarrow> (Inl (Inl e), p1, h')
            | (Inr continue_parse, h') \<Rightarrow>
                (let p2 = p1\<lparr>receive_buffer := [], recv_total_size := sizeof_header\<rparr>
                 in if \<not> continue_parse then (Inl (Inr False), p2, h')
                    else (Inr remaining, p2, h')))
         else (Inr remaining, p1, h))"

fun receive_loop ::
  "nat \<Rightarrow> 'h handler \<Rightarrow> bytes \<Rightarrow> rx \<Rightarrow> 'h \<Rightarrow> bool res \<times> rx \<times> 'h" where
  "receive_loop 0 handler data p h = (if data = [] then Inr True else Inl Diverges, p, h)"
| "receive_loop (Suc fuel) handler data p h =
     (if data = [] then (Inr True, p, h)
      else case receive_iter handler data p h of
        (Inl out, p', h') \<Rightarrow> (out, p', h')
      | (Inr k, p', h') \<Rightarrow> receive_loop fuel handler (drop k data) p' h')"

text \<open>
  \<open>receive\<close> itself: fuel for one round per byte and one more. \<open>receive_terminates\<close>
  shows that this is enough whenever the loop ends at all.
\<close>

definition receive :: "'h handler \<Rightarrow> bytes \<Rightarrow> rx \<Rightarrow> 'h \<Rightarrow> bool res \<times> rx \<times> 'h" where
  "receive handler data p h = receive_loop (Suc (length data)) handler data p h"

text \<open>
  A connection delivers the stream in chunks of any size; each is one call of
  \<open>receive\<close>, and reading goes on while the calls return \<open>true\<close>.
\<close>

fun feed :: "'h handler \<Rightarrow> bytes list \<Rightarrow> rx \<Rightarrow> 'h \<Rightarrow> bool res \<times> rx \<times> 'h" where
  "feed handler [] p h = (Inr True, p, h)"
| "feed handler (c # cs) p h =
     (case receive handler c p h of
        (Inr True, p', h') \<Rightarrow> feed handler cs p' h'
      | r \<Rightarrow> r)"

section \<open>Sending\<close>

definition protocol_send :: "message \<Rightarrow> protocol \<Rightarrow> protocol res" where
  "protocol_send msg p =
     (if bs_size msg > max_pkt_size p then Inl (Runtime_error ''msg is too big to send'')
      else rbind (message_copy msg) (\<lambda>c. Inr (p\<lparr>send_queue := send_queue p @ [c]\<rparr>)))"

definition has_packet :: "protocol \<Rightarrow> bool" where
  "has_packet p \<longleftrightarrow> send_queue p \<noteq> []"

definition get_packet :: "protocol \<Rightarrow> (bytes \<times> protocol) res" where
  "get_packet p =
     (case send_queue p of
        [] \<Rightarrow> Inl (Undefined Out_of_bounds)
      | msg # rest \<Rightarrow>
          (let msg_header = (header msg)\<lparr>hdr_size := of_nat (bs_size msg)\<rparr>
           in rbind (bs_write (header_bytes msg_header) bs_new) (\<lambda>w.
              rbind (bs_write (bs_buf msg) w) (\<lambda>w.
              Inr (bs_buf w, p\<lparr>send_queue := rest\<rparr>)))))"

section \<open>The send side\<close>

text \<open>The frame of a message: its header with the payload's size, then the payload.\<close>

definition frame :: "message \<Rightarrow> bytes" where
  "frame m = header_bytes ((header m)\<lparr>hdr_size := of_nat (length (payload m))\<rparr>) @ payload m"

lemma frame_cong: "payload c = payload m \<Longrightarrow> header c = header m \<Longrightarrow> frame c = frame m"
  by (simp add: frame_def)

definition small :: "message \<Rightarrow> bool" where
  "small m \<longleftrightarrow> length (payload m) + 6 \<le> vec_max"

lemma get_packet_frame:
  assumes "send_queue p = m # q" "small m"
  shows "get_packet p = Inr (frame m, p\<lparr>send_queue := q\<rparr>)"
  using assms
  by (simp add: get_packet_def frame_def payload_def bs_write_def bs_size_def bs_new_def
      insert_at_def small_def Let_def add.commute)

lemma protocol_send_ok:
  assumes "length (payload m) \<le> max_pkt_size p" "max_pkt_size p + 6 \<le> vec_max"
  shows "\<exists>c. protocol_send m p = Inr (p\<lparr>send_queue := send_queue p @ [c]\<rparr>)
           \<and> payload c = payload m \<and> header c = header m \<and> small c"
  using assms message_copy_ok [of m]
  by (auto simp: protocol_send_def payload_def bs_size_def small_def)

fun send_all :: "message list \<Rightarrow> protocol \<Rightarrow> protocol res" where
  "send_all [] p = Inr p"
| "send_all (m # ms) p = rbind (protocol_send m p) (send_all ms)"

fun drain :: "nat \<Rightarrow> protocol \<Rightarrow> (bytes \<times> protocol) res" where
  "drain 0 p = Inr ([], p)"
| "drain (Suc n) p =
     (if has_packet p
      then rbind (get_packet p) (\<lambda>(pkt, p). rbind (drain n p) (\<lambda>(rest, p). Inr (pkt @ rest, p)))
      else Inr ([], p))"

lemma drain_frames:
  "list_all small (send_queue p) \<Longrightarrow>
   drain (length (send_queue p)) p = Inr (concat (map frame (send_queue p)), p\<lparr>send_queue := []\<rparr>)"
proof (induction "send_queue p" arbitrary: p)
  case (Cons m q)
  let ?p = "p\<lparr>send_queue := q\<rparr>"
  have q: "send_queue p = m # q" using Cons.hyps(2) by simp
  have "drain (length q) ?p = Inr (concat (map frame q), ?p\<lparr>send_queue := []\<rparr>)"
    using Cons.hyps(1) [of ?p] Cons.prems q by simp
  with q Cons.prems get_packet_frame [OF q] show ?case
    by (simp add: has_packet_def)
qed simp

lemma send_all_queue:
  assumes "list_all (\<lambda>m. length (payload m) \<le> max_pkt_size p) ms" "max_pkt_size p + 6 \<le> vec_max"
  shows "\<exists>cs. send_all ms p = Inr (p\<lparr>send_queue := send_queue p @ cs\<rparr>)
           \<and> map frame cs = map frame ms \<and> list_all small cs"
  using assms
proof (induction ms arbitrary: p)
  case (Cons m ms)
  from Cons.prems have "length (payload m) \<le> max_pkt_size p" by simp
  from protocol_send_ok [OF this Cons.prems(2)] obtain c where c:
    "protocol_send m p = Inr (p\<lparr>send_queue := send_queue p @ [c]\<rparr>)"
    "payload c = payload m" "header c = header m" "small c" by blast
  from Cons.IH [of "p\<lparr>send_queue := send_queue p @ [c]\<rparr>"] Cons.prems obtain cs where
    "send_all ms (p\<lparr>send_queue := send_queue p @ [c]\<rparr>)
       = Inr (p\<lparr>send_queue := (send_queue p @ [c]) @ cs\<rparr>)"
    "map frame cs = map frame ms" "list_all small cs" by auto
  with c show ?case by (intro exI [of _ "c # cs"]) (simp add: frame_cong [of c m])
qed simp

text \<open>
  C2: messages no longer than the limit are queued without an error, and draining the queue
  gives their frames in the order they were sent, each with its header's size set to the
  length of its payload.
\<close>

theorem send_drain_frames:
  assumes "list_all (\<lambda>m. length (payload m) \<le> 10240) ms"
  shows "\<exists>p p'. send_all ms protocol_new = Inr p
           \<and> drain (length (send_queue p)) p = Inr (concat (map frame ms), p') \<and> \<not> has_packet p'"
proof -
  from send_all_queue [of protocol_new ms] assms obtain cs where cs:
    "send_all ms protocol_new = Inr (protocol_new\<lparr>send_queue := cs\<rparr>)"
    "map frame cs = map frame ms" "list_all small cs"
    by (auto simp: protocol_new_def vec_max_def)
  let ?p = "protocol_new\<lparr>send_queue := cs\<rparr>"
  from cs(3) drain_frames [of ?p]
  have "drain (length (send_queue ?p)) ?p = Inr (concat (map frame ms), ?p\<lparr>send_queue := []\<rparr>)"
    by (simp add: cs(2))
  with cs(1) show ?thesis
    by (intro exI [of _ ?p] exI [of _ "?p\<lparr>send_queue := []\<rparr>"]) (simp add: has_packet_def)
qed

theorem send_drain_frames_witness:
  "\<exists>p p'. send_all [message_new 0 1 1, message_new 9 2 1] protocol_new = Inr p
     \<and> drain (length (send_queue p)) p = Inr ([0, 0, 0, 0, 1, 1, 0, 0, 0, 0, 2, 1], p')
     \<and> \<not> has_packet p'"
proof -
  have "concat (map frame [message_new 0 1 1, message_new 9 2 1])
      = [0, 0, 0, 0, 1, 1, 0, 0, 0, 0, 2, 1]"
    by (simp add: frame_def message_new_def payload_def message_ext header_bytes_def
        mem_of_word_def)
  with send_drain_frames [of "[message_new 0 1 1, message_new 9 2 1]"] show ?thesis by simp
qed

section \<open>The receive loop\<close>

text \<open>
  The states \<open>receive\<close> can leave behind: waiting for a header; waiting for the rest of a
  frame; with a declared size below six, swallowing every byte; and, with a declared size of
  exactly six, stuck.
\<close>

definition waiting_header :: "rx \<Rightarrow> bool" where
  "waiting_header p \<longleftrightarrow> recv_total_size p = 6 \<and> length (receive_buffer p) < 6"

definition waiting_frame :: "rx \<Rightarrow> bool" where
  "waiting_frame p \<longleftrightarrow> 6 \<le> length (receive_buffer p)
     \<and> length (receive_buffer p) < recv_total_size p \<and> recv_total_size p \<le> max_pkt_size p"

definition swallowing :: "rx \<Rightarrow> bool" where
  "swallowing p \<longleftrightarrow> 0 < recv_total_size p \<and> recv_total_size p < 6 \<and> 6 \<le> length (receive_buffer p)"

definition stuck :: "rx \<Rightarrow> bool" where
  "stuck p \<longleftrightarrow> recv_total_size p = 6 \<and> length (receive_buffer p) = 6
     \<and> unat (hdr_size (header_of (receive_buffer p))) = 6"

lemmas rx_modes = waiting_header_def waiting_frame_def swallowing_def stuck_def

definition rx_inv :: "rx \<Rightarrow> bool" where
  "rx_inv p \<longleftrightarrow> 6 \<le> max_pkt_size p \<and> max_pkt_size p \<le> vec_max
     \<and> (waiting_header p \<or> waiting_frame p \<or> swallowing p \<or> stuck p)"

lemma receive_iter_short_header:
  assumes "waiting_header p" "length (receive_buffer p) + length data < 6"
  shows "receive_iter handler data p h
    = (Inr (length data), p\<lparr>receive_buffer := receive_buffer p @ data\<rparr>, h)"
proof -
  have "size_sub (recv_total_size p) (length (receive_buffer p)) > length data"
    using assms by (simp add: rx_modes size_sub_le)
  with assms show ?thesis
    by (simp add: receive_iter_def rx_modes Let_def sizeof_header_def)
qed

lemma receive_iter_header:
  assumes "waiting_header p" "6 \<le> length (receive_buffer p) + length data"
    and "take 6 (receive_buffer p @ data) = hb" "hdr = header_of hb"
    and "p1 = p\<lparr>receive_buffer := hb\<rparr>" "k = 6 - length (receive_buffer p)"
  shows "receive_iter handler data p h =
    (if hdr_size hdr = 0 then
       (case deliver handler hdr None h of
          (Inl e, h') \<Rightarrow> (Inl (Inl e), p1, h')
        | (Inr continue_parse, h') \<Rightarrow>
            (if \<not> continue_parse then (Inl (Inr False), p1\<lparr>receive_buffer := []\<rparr>, h')
             else (Inr k, p1\<lparr>receive_buffer := []\<rparr>, h')))
     else if unat (hdr_size hdr) > max_pkt_size p then
       (case handler h (Ev_error Message_too_big) of
          (Inl e, h') \<Rightarrow> (Inl (Inl e), p1, h')
        | (Inr _, h') \<Rightarrow> (Inl (Inr False), p1, h'))
     else (Inr k, p1\<lparr>recv_total_size := unat (hdr_size hdr)\<rparr>, h))"
proof -
  have rb: "receive_buffer p @ take k data = hb" and "length hb = 6"
    using assms by (auto simp: waiting_header_def)
  moreover have "size_sub (recv_total_size p) (length (receive_buffer p)) = k" "\<not> k > length data"
    using assms by (auto simp: waiting_header_def size_sub_le)
  ultimately show ?thesis
    using assms(4,5) unfolding receive_iter_def Let_def
    by (simp add: sizeof_header_def unat_eq_zero split: prod.split sum.split)
qed

lemma receive_iter_frame_partial:
  assumes "waiting_frame p" "max_pkt_size p \<le> vec_max"
    and "length (receive_buffer p) + length data < recv_total_size p" "data \<noteq> []"
  shows "receive_iter handler data p h
    = (Inr (length data), p\<lparr>receive_buffer := receive_buffer p @ data\<rparr>, h)"
proof -
  have "size_sub (recv_total_size p) (length (receive_buffer p)) \<ge> length data"
    using assms by (subst size_sub_le) (auto simp: waiting_frame_def vec_max_def)
  with assms show ?thesis
    by (cases data) (auto simp: receive_iter_def waiting_frame_def Let_def sizeof_header_def)
qed

lemma deliver_short_frame:
  assumes "length rb = unat (hdr_size (header_of rb))" "0 < length rb"
  shows "deliver handler (header_of rb) (Some (drop sizeof_header rb)) h = (Inl (Undefined Out_of_bounds), h)"
  using assms by (simp add: deliver_def message_recv_fault sizeof_header_def)

lemma receive_iter_swallow:
  assumes "swallowing p" "length (receive_buffer p) + length data \<le> vec_max" "data \<noteq> []"
  shows "receive_iter handler data p h
    = (Inr (length data), p\<lparr>receive_buffer := receive_buffer p @ data\<rparr>, h)"
proof -
  have "size_sub (recv_total_size p) (length (receive_buffer p)) \<ge> length data"
    using assms by (subst size_sub_wrap) (auto simp: swallowing_def vec_max_def)
  with assms show ?thesis
    by (cases data) (auto simp: receive_iter_def swallowing_def Let_def sizeof_header_def)
qed

lemma receive_iter_stuck:
  assumes "stuck p" "6 \<le> max_pkt_size p" "data \<noteq> []"
  shows "receive_iter handler data p h = (Inr 0, p, h)"
  using assms by (simp add: receive_iter_def stuck_def Let_def sizeof_header_def size_sub_le)

lemma receive_loop_stuck:
  assumes "stuck p" "6 \<le> max_pkt_size p" "data \<noteq> []"
  shows "receive_loop fuel handler data p h = (Inl Diverges, p, h)"
  using assms by (induction fuel) (simp_all add: receive_iter_stuck)

lemma receive_step:
  "data \<noteq> [] \<Longrightarrow> receive handler data p h = (case receive_iter handler data p h of
     (Inl out, p', h') \<Rightarrow> (out, p', h')
   | (Inr k, p', h') \<Rightarrow> receive_loop (length data) handler (drop k data) p' h')"
  by (simp add: receive_def)

lemma receive_Nil [simp]: "receive handler [] p h = (Inr True, p, h)"
  by (simp add: receive_def)

section \<open>Delivery of frames without payload\<close>

text \<open>The message a header alone gives rise to, after the hop.\<close>

definition empty_message :: "message_header \<Rightarrow> message" where
  "empty_message hdr = hop (buffer_stream.extend bs_new \<lparr>header = hdr\<rparr>)"

lemma deliver_empty: "deliver handler hdr None h = handler h (Ev_message (empty_message hdr))"
  by (simp add: deliver_def message_recv_def empty_message_def Let_def)

text \<open>
  The contract \<open>receive\<close> relies on for a stream of frames: the handler accepts every
  message of a class \<open>good\<close> in the states \<open>ok\<close> and goes on reading. \<open>after\<close> is its effect on
  its own state.
\<close>

locale frame_handler =
  fixes handler :: "'h handler"
    and good :: "message \<Rightarrow> bool"
    and after :: "'h \<Rightarrow> message \<Rightarrow> 'h"
    and ok :: "'h \<Rightarrow> bool"
  assumes accepts: "ok h \<Longrightarrow> good m \<Longrightarrow> handler h (Ev_message m) = (Inr True, after h m)"
    and after_ok: "ok h \<Longrightarrow> good m \<Longrightarrow> ok (after h m)"
begin

definition empty_frames :: "message_header list \<Rightarrow> bool" where
  "empty_frames hs \<longleftrightarrow> (\<forall>hdr \<in> set hs. hdr_size hdr = 0 \<and> good (empty_message hdr))"

lemma foldl_after_ok: "ok h \<Longrightarrow> \<forall>m \<in> set ms. good m \<Longrightarrow> ok (foldl after h ms)"
  by (induction ms arbitrary: h) (simp_all add: after_ok)

lemma receive_loop_frames:
  assumes "waiting_header p" "receive_buffer p @ data = concat (map header_bytes hs) @ tail"
    and "length tail < 6" "empty_frames hs" "length data < fuel" "ok h"
  shows "receive_loop fuel handler data p h
    = (Inr True, p\<lparr>receive_buffer := tail\<rparr>, foldl after h (map empty_message hs))"
  using assms
proof (induction hs arbitrary: fuel data p h)
  case Nil
  show ?case
  proof (cases "data = []")
    case True
    with Nil show ?thesis by (cases fuel) auto
  next
    case False
    from Nil.prems have "length (receive_buffer p) + length data < 6"
      by (metis append_Nil concat.simps(1) length_append list.map_disc_iff)
    from receive_iter_short_header [OF Nil.prems(1) this, of handler h] False Nil.prems show ?thesis
      by (cases fuel; cases "fuel - 1") auto
  qed
next
  case (Cons g hs)
  let ?k = "6 - length (receive_buffer p)"
  from Cons.prems(2) have whole: "receive_buffer p @ data = header_bytes g @ concat (map header_bytes hs) @ tail"
    by simp
  have len: "6 \<le> length (receive_buffer p) + length data"
    using arg_cong [OF whole, of length] by simp
  have lt: "length (receive_buffer p) < 6" using Cons.prems(1) by (simp add: waiting_header_def)
  have hb: "take 6 (receive_buffer p @ data) = header_bytes g" unfolding whole by simp
  have rest: "drop ?k data = concat (map header_bytes hs) @ tail"
    using arg_cong [OF whole, of "drop 6"] lt by simp
  have good: "hdr_size g = 0" "good (empty_message g)" "empty_frames hs"
    using Cons.prems(4) by (auto simp: empty_frames_def)
  let ?p = "p\<lparr>receive_buffer := []\<rparr>"
  have iter: "receive_iter handler data p h = (Inr ?k, ?p, after h (empty_message g))"
    using receive_iter_header [OF Cons.prems(1) len hb refl refl refl, of handler h] good
    by (simp add: deliver_empty accepts Cons.prems(6))
  obtain fuel' where fuel: "fuel = Suc fuel'" using Cons.prems(5) by (cases fuel) auto
  have "data \<noteq> []" using len lt by auto
  have short: "length (drop ?k data) < fuel'"
    using Cons.prems(5) fuel \<open>data \<noteq> []\<close> lt by (cases data) auto
  have "receive_loop fuel' handler (drop ?k data) ?p (after h (empty_message g))
      = (Inr True, ?p\<lparr>receive_buffer := tail\<rparr>,
         foldl after (after h (empty_message g)) (map empty_message hs))"
    using Cons.prems(1,3) good(3) rest
    by (intro Cons.IH short after_ok Cons.prems(6) good(2)) (auto simp: waiting_header_def)
  with iter fuel \<open>data \<noteq> []\<close> show ?case by simp
qed

lemma split_frames:
  assumes "xs @ ys = concat (map header_bytes hs) @ tail" "length tail < 6"
  shows "\<exists>hs1 hs2 t. hs = hs1 @ hs2 \<and> length t < 6 \<and> xs = concat (map header_bytes hs1) @ t
    \<and> t @ ys = concat (map header_bytes hs2) @ tail"
  using assms
proof (induction hs arbitrary: xs)
  case Nil
  then have "length (xs @ ys) < 6" by simp
  then have "length xs < 6" by simp
  with Nil show ?case by (intro exI [of _ "[]"] exI [of _ xs]) simp
next
  case (Cons g hs)
  show ?case
  proof (cases "length xs < 6")
    case True
    with Cons.prems show ?thesis
      by (intro exI [of _ "[]"] exI [of _ "g # hs"] exI [of _ xs]) simp
  next
    case False
    then have "take 6 xs = header_bytes g" "drop 6 xs @ ys = concat (map header_bytes hs) @ tail"
      using arg_cong [OF Cons.prems(1), of "take 6"] arg_cong [OF Cons.prems(1), of "drop 6"] by auto
    moreover from Cons.IH [OF this(2) Cons.prems(2)] obtain hs1 hs2 t where
      "hs = hs1 @ hs2" "length t < 6" "drop 6 xs = concat (map header_bytes hs1) @ t"
      "t @ ys = concat (map header_bytes hs2) @ tail" by blast
    ultimately show ?thesis
      by (intro exI [of _ "g # hs1"] exI [of _ hs2] exI [of _ t])
        (simp, metis append_take_drop_id)
  qed
qed

lemma feed_frames:
  assumes "waiting_header p" "receive_buffer p @ concat cs = concat (map header_bytes hs) @ tail"
    and "length tail < 6" "empty_frames hs" "ok h"
  shows "feed handler cs p h
    = (Inr True, p\<lparr>receive_buffer := tail\<rparr>, foldl after h (map empty_message hs))"
  using assms
proof (induction cs arbitrary: p h hs)
  case Nil
  have "hs = []"
  proof (rule ccontr)
    assume "hs \<noteq> []"
    then have "6 \<le> length (receive_buffer p)"
      using arg_cong [OF Nil.prems(2), of length] by (cases hs) auto
    with Nil.prems(1) show False by (simp add: waiting_header_def)
  qed
  with Nil show ?case by auto
next
  case (Cons c cs)
  from split_frames [of "receive_buffer p @ c" "concat cs" hs tail] Cons.prems(2,3)
  obtain hs1 hs2 t where split: "hs = hs1 @ hs2" "length t < 6"
    "receive_buffer p @ c = concat (map header_bytes hs1) @ t"
    "t @ concat cs = concat (map header_bytes hs2) @ tail" by auto
  have "empty_frames hs1" "empty_frames hs2"
    using Cons.prems(4) split(1) by (auto simp: empty_frames_def)
  let ?p = "p\<lparr>receive_buffer := t\<rparr>" and ?h = "foldl after h (map empty_message hs1)"
  have "ok ?h"
    using Cons.prems(5) \<open>empty_frames hs1\<close> by (intro foldl_after_ok) (auto simp: empty_frames_def)
  have "receive handler c p h = (Inr True, ?p, ?h)"
    unfolding receive_def
    by (rule receive_loop_frames [OF Cons.prems(1) split(3,2) \<open>empty_frames hs1\<close> _ Cons.prems(5)]) simp
  moreover have "feed handler cs ?p ?h
      = (Inr True, ?p\<lparr>receive_buffer := tail\<rparr>, foldl after ?h (map empty_message hs2))"
    using Cons.prems(1,3) split \<open>empty_frames hs2\<close> \<open>ok ?h\<close>
    by (intro Cons.IH) (auto simp: waiting_header_def)
  ultimately show ?case using split(1) by simp
qed

end

section \<open>Properties of the receiving side\<close>

definition rx_new :: rx where
  "rx_new = rx.truncate protocol_new"

lemma rx_new_simps [simp]:
  "receive_buffer rx_new = []" "recv_total_size rx_new = 6" "max_pkt_size rx_new = 10240"
  by (simp_all add: rx_new_def protocol_new_def rx.defs sizeof_header_def)

lemma rx_new_eq: "rx_new = \<lparr>receive_buffer = [], recv_total_size = 6, max_pkt_size = 10240\<rparr>"
  by (simp add: rx_new_def protocol_new_def rx.defs sizeof_header_def)

lemma rx_new_modes [simp]: "waiting_header rx_new" "rx_inv rx_new" "\<not> stuck rx_new"
  by (simp_all add: rx_inv_def rx_modes vec_max_def)

lemma rx_new_buffer [simp]: "rx_new\<lparr>receive_buffer := []\<rparr> = rx_new"
  by (simp add: rx_new_def protocol_new_def rx.defs)

lemma frame_empty: "payload m = [] \<Longrightarrow> frame m = header_bytes ((header m)\<lparr>hdr_size := 0\<rparr>)"
  by (simp add: frame_def)

text \<open>
  C5: messages without payload (the pings and pongs of the protocol) survive the network:
  whatever the chunks in which their frames arrive, the handler is called once for each, in
  order, with the sent header, its time-to-live decremented and its size zero, and the
  receiver is back in its initial state.
\<close>

theorem empty_messages_roundtrip:
  assumes "\<And>h m. handler h (Ev_message m) = (Inr True, after h m)"
    and "list_all (\<lambda>m. payload m = []) ms" and "concat cs = concat (map frame ms)"
  shows "feed handler cs rx_new h = (Inr True, rx_new,
    foldl after h (map (\<lambda>m. empty_message ((header m)\<lparr>hdr_size := 0\<rparr>)) ms))"
proof -
  let ?hs = "map (\<lambda>m. (header m)\<lparr>hdr_size := 0\<rparr>) ms"
  have fh: "frame_handler handler (\<lambda>m. True) after (\<lambda>h. True)"
    by (rule frame_handler.intro) (simp_all add: assms(1))
  have "concat (map frame ms) = concat (map header_bytes ?hs)"
    using assms(2) by (intro arg_cong [of _ _ concat]) (auto simp: list_all_iff frame_empty)
  moreover have "frame_handler.empty_frames (\<lambda>m. True) ?hs"
    by (simp add: frame_handler.empty_frames_def [OF fh])
  ultimately have "feed handler cs rx_new h
      = (Inr True, rx_new\<lparr>receive_buffer := []\<rparr>, foldl after h (map empty_message ?hs))"
    using assms(3) by (intro frame_handler.feed_frames [OF fh]) simp_all
  then show ?thesis by (simp add: comp_def)
qed

theorem empty_messages_roundtrip_witness:
  "feed (\<lambda>h ev. (Inr True, h @ [ev])) [[0, 0, 0], [0, 1, 1, 0, 0, 0, 0], [2, 7]] rx_new []
    = (Inr True, rx_new, [Ev_message (message_new 0 1 0), Ev_message (message_new 0 2 6)])"
proof -
  let ?ms = "[message_new 0 1 1, message_new 0 2 7]"
  have frames: "concat [[0, 0, 0], [0, 1, 1, 0, 0, 0, 0], [2, 7]] = concat (map frame ?ms)"
    by (simp add: frame_def message_new_def payload_def message_ext header_bytes_def mem_of_word_def)
  have "empty_message ((header (message_new 0 t (l + 1)))\<lparr>hdr_size := 0\<rparr>) = message_new 0 t l" for t l
    by (simp add: empty_message_def hop_def message_new_def message_ext)
  from this [of 1 0] this [of 2 6] empty_messages_roundtrip
    [of "\<lambda>h ev. (Inr True, h @ [ev])" "\<lambda>h m. h @ [Ev_message m]", OF refl _ frames, of "[]"]
  show ?thesis by simp
qed

lemma frame_cons:
  assumes "payload m = pl" "length pl \<le> 10240"
  shows "frame m = header_bytes ((header m)\<lparr>hdr_size := of_nat (length pl)\<rparr>) @ pl"
    and "unat (of_nat (length pl) :: u32) = length pl"
  using assms by (simp_all add: frame_def unat_of_nat)

text \<open>The state after a header that declares \<open>n\<close> bytes has arrived.\<close>

lemma receive_declares:
  assumes "hdr_size hdr = of_nat n" "0 < n" "n \<le> 10240"
  shows "receive_loop (Suc fuel) handler (header_bytes hdr @ data) rx_new h
    = receive_loop fuel handler data
        (rx_new\<lparr>receive_buffer := header_bytes hdr, recv_total_size := n\<rparr>) h"
proof -
  have n: "unat (hdr_size hdr) = n" using assms by (simp add: unat_of_nat)
  then have "hdr_size hdr \<noteq> 0" using assms(2) by auto
  with n assms(3) have "receive_iter handler (header_bytes hdr @ data) rx_new h
      = (Inr 6, rx_new\<lparr>receive_buffer := header_bytes hdr, recv_total_size := n\<rparr>, h)"
    using receive_iter_header [OF rx_new_modes(1), of "header_bytes hdr @ data" "header_bytes hdr"
        "header_of (header_bytes hdr)" _ 6 handler h]
    by simp
  then show ?thesis by simp
qed

lemma receive_loop_swallow:
  assumes "swallowing p" "length (receive_buffer p) + length data \<le> vec_max" "0 < fuel"
  shows "receive_loop fuel handler data p h
    = (Inr True, p\<lparr>receive_buffer := receive_buffer p @ data\<rparr>, h)"
proof (cases fuel)
  case (Suc f)
  then show ?thesis
    using receive_iter_swallow [OF assms(1,2), of handler h] by (cases f) auto
qed (use assms in simp)

lemma receive_iter_frame_full:
  assumes "waiting_frame p" "max_pkt_size p \<le> vec_max"
    and "recv_total_size p \<le> length (receive_buffer p) + length data"
    and "k = recv_total_size p - length (receive_buffer p)" "rb = receive_buffer p @ take k data"
    and "p1 = p\<lparr>receive_buffer := rb\<rparr>" "6 < recv_total_size p"
  shows "receive_iter handler data p h =
    (case deliver handler (header_of rb) (Some (drop sizeof_header rb)) h of
       (Inl e, h') \<Rightarrow> (Inl (Inl e), p1, h')
     | (Inr c, h') \<Rightarrow>
         (if \<not> c then (Inl (Inr False), p1\<lparr>receive_buffer := [], recv_total_size := 6\<rparr>, h')
          else (Inr k, p1\<lparr>receive_buffer := [], recv_total_size := 6\<rparr>, h')))"
proof -
  have "size_sub (recv_total_size p) (length (receive_buffer p)) = k" "\<not> k > length data"
    using assms by (auto simp: waiting_frame_def size_sub_le vec_max_def)
  moreover have "length rb = recv_total_size p"
    using assms by (auto simp: waiting_frame_def)
  ultimately show ?thesis
    using assms(5-7) unfolding receive_iter_def Let_def
    by (simp add: sizeof_header_def split: prod.split sum.split)
qed



text \<open>
  Once a header has declared one to five bytes, the connection is dead: everything that
  arrives is appended to the receive buffer, no matter how much, and no handler is ever called
  again.
\<close>

theorem swallowing_forever:
  assumes "swallowing p" "length (receive_buffer p) + length (concat cs) \<le> vec_max"
  shows "feed handler cs p h = (Inr True, p\<lparr>receive_buffer := receive_buffer p @ concat cs\<rparr>, h)"
  using assms
proof (induction cs arbitrary: p)
  case (Cons c cs)
  let ?p = "p\<lparr>receive_buffer := receive_buffer p @ c\<rparr>"
  have "receive handler c p h = (Inr True, ?p, h)"
    using receive_loop_swallow [OF Cons.prems(1), of c "Suc (length c)" handler h] Cons.prems(2)
    by (simp add: receive_def del: receive_loop.simps)
  moreover have "feed handler cs ?p h = (Inr True, ?p\<lparr>receive_buffer := receive_buffer ?p @ concat cs\<rparr>, h)"
    using Cons.prems by (intro Cons.IH) (auto simp: swallowing_def)
  ultimately show ?case by simp
qed simp

theorem swallowing_forever_witness:
  "feed (\<lambda>h ev. (Inr False, Suc h)) [[9], [8, 7]]
     \<lparr>receive_buffer = [1, 0, 0, 0, 5, 1], recv_total_size = 1, max_pkt_size = 10240\<rparr> 0
   = (Inr True, \<lparr>receive_buffer = [1, 0, 0, 0, 5, 1, 9, 8, 7], recv_total_size = 1,
        max_pkt_size = 10240\<rparr>, 0)"
  by (subst swallowing_forever) (simp_all add: swallowing_def vec_max_def)

text \<open>
  One round makes progress: outside the stuck mode it ends the call or consumes at least one
  byte and leaves the receiver in one of its modes, whose memory grows by no more than it read.
\<close>

definition not_diverging :: "'h handler \<Rightarrow> bool" where
  "not_diverging handler \<longleftrightarrow> (\<forall>h ev. fst (handler h ev) \<noteq> Inl Diverges)"

lemma deliver_not_diverging:
  assumes "not_diverging handler"
  shows "fst (deliver handler hdr buf h) \<noteq> Inl Diverges"
proof -
  have "message_recv hdr buf \<noteq> Inl Diverges"
    by (auto simp: message_recv_def bs_write_def Let_def split: option.splits)
  then show ?thesis
    using assms by (auto simp: deliver_def not_diverging_def split: sum.splits)
qed

definition progress :: "bytes \<Rightarrow> rx \<Rightarrow> (bool res + nat) \<times> rx \<times> 'h \<Rightarrow> bool" where
  "progress data p r = (case r of
     (Inl out, _) \<Rightarrow> out \<noteq> Inl Diverges \<and> out \<noteq> Inr True
   | (Inr k, p', h') \<Rightarrow> 0 < k \<and> k \<le> length data \<and> rx_inv p'
       \<and> length (receive_buffer p') \<le> length (receive_buffer p) + k)"

lemma progress_deliver:
  assumes "fst d \<noteq> Inl Diverges" "0 < k" "k \<le> length data" "rx_inv p2"
    and "receive_buffer p2 = []"
  shows "progress data p (case d of (Inl e, h') \<Rightarrow> (Inl (Inl e), p1, h')
     | (Inr c, h') \<Rightarrow> (if \<not> c then (Inl (Inr False), p2, h') else (Inr k, p2, h')))"
  using assms by (auto simp: progress_def split: prod.split sum.split)

lemma progress_too_big:
  assumes "fst d \<noteq> Inl Diverges"
  shows "progress data p (case d of (Inl e, h') \<Rightarrow> (Inl (Inl e), p1, h')
     | (Inr (_ :: bool), h') \<Rightarrow> (Inl (Inr False), p1, h'))"
  using assms by (auto simp: progress_def split: prod.split sum.split)

lemma receive_iter_progress:
  assumes inv: "rx_inv p" and "\<not> stuck p" and data: "data \<noteq> []"
    and size: "length (receive_buffer p) + length data \<le> vec_max" and nd: "not_diverging handler"
  shows "progress data p (receive_iter handler data p h)"
proof -
  have max: "max_pkt_size p \<le> vec_max" "6 \<le> max_pkt_size p" using inv by (auto simp: rx_inv_def)
  have pos: "0 < length data" using data by simp
  consider "waiting_header p" | "waiting_frame p" | "swallowing p"
    using inv assms(2) by (auto simp: rx_inv_def)
  then show ?thesis
  proof cases
    case 1
    show ?thesis
    proof (cases "length (receive_buffer p) + length data < 6")
      case True
      with receive_iter_short_header [OF 1 True, of handler h] 1 max pos show ?thesis
        by (simp add: progress_def rx_inv_def waiting_header_def)
    next
      case False
      let ?hb = "take 6 (receive_buffer p @ data)" and ?k = "6 - length (receive_buffer p)"
      let ?p1 = "p\<lparr>receive_buffer := ?hb\<rparr>"
      from False have len: "6 \<le> length (receive_buffer p) + length data" by simp
      have k: "0 < ?k" "?k \<le> length data" using 1 len by (auto simp: waiting_header_def)
      have lhb: "length ?hb = 6" using len by simp
      have idle: "rx_inv (?p1\<lparr>receive_buffer := []\<rparr>)"
        using 1 max by (simp add: rx_inv_def waiting_header_def)
      have declared: "rx_inv (?p1\<lparr>recv_total_size := unat s\<rparr>)"
        if "s = hdr_size (header_of ?hb)" "s \<noteq> 0" "unat s \<le> max_pkt_size p" for s :: u32
        using that max lhb unat_gt_0 [of s]
        by (auto simp: rx_inv_def rx_modes simp del: take_append)
      show ?thesis
        unfolding receive_iter_header [OF 1 len refl refl refl refl]
        using progress_deliver [OF deliver_not_diverging [OF nd] k idle, of p] declared k lhb
          progress_too_big [of "handler h (Ev_error Message_too_big)"] nd
        by (auto simp: progress_def [of data p "(Inr _, _)"] not_diverging_def simp del: take_append)
    qed
  next
    case 2
    show ?thesis
    proof (cases "length (receive_buffer p) + length data < recv_total_size p")
      case True
      with receive_iter_frame_partial [OF 2 max(1) True data, of handler h] 2 max pos show ?thesis
        by (simp add: progress_def rx_inv_def waiting_frame_def)
    next
      case False
      let ?k = "recv_total_size p - length (receive_buffer p)"
      let ?p2 = "p\<lparr>receive_buffer := [], recv_total_size := 6\<rparr>"
      from False have len: "recv_total_size p \<le> length (receive_buffer p) + length data" by simp
      have k: "0 < ?k" "?k \<le> length data" "6 < recv_total_size p"
        using 2 len by (auto simp: waiting_frame_def)
      have "rx_inv ?p2" using max by (simp add: rx_inv_def waiting_header_def)
      then show ?thesis
        unfolding receive_iter_frame_full [OF 2 max(1) len refl refl refl k(3)]
        by (intro progress_deliver deliver_not_diverging nd k) simp_all
    qed
  next
    case 3
    with receive_iter_swallow [OF 3 size data, of handler h] max pos show ?thesis
      by (simp add: progress_def rx_inv_def swallowing_def)
  qed
qed

lemma receive_loop_ends:
  assumes "rx_inv p" "length data < fuel" "length (receive_buffer p) + length data \<le> vec_max"
    and "not_diverging handler" "receive_loop fuel handler data p h = (out, p', h')"
  shows "(out = Inl Diverges \<longrightarrow> stuck p') \<and> (out = Inr True \<longrightarrow> rx_inv p')"
  using assms
proof (induction fuel arbitrary: data p h)
  case (Suc fuel)
  consider "data = []" | "stuck p" "data \<noteq> []" | "\<not> stuck p" "data \<noteq> []" by blast
  then show ?case
  proof cases
    case 2
    then show ?thesis
      using receive_loop_stuck [OF 2(1) _ 2(2), of "Suc fuel" handler h] Suc.prems(1,5)
      by (simp add: rx_inv_def del: receive_loop.simps)
  next
    case 3
    obtain r p1 h1 where iter: "receive_iter handler data p h = (r, p1, h1)" by (cases "receive_iter handler data p h")
    with receive_iter_progress [OF Suc.prems(1) 3 Suc.prems(3,4), of h]
    have prog: "progress data p (r, p1, h1)" by simp
    show ?thesis
    proof (cases r)
      case (Inl o')
      with prog iter 3 Suc.prems(5) show ?thesis by (auto simp: progress_def)
    next
      case (Inr k)
      with prog have "0 < k" "k \<le> length data" "rx_inv p1"
        "length (receive_buffer p1) \<le> length (receive_buffer p) + k" by (auto simp: progress_def)
      with Suc.IH [of p1 "drop k data" h1] Inr iter 3 Suc.prems show ?thesis by simp
    qed
  qed (use Suc.prems in auto)
qed simp


text \<open>
  In the stuck mode the loop never ends once a further byte is there: no amount of fuel
  suffices, the receiver does not change and the handler is not called. A header with size six
  and one more byte from any connected peer bring a fresh receiver there.
\<close>

theorem six_byte_frame_diverges:
  assumes "hdr_size hdr = 6" "data \<noteq> []"
  shows "receive_loop fuel handler (header_bytes hdr @ data) rx_new h
    = (Inl Diverges, if fuel = 0 then rx_new
       else \<lparr>receive_buffer = header_bytes hdr, recv_total_size = 6, max_pkt_size = 10240\<rparr>, h)"
proof (cases fuel)
  case (Suc f)
  let ?p = "rx_new\<lparr>receive_buffer := header_bytes hdr, recv_total_size := 6\<rparr>"
  have "receive_loop fuel handler (header_bytes hdr @ data) rx_new h = receive_loop f handler data ?p h"
    using receive_declares [of hdr 6 f handler data h] assms(1) Suc by simp
  moreover have "stuck ?p" using assms(1) by (simp add: stuck_def)
  then have "receive_loop f handler data ?p h = (Inl Diverges, ?p, h)"
    using assms(2) by (intro receive_loop_stuck) simp_all
  ultimately show ?thesis using Suc by (simp add: rx_new_eq)
qed simp

theorem six_byte_frame_diverges_witness:
  "fst (receive_loop 1000000 (\<lambda>h ev. (Inr True, Suc h)) [6, 0, 0, 0, 5, 1, 0] rx_new 0) = Inl Diverges"
proof -
  have "header_bytes \<lparr>hdr_size = 6, hdr_type = 5, hdr_ttl = 1\<rparr> = [6, 0, 0, 0, 5, 1]"
    by (simp add: header_bytes_def mem_of_word_def)
  with six_byte_frame_diverges [of "\<lparr>hdr_size = 6, hdr_type = 5, hdr_ttl = 1\<rparr>" "[0]" 1000000
      "\<lambda>h ev. (Inr True, Suc h)" 0]
  show ?thesis by simp
qed

text \<open>
  A header that declares more than the packet limit makes the handler see the error
  ``message too big'' once, and reading stops, whatever the handler answers.
\<close>

theorem oversized_frame_rejected:
  assumes "max_pkt_size rx_new < unat (hdr_size hdr)"
  shows "receive handler (header_bytes hdr @ data) rx_new h =
    (case handler h (Ev_error Message_too_big) of (r, h') \<Rightarrow>
       (rbind r (\<lambda>_. Inr False), rx_new\<lparr>receive_buffer := header_bytes hdr\<rparr>, h'))"
proof -
  have "hdr_size hdr \<noteq> 0" using assms by auto
  with assms receive_iter_header [OF rx_new_modes(1), of "header_bytes hdr @ data" "header_bytes hdr"
      "header_of (header_bytes hdr)" _ 6 handler h]
  show ?thesis by (simp add: receive_step split: prod.split sum.split)
qed

theorem oversized_frame_rejected_witness:
  "receive (\<lambda>h ev. (Inr True, h @ [ev])) [1, 40, 0, 0, 3, 9, 77] rx_new []
    = (Inr False, rx_new\<lparr>receive_buffer := [1, 40, 0, 0, 3, 9]\<rparr>, [Ev_error Message_too_big])"
proof -
  have "header_bytes \<lparr>hdr_size = 10241, hdr_type = 3, hdr_ttl = 9\<rparr> = [1, 40, 0, 0, 3, 9]"
    by (simp add: header_bytes_def mem_of_word_def)
  with oversized_frame_rejected [of "\<lparr>hdr_size = 10241, hdr_type = 3, hdr_ttl = 9\<rparr>"
      "\<lambda>h ev. (Inr True, h @ [ev])" "[77]" "[]"]
  show ?thesis by simp
qed

end
