(* ===== verification/CLib.thy ===== *)
theory CLib
  imports Prelude
begin

text \<open>
  What the code uses of the standard library on numbers as text: \<open>isspace\<close>, decimal output,
  \<open>strtol\<close> and \<open>strtoul\<close> with base 16, \<open>stoi\<close>, \<open>strtod\<close>, and the operations on \<open>double\<close>: comparison,
  conversion from and to integers, output to a stream. A \<open>double\<close> is its 64-bit pattern
  (binary64): a sign, 11 bits of exponent, 52 bits of fraction; rounding is to the nearest, ties
  to even. The results are those of the C locale.
\<close>

section \<open>Characters and integers\<close>

definition isspace :: "char \<Rightarrow> bool" where
  "isspace c \<longleftrightarrow> c \<in> set [CHR 0x09, CHR 0x0A, CHR 0x0B, CHR 0x0C, CHR 0x0D, CHR '' '']"

definition isdigit :: "char \<Rightarrow> bool" where
  "isdigit c \<longleftrightarrow> 48 \<le> (of_char c :: nat) \<and> (of_char c :: nat) \<le> 57"

definition digit_val :: "char \<Rightarrow> nat" where
  "digit_val c = of_char c - 48"

fun decimal :: "nat \<Rightarrow> string" where
  "decimal n = (if n < 10 then [char_of (48 + n)] else decimal (n div 10) @ [char_of (48 + n mod 10)])"

declare decimal.simps [simp del]

definition digits_val :: "string \<Rightarrow> nat" where
  "digits_val s = foldl (\<lambda>v c. 10 * v + digit_val c) 0 s"

text \<open>\<open>strtol\<close> with base 16: white space, a sign, an optional prefix, then digits.\<close>

definition hex_val :: "char \<Rightarrow> nat option" where
  "hex_val c = (let k = of_char c :: nat in
     if 48 \<le> k \<and> k < 58 then Some (k - 48)
     else if 97 \<le> k \<and> k < 103 then Some (k - 87)
     else if 65 \<le> k \<and> k < 71 then Some (k - 55) else None)"

fun strtol_digits :: "int \<Rightarrow> string \<Rightarrow> int" where
  "strtol_digits acc [] = acc"
| "strtol_digits acc (c # s) = (case hex_val c of None \<Rightarrow> acc | Some d \<Rightarrow> strtol_digits (16 * acc + int d) s)"

fun skip_0x :: "string \<Rightarrow> string" where
  "skip_0x (a # x # d # s) =
     (if a = CHR ''0'' \<and> x \<in> {CHR ''x'', CHR ''X''} \<and> hex_val d \<noteq> None then d # s else a # x # d # s)"
| "skip_0x s = s"

definition strtol16 :: "string \<Rightarrow> int" where
  "strtol16 s =
     (let s = dropWhile isspace s
      in case s of
           [] \<Rightarrow> 0
         | c # t \<Rightarrow>
             if c = CHR ''-'' then - strtol_digits 0 (skip_0x t)
             else if c = CHR ''+'' then strtol_digits 0 (skip_0x t)
             else strtol_digits 0 (skip_0x (c # t)))"

text \<open>\<open>strtoul\<close> on a text too short to overflow: a negated value wraps around.\<close>

definition strtoul16 :: "string \<Rightarrow> nat" where
  "strtoul16 s = nat (strtol16 s mod 2 ^ 64)"

text \<open>
  \<open>std::stoi\<close>: white space, a sign and decimal digits; what follows them is not looked at, a zero
  byte neither.
\<close>

definition stoi :: "string \<Rightarrow> int res" where
  "stoi s =
     (let s = dropWhile isspace s;
          t = (if s \<noteq> [] \<and> hd s \<in> {CHR ''-'', CHR ''+''} then tl s else s);
          ds = takeWhile isdigit t;
          v = (if s \<noteq> [] \<and> hd s = CHR ''-'' then - int (digits_val ds) else int (digits_val ds))
      in if ds = [] then Inl (Invalid_argument ''stoi'')
         else if v < - (2 ^ 31) \<or> v \<ge> 2 ^ 31 then Inl (Out_of_range ''stoi'')
         else Inr v)"

lemma hexify_val: "d < 16 \<Longrightarrow> hex_val (hexify ! d) = Some d \<and> \<not> isspace (hexify ! d)
    \<and> hexify ! d \<noteq> CHR ''-'' \<and> hexify ! d \<noteq> CHR ''+'' \<and> hexify ! d \<noteq> CHR 0x00"
proof -
  have all: "list_all (\<lambda>(d, c). hex_val c = Some d \<and> \<not> isspace c \<and> c \<noteq> CHR ''-'' \<and> c \<noteq> CHR ''+'' \<and> c \<noteq> CHR 0x00)
      (zip [0,1,2,3,4,5,6,7,8,9,10,11,12,13,14,15] hexify)"
    by (simp add: hexify_def hex_val_def isspace_def)
  assume "d < 16"
  have upt: "[0,1,2,3,4,5,6,7,8,9,10,11,12,13,14,15] = [0..<16]" by code_simp
  have "zip [0,1,2,3,4,5,6,7,8,9,10,11,12,13,14,15] hexify ! d = (d, hexify ! d)"
    unfolding upt using \<open>d < 16\<close> by (simp add: hexify_def)
  moreover have "zip [0,1,2,3,4,5,6,7,8,9,10,11,12,13,14,15 :: nat] hexify ! d \<in> set (zip [0,1,2,3,4,5,6,7,8,9,10,11,12,13,14,15] hexify)"
    using \<open>d < 16\<close> by (intro nth_mem) (simp add: hexify_def)
  ultimately show ?thesis using all unfolding list_all_iff by force
qed

section \<open>Doubles\<close>

type_synonym double = u64

definition d_sign :: "double \<Rightarrow> bool" where
  "d_sign b \<longleftrightarrow> unat b \<ge> 2 ^ 63"

definition d_magnitude :: "double \<Rightarrow> nat" where
  "d_magnitude b = unat b mod 2 ^ 63"

definition d_exponent :: "double \<Rightarrow> nat" where
  "d_exponent b = d_magnitude b div 2 ^ 52"

definition d_fraction :: "double \<Rightarrow> nat" where
  "d_fraction b = unat b mod 2 ^ 52"

definition d_nan :: "double \<Rightarrow> bool" where
  "d_nan b \<longleftrightarrow> d_magnitude b > 2047 * 2 ^ 52"

definition d_finite :: "double \<Rightarrow> bool" where
  "d_finite b \<longleftrightarrow> d_magnitude b < 2047 * 2 ^ 52"

text \<open>The patterns of numbers are ordered like the numbers, up to the sign.\<close>

definition d_key :: "double \<Rightarrow> int" where
  "d_key b = (if d_sign b then - int (d_magnitude b) else int (d_magnitude b))"

definition d_less :: "double \<Rightarrow> double \<Rightarrow> bool" where
  "d_less a b \<longleftrightarrow> \<not> d_nan a \<and> \<not> d_nan b \<and> d_key a < d_key b"

definition d_eq :: "double \<Rightarrow> double \<Rightarrow> bool" where
  "d_eq a b \<longleftrightarrow> \<not> d_nan a \<and> \<not> d_nan b \<and> d_key a = d_key b"

text \<open>The magnitude of a finite number is \<open>d_mantissa * 2 ^ (d_scale - 1075)\<close>.\<close>

definition d_mantissa :: "double \<Rightarrow> nat" where
  "d_mantissa b = (if d_exponent b = 0 then d_fraction b else 2 ^ 52 + d_fraction b)"

definition d_scale :: "double \<Rightarrow> nat" where
  "d_scale b = max 1 (d_exponent b)"

text \<open>The magnitude as a fraction.\<close>

definition d_num :: "double \<Rightarrow> nat" where
  "d_num b = d_mantissa b * 2 ^ (d_scale b - 1075)"

definition d_den :: "double \<Rightarrow> nat" where
  "d_den b = 2 ^ (1075 - d_scale b)"

definition div_even :: "nat \<Rightarrow> nat \<Rightarrow> nat" where
  "div_even a b =
     (let q = a div b; r = a mod b in if 2 * r > b \<or> 2 * r = b \<and> odd q then q + 1 else q)"

fun ilog2 :: "nat \<Rightarrow> nat" where
  "ilog2 n = (if n < 2 then 0 else Suc (ilog2 (n div 2)))"

declare ilog2.simps [simp del]

definition scale_div :: "nat \<Rightarrow> nat \<Rightarrow> int \<Rightarrow> nat" where
  "scale_div n d k = (if k \<ge> 0 then div_even n (d * 2 ^ nat k) else div_even (n * 2 ^ nat (- k)) d)"

text \<open>
  The magnitude of the double nearest to \<open>n / d\<close>: the mantissa \<open>n / d / 2 ^ k\<close> has 53 bits, or
  fewer if \<open>k\<close> is the least exponent; a mantissa rounded up to 54 bits carries into the exponent.
\<close>

definition d_of_ratio :: "nat \<Rightarrow> nat \<Rightarrow> nat" where
  "d_of_ratio n d =
     (if n = 0 then 0
      else let k0 = int (ilog2 n) - int (ilog2 d) - 52;
               small = (if k0 \<ge> 0 then n < d * 2 ^ (52 + nat k0) else n * 2 ^ nat (- k0) < d * 2 ^ 52);
               k = max (- 1074) (if small then k0 - 1 else k0)
           in min (2047 * 2 ^ 52) (nat (k + 1074) * 2 ^ 52 + scale_div n d k))"

definition d_signed :: "bool \<Rightarrow> nat \<Rightarrow> double" where
  "d_signed neg m = of_nat (m + (if neg then 2 ^ 63 else 0))"

definition d_of_int :: "int \<Rightarrow> double" where
  "d_of_int i = d_signed (i < 0) (d_of_ratio (nat \<bar>i\<bar>) 1)"

text \<open>Conversion to an integer drops the fraction; there is no result for infinities and NaN.\<close>

definition d_trunc :: "double \<Rightarrow> int option" where
  "d_trunc b =
     (if d_finite b
      then Some (let m = int (d_num b div d_den b) in if d_sign b then - m else m) else None)"

text \<open>\<open>strtod\<close> on decimal numbers, the only ones it is called with.\<close>

definition strtod :: "string \<Rightarrow> double" where
  "strtod s =
     (let s = dropWhile isspace s;
          neg = (take 1 s = ''-'');
          s = (if neg \<or> take 1 s = ''+'' then drop 1 s else s);
          ip = takeWhile isdigit s;
          s = dropWhile isdigit s;
          fp = (if take 1 s = ''.'' then takeWhile isdigit (drop 1 s) else []);
          s = (if take 1 s = ''.'' then dropWhile isdigit (drop 1 s) else s);
          ep = (if take 1 s = ''e'' \<or> take 1 s = ''E'' then drop 1 s else []);
          eneg = (take 1 ep = ''-'');
          ed = takeWhile isdigit (if eneg \<or> take 1 ep = ''+'' then drop 1 ep else ep);
          ev = (if eneg then - int (digits_val ed) else int (digits_val ed)) - int (length fp);
          m = digits_val (ip @ fp)
      in d_signed neg (if ev \<ge> 0 then d_of_ratio (m * 10 ^ nat ev) 1 else d_of_ratio m (10 ^ nat (- ev))))"

text \<open>
  Output to a stream with precision 15 (\<open>%.15g\<close>): the decimal exponent \<open>x\<close> of the leading digit,
  15 digits, and the exponential form for exponents below -4 or above 14. Zeros at the end of the
  fraction are dropped.
\<close>

function log10_below :: "nat \<Rightarrow> nat \<Rightarrow> nat" where
  "log10_below n d = (if n \<ge> d \<or> n = 0 then 0 else Suc (log10_below (10 * n) d))"
  by auto
termination by (relation "measure (\<lambda>(n, d). d - n)") auto

declare log10_below.simps [simp del]

definition log10_floor :: "nat \<Rightarrow> nat \<Rightarrow> int" where
  "log10_floor n d = (if n \<ge> d then int (length (decimal (n div d))) - 1 else - int (log10_below n d))"

definition digits15 :: "nat \<Rightarrow> nat \<Rightarrow> string \<times> int" where
  "digits15 n d =
     (let x = log10_floor n d;
          m = (if x \<le> 14 then div_even (n * 10 ^ nat (14 - x)) d else div_even n (d * 10 ^ nat (x - 14)))
      in if m = 10 ^ 15 then (decimal (10 ^ 14), x + 1) else (decimal m, x))"

definition strip_zeros :: "string \<Rightarrow> string" where
  "strip_zeros s = rev (dropWhile (\<lambda>c. c = CHR ''0'') (rev s))"

definition with_fraction :: "string \<Rightarrow> string \<Rightarrow> string" where
  "with_fraction ip fp = (let f = strip_zeros fp in if f = [] then ip else ip @ ''.'' @ f)"

definition put_double :: "double \<Rightarrow> string" where
  "put_double b =
     (if d_sign b then ''-'' else []) @
     (if d_nan b then ''nan'' else if \<not> d_finite b then ''inf'' else if d_magnitude b = 0 then ''0''
      else case digits15 (d_num b) (d_den b) of (ds, x) \<Rightarrow>
        if x < - 4 \<or> x \<ge> 15
        then with_fraction (take 1 ds) (drop 1 ds) @ ''e'' @ (if x < 0 then ''-'' else ''+'')
               @ (let e = decimal (nat \<bar>x\<bar>) in if length e < 2 then ''0'' @ e else e)
        else if x \<ge> 0 then with_fraction (take (nat x + 1) ds) (drop (nat x + 1) ds)
        else with_fraction ''0'' (replicate (nat (- x) - 1) CHR ''0'' @ ds))"

end
