(* ===== verification/Base58.thy ===== *)
theory Base58
  imports CLib "HOL-Library.Char_ord"
begin

text \<open>
  \<open>iotchain/src/base58.cpp\<close>: encoding of byte strings in base 58 and back. Both directions
  hold a number as a vector of digits, most significant first, and fold the input into it
  digit by digit with ``b = b * from + digit'', computed from the vector's end with a carry and
  cut short above the digits in use. The model keeps the vectors, the early stop, the assertion
  that no carry is left, and the vector sizes computed with 138/100 and 733/1000.
\<close>

section \<open>The shared digit loop\<close>

text \<open>
  The inner loop, on the digits from the least significant one on: it returns the new digits,
  the carry that is left and the number of digits touched. \<open>from\<close> and \<open>base\<close> are the two
  bases; \<open>unsigned char\<close> holds every digit, as each is reduced modulo the base.
\<close>

fun push_digit :: "nat \<Rightarrow> nat \<Rightarrow> nat \<Rightarrow> nat \<Rightarrow> nat \<Rightarrow> nat list \<Rightarrow> nat list \<times> nat \<times> nat" where
  "push_digit frm base carry i len [] = ([], carry, i)"
| "push_digit frm base carry i len (d # ds) =
     (if carry \<noteq> 0 \<or> i < len
      then (let c = carry + frm * d;
                (ds', carry', i') = push_digit frm base (c div base) (Suc i) len ds
            in (c mod base # ds', carry', i'))
      else (d # ds, carry, i))"

text \<open>The outer loop, on the vector \<open>b\<close> and the number \<open>len\<close> of its digits in use.\<close>

fun push_digits :: "nat \<Rightarrow> nat \<Rightarrow> nat list \<Rightarrow> nat list \<times> nat \<Rightarrow> (nat list \<times> nat) res" where
  "push_digits frm base [] (b, len) = Inr (b, len)"
| "push_digits frm base (c # cs) (b, len) =
     (case push_digit frm base c 0 len (rev b) of
        (ds, carry, i) \<Rightarrow>
          if carry \<noteq> 0 then Inl (Assertion ''carry == 0'')
          else push_digits frm base cs (rev ds, i))"

text \<open>An expression of type \<open>ptrdiff_t\<close> or \<open>size_t\<close> stored into an \<open>int\<close>.\<close>

definition narrow_int :: "nat \<Rightarrow> int" where
  "narrow_int n = sint (word_of_nat n :: 32 word)"

section \<open>Encoding\<close>

definition pszBase58 :: string where
  "pszBase58 = ''123456789ABCDEFGHJKLMNPQRSTUVWXYZabcdefghijkmnopqrstuvwxyz''"

definition base58_encode :: "bytes \<Rightarrow> string res" where
  "base58_encode bs =
     (let zeroes = length (takeWhile (\<lambda>b. b = 0) bs);
          rest = dropWhile (\<lambda>b. b = 0) bs;
          size = narrow_int (length rest * 138 div 100 + 1)
      in if size < 0 then Inl Length_error
         else rbind (push_digits 256 58 (map unat rest) (replicate (nat size) 0, 0)) (\<lambda>(b58, len).
           Inr (replicate zeroes CHR ''1''
             @ map (\<lambda>d. pszBase58 ! d) (dropWhile (\<lambda>d. d = 0) (drop (nat size - len) b58)))))"

section \<open>Decoding\<close>

fun index_from :: "nat \<Rightarrow> char list \<Rightarrow> char \<Rightarrow> nat option" where
  "index_from i [] c = None"
| "index_from i (x # xs) c = (if x = c then Some i else index_from (Suc i) xs c)"

text \<open>\<open>strchr(pszBase58, c) - pszBase58\<close>, \<open>None\<close> for the null pointer.\<close>

definition strchr58 :: "char \<Rightarrow> nat option" where
  "strchr58 c = index_from 0 pszBase58 c"

text \<open>
  The loop over the characters up to the first space: \<open>None\<close> is the return on a character
  outside the alphabet, otherwise the rest of the string from the space on.
\<close>

fun decode_chars :: "char list \<Rightarrow> nat list \<times> nat \<Rightarrow> (char list \<times> nat list \<times> nat) option res" where
  "decode_chars [] st = Inr (Some ([], st))"
| "decode_chars (c # cs) st =
     (if isspace c then Inr (Some (c # cs, st))
      else case strchr58 c of
          None \<Rightarrow> Inr None
        | Some d \<Rightarrow> rbind (push_digits 58 256 [d] st) (decode_chars cs))"

text \<open>
  The \<open>const char*\<close> version; \<open>psz\<close> are the characters before the terminating null and
  \<open>vch\<close> is the output vector, which is left alone when decoding fails.
\<close>

definition base58_decode_psz :: "char list \<Rightarrow> bytes \<Rightarrow> (bool \<times> bytes) res" where
  "base58_decode_psz psz vch =
     (let psz1 = dropWhile isspace psz;
          zeroes = length (takeWhile (\<lambda>c. c = CHR ''1'') psz1);
          psz2 = dropWhile (\<lambda>c. c = CHR ''1'') psz1;
          size = narrow_int (length psz2 * 733 div 1000 + 1)
      in if size < 0 then Inl Length_error
         else rbind (decode_chars psz2 (replicate (nat size) 0, 0)) (\<lambda>r.
           case r of
             None \<Rightarrow> Inr (False, vch)
           | Some (psz3, b256, len) \<Rightarrow>
               if dropWhile isspace psz3 \<noteq> [] then Inr (False, vch)
               else Inr (True, replicate zeroes 0
                 @ map of_nat (dropWhile (\<lambda>d. d = 0) (drop (nat size - len) b256)))))"

text \<open>The \<open>std::string\<close> version goes through \<open>c_str()\<close>.\<close>

definition base58_decode :: "string \<Rightarrow> bytes \<Rightarrow> (bool \<times> bytes) res" where
  "base58_decode str vchRet = base58_decode_psz (takeWhile (\<lambda>c. c \<noteq> CHR 0x00) str) vchRet"

section \<open>Numbers in positional notation\<close>

text \<open>The value of a list of digits, least significant first.\<close>

fun dval :: "nat \<Rightarrow> nat list \<Rightarrow> nat" where
  "dval base [] = 0"
| "dval base (d # ds) = d + base * dval base ds"

definition digits_below :: "nat \<Rightarrow> nat list \<Rightarrow> bool" where
  "digits_below base ds \<longleftrightarrow> (\<forall>d \<in> set ds. d < base)"

lemma digits_below_simps [simp]:
  "digits_below base []" "digits_below base (d # ds) \<longleftrightarrow> d < base \<and> digits_below base ds"
  "digits_below base (ds @ es) \<longleftrightarrow> digits_below base ds \<and> digits_below base es"
  "digits_below base (rev ds) \<longleftrightarrow> digits_below base ds"
  by (auto simp: digits_below_def)

lemma dval_append: "dval base (ds @ es) = dval base ds + base ^ length ds * dval base es"
  by (induction ds) (simp_all add: algebra_simps)

lemma dval_zeros [simp]: "(\<forall>d \<in> set ds. d = 0) \<Longrightarrow> dval base ds = 0"
  by (induction ds) auto

lemma dval_replicate [simp]: "dval base (replicate n 0) = 0"
  by simp

lemma dval_less: "digits_below base ds \<Longrightarrow> dval base ds < base ^ length ds"
proof (induction ds)
  case (Cons d ds)
  then have "d + base * dval base ds < base * (dval base ds + 1)" by simp
  also have "\<dots> \<le> base * base ^ length ds" using Cons by (intro mult_le_mono2) simp
  finally show ?case by simp
qed simp

lemma dval_inject:
  assumes "digits_below base ds" "digits_below base es"
    and "length ds = length es" "dval base ds = dval base es"
  shows "ds = es"
  using assms(3,1,2,4)
proof (induction ds es rule: list_induct2)
  case (Cons d ds e es)
  then have eq: "d + base * dval base ds = e + base * dval base es" and "d < base" "e < base"
    by simp_all
  have "(d + base * dval base ds) mod base = d" "(e + base * dval base es) mod base = e"
    using \<open>d < base\<close> \<open>e < base\<close> by simp_all
  then have "d = e" unfolding eq by simp
  moreover from this eq \<open>d < base\<close> have "dval base ds = dval base es" by simp
  ultimately show ?case using Cons by simp
qed simp

text \<open>Digits without leading zeros (the most significant digit is the last here).\<close>

definition stripped :: "nat list \<Rightarrow> bool" where
  "stripped ds \<longleftrightarrow> ds = [] \<or> last ds \<noteq> 0"

lemma stripped_lower: "stripped ds \<Longrightarrow> ds \<noteq> [] \<Longrightarrow> base ^ (length ds - 1) \<le> dval base ds"
proof (induction ds)
  case (Cons d ds)
  show ?case
  proof (cases "ds = []")
    case False
    with Cons have "base ^ (length ds - 1) \<le> dval base ds" by (simp add: stripped_def)
    then have "base * base ^ (length ds - 1) \<le> base * dval base ds" by (rule mult_le_mono2)
    also have "\<dots> \<le> dval base (d # ds)" by simp
    finally show ?thesis using False by (simp flip: power_Suc)
  qed (use Cons in \<open>simp add: stripped_def\<close>)
qed simp

lemma stripped_length_le:
  assumes "digits_below base ds" "stripped es" "1 < base" "dval base ds = dval base es"
  shows "length es \<le> length ds"
proof (cases "es = []")
  case False
  have "base ^ (length es - 1) < base ^ length ds"
    using stripped_lower [OF assms(2) False, of base] dval_less [OF assms(1)] assms(4) by simp
  then have "length es - 1 < length ds" using assms(3) power_less_imp_less_exp by blast
  then show ?thesis by simp
qed simp

lemma stripped_unique:
  assumes "digits_below base ds" "digits_below base es" "stripped ds" "stripped es"
    and "1 < base" "dval base ds = dval base es"
  shows "ds = es"
  using dval_inject [OF assms(1,2) _ assms(6)]
    stripped_length_le [OF assms(1,4,5,6)] stripped_length_le [OF assms(2,3,5) assms(6) [symmetric]]
  by simp

lemma stripped_rev_dropWhile: "stripped (rev (dropWhile (\<lambda>d. d = 0) ds))"
  by (cases "dropWhile (\<lambda>d. d = 0) ds = []")
    (use hd_dropWhile [of "\<lambda>d. d = 0" ds] in \<open>auto simp: stripped_def last_rev simp del: dropWhile_eq_Nil_conv\<close>)

lemma dval_rev_dropWhile: "dval base (rev (dropWhile (\<lambda>d. d = 0) ds)) = dval base (rev ds)"
  by (induction ds) (simp_all add: dval_append)

section \<open>Correctness of the digit loop\<close>

text \<open>Positions from \<open>len\<close> on hold zeros: the invariant behind the early stop.\<close>

definition unused :: "nat \<Rightarrow> nat list \<Rightarrow> bool" where
  "unused len ds \<longleftrightarrow> (\<forall>d \<in> set (drop len ds). d = 0)"

lemma push_digit_correct:
  assumes "unused (len - i) ds" "digits_below base ds" "1 < base" "push_digit frm base carry i len ds = (ds', carry', i')"
  shows "dval base ds' + base ^ length ds * carry' = carry + frm * dval base ds
    \<and> length ds' = length ds \<and> digits_below base ds'
    \<and> i \<le> i' \<and> i' \<le> i + length ds \<and> unused (i' - i) ds'"
  using assms
proof (induction ds arbitrary: carry i ds' carry' i')
  case (Cons d ds)
  show ?case
  proof (cases "carry \<noteq> 0 \<or> i < len")
    case True
    let ?c = "carry + frm * d"
    obtain es k j where rec: "push_digit frm base (?c div base) (Suc i) len ds = (es, k, j)"
      by (cases "push_digit frm base (?c div base) (Suc i) len ds")
    have "unused (len - Suc i) ds"
      using Cons.prems(1) by (cases "len - i") (auto simp: unused_def diff_Suc)
    with Cons.IH [OF _ _ _ rec] Cons.prems(2,3) have IH:
      "dval base es + base ^ length ds * k = ?c div base + frm * dval base ds"
      "length es = length ds" "digits_below base es" "Suc i \<le> j" "j \<le> Suc i + length ds"
      "unused (j - Suc i) es" by auto
    have out: "ds' = ?c mod base # es" "carry' = k" "i' = j"
      using Cons.prems(4) True rec by (auto simp: Let_def)
    have "dval base ds' + base ^ length (d # ds) * carry'
        = ?c mod base + base * (dval base es + base ^ length ds * k)"
      using out by (simp add: algebra_simps)
    also have "\<dots> = ?c mod base + base * (?c div base) + base * (frm * dval base ds)"
      unfolding IH(1) by (simp add: algebra_simps)
    also have "?c mod base + base * (?c div base) = ?c" by simp
    finally have "dval base ds' + base ^ length (d # ds) * carry' = carry + frm * dval base (d # ds)"
      by (simp add: algebra_simps)
    moreover have "j - i = Suc (j - Suc i)" using IH(4) by simp
    then have "unused (i' - i) ds'" using IH(6) out by (simp add: unused_def)
    ultimately show ?thesis using IH out Cons.prems(3) by auto
  next
    case False
    with Cons.prems show ?thesis by (auto simp: unused_def)
  qed
qed (auto simp: unused_def)

lemma push_digit_no_carry:
  assumes "push_digit frm base carry i len ds = (ds', carry', i')"
    and "unused (len - i) ds" "digits_below base ds" "1 < base"
    and "carry + frm * dval base ds < base ^ length ds"
  shows "carry' = 0"
proof -
  have "base ^ length ds * carry' < base ^ length ds"
    using push_digit_correct [OF assms(2,3,4,1)] assms(5) by linarith
  then show ?thesis by simp
qed

text \<open>
  A conversion between two bases: the contract is that a vector of \<open>cap n\<close> digits holds every
  number of \<open>n\<close> input digits.
\<close>

locale radix_conversion =
  fixes frm base :: nat and cap :: "nat \<Rightarrow> nat"
  assumes bases: "1 < frm" "1 < base"
    and fits: "frm ^ n \<le> base ^ cap n"
begin

text \<open>The vector \<open>b\<close> with \<open>len\<close> digits in use holds \<open>v\<close>.\<close>

definition holds :: "nat list \<Rightarrow> nat \<Rightarrow> nat \<Rightarrow> bool" where
  "holds b len v \<longleftrightarrow> digits_below base b \<and> unused len (rev b) \<and> dval base (rev b) = v \<and> len \<le> length b"

lemma holds_start: "holds (replicate n 0) 0 0"
  using bases by (auto simp: holds_def unused_def digits_below_def)

lemma push_digits_one:
  assumes "holds b len v" "v * frm + c < base ^ length b"
  shows "\<exists>b' len'. push_digits frm base [c] (b, len) = Inr (b', len')
    \<and> holds b' len' (v * frm + c) \<and> length b' = length b"
proof -
  obtain ds k i where push: "push_digit frm base c 0 len (rev b) = (ds, k, i)"
    by (cases "push_digit frm base c 0 len (rev b)")
  have pre: "unused (len - 0) (rev b)" "digits_below base (rev b)" "1 < base"
    using assms(1) bases by (simp_all add: holds_def)
  have "k = 0"
    using push_digit_no_carry [OF push pre] assms by (simp add: holds_def algebra_simps)
  with push_digit_correct [OF pre push] assms(1) push show ?thesis
    by (auto simp: holds_def algebra_simps)
qed

lemma push_digits_append:
  "push_digits frm base (xs @ ys) st = rbind (push_digits frm base xs st) (push_digits frm base ys)"
  by (induction frm base xs st rule: push_digits.induct) (auto split: prod.split)

text \<open>The value of input digits, most significant first, on top of \<open>v\<close>.\<close>

definition input_val :: "nat \<Rightarrow> nat list \<Rightarrow> nat" where
  "input_val v cs = v * frm ^ length cs + dval frm (rev cs)"

lemma input_val_simps [simp]:
  "input_val v [] = v" "input_val v (c # cs) = input_val (v * frm + c) cs"
  by (simp_all add: input_val_def dval_append algebra_simps)

lemma input_val_ge: "v \<le> input_val v cs"
  using bases by (simp add: input_val_def trans_le_add1)

lemma push_digits_correct:
  assumes "holds b len v" "input_val v cs < base ^ length b"
  shows "\<exists>b' len'. push_digits frm base cs (b, len) = Inr (b', len')
    \<and> holds b' len' (input_val v cs) \<and> length b' = length b"
  using assms
proof (induction cs arbitrary: b len v)
  case (Cons c cs)
  have "v * frm + c < base ^ length b"
    using input_val_ge [of "v * frm + c" cs] Cons.prems(2) by simp
  from push_digits_one [OF Cons.prems(1) this] obtain b1 len1 where one:
    "push_digits frm base [c] (b, len) = Inr (b1, len1)" "holds b1 len1 (v * frm + c)"
    "length b1 = length b" by blast
  with Cons.IH [OF one(2)] Cons.prems(2) obtain b2 len2 where
    "push_digits frm base cs (b1, len1) = Inr (b2, len2)"
    "holds b2 len2 (input_val (v * frm + c) cs)" "length b2 = length b" by auto
  with one push_digits_append [of "[c]" cs "(b, len)"] show ?case by auto
qed auto

lemma input_val_bound: "digits_below frm cs \<Longrightarrow> length cs \<le> n \<Longrightarrow> input_val 0 cs < base ^ cap n"
proof -
  assume "digits_below frm cs" "length cs \<le> n"
  then have "dval frm (rev cs) < frm ^ length cs"
    using dval_less [of frm "rev cs"] by simp
  also have "\<dots> \<le> frm ^ n"
    using bases \<open>length cs \<le> n\<close> by (intro power_increasing) simp_all
  finally have "dval frm (rev cs) < frm ^ n" .
  with fits [of n] show ?thesis by (simp add: input_val_def)
qed

text \<open>What is read out of the vector: the digits of the number, without leading zeros.\<close>

definition read_out :: "nat list \<Rightarrow> nat \<Rightarrow> nat list" where
  "read_out b len = dropWhile (\<lambda>d. d = 0) (drop (length b - len) b)"

lemma length_read_out: "length (read_out b len) \<le> length b"
  unfolding read_out_def by (rule order_trans [OF length_dropWhile_le]) simp

lemma read_out_correct:
  assumes "holds b len v"
  shows "digits_below base (read_out b len)" "stripped (rev (read_out b len))"
    "dval base (rev (read_out b len)) = v"
proof -
  have "set (dropWhile (\<lambda>d. d = 0) (drop (length b - len) b)) \<subseteq> set b"
    by (meson order_trans set_drop_subset set_dropWhileD subsetI)
  then show "digits_below base (read_out b len)"
    using assms by (auto simp: read_out_def holds_def digits_below_def)
  show "stripped (rev (read_out b len))"
    by (simp add: read_out_def stripped_rev_dropWhile)
  have "rev b = rev (drop (length b - len) b) @ rev (take (length b - len) b)"
    by (metis append_take_drop_id rev_append)
  moreover have "rev (take (length b - len) b) = drop len (rev b)"
    using assms by (simp add: holds_def rev_take)
  ultimately have split: "rev b = rev (drop (length b - len) b) @ drop len (rev b)" by simp
  have "dval base (drop len (rev b)) = 0" using assms by (simp add: holds_def unused_def)
  with arg_cong [OF split, of "dval base"]
  have "dval base (rev b) = dval base (rev (drop (length b - len) b))" by (simp add: dval_append)
  then have "dval base (rev (drop (length b - len) b)) = v" using assms by (simp add: holds_def)
  then show "dval base (rev (read_out b len)) = v"
    by (simp only: read_out_def dval_rev_dropWhile)
qed

end

section \<open>The vector sizes suffice\<close>

text \<open>
  The code's ratio \<open>p'\<close>/\<open>q'\<close> is above a ratio \<open>p\<close>/\<open>q\<close> that is small enough to be
  checked by evaluation.
\<close>

lemma radix_fits:
  fixes frm base :: nat
  assumes "frm ^ q \<le> base ^ p" "0 < q" "1 < base" "p * q' \<le> p' * q" "0 < q'"
  shows "frm ^ n \<le> base ^ (n * p' div q' + 1)"
proof -
  define k where "k = n * p' div q' + 1"
  have "n * p' < k * q'"
    using assms(5) dividend_less_div_times [of q' "n * p'"] by (simp add: k_def algebra_simps)
  have "(n * p) * q' = n * (p * q')" by simp
  also have "\<dots> \<le> n * (p' * q)" using assms(4) by (rule mult_le_mono2)
  also have "\<dots> = (n * p') * q" by simp
  also have "\<dots> < (k * q') * q" using \<open>n * p' < k * q'\<close> assms(2) by (rule mult_strict_right_mono)
  also have "\<dots> = (k * q) * q'" by simp
  finally have "(n * p) * q' < (k * q) * q'" .
  then have le: "n * p \<le> k * q" by simp
  have "(frm ^ n) ^ q = (frm ^ q) ^ n" by (simp flip: power_mult add: mult.commute)
  also have "\<dots> \<le> (base ^ p) ^ n" using assms(1) by (rule power_mono) simp
  also have "\<dots> = base ^ (n * p)" by (simp flip: power_mult add: mult.commute)
  also have "\<dots> \<le> base ^ (k * q)" using le assms(3) by (intro power_increasing) simp_all
  also have "\<dots> = (base ^ k) ^ q" by (simp add: power_mult)
  finally have "(frm ^ n) ^ Suc (q - 1) \<le> (base ^ k) ^ Suc (q - 1)" using assms(2) by simp
  then show ?thesis unfolding k_def by (rule power_le_imp_le_base) simp
qed

interpretation enc58: radix_conversion 256 58 "\<lambda>n. n * 138 div 100 + 1"
proof unfold_locales
  show "256 ^ n \<le> (58 :: nat) ^ (n * 138 div 100 + 1)" for n
    by (rule radix_fits [where q = 8 and p = 11]) simp_all
qed simp_all

interpretation dec58: radix_conversion 58 256 "\<lambda>n. n * 733 div 1000 + 1"
proof unfold_locales
  show "58 ^ n \<le> (256 :: nat) ^ (n * 733 div 1000 + 1)" for n
    by (rule radix_fits [where q = 71 and p = 52]) simp_all
qed simp_all

section \<open>Properties of the codec\<close>

lemma narrow_int_small: "n < 2 ^ 31 \<Longrightarrow> narrow_int n = int n"
  by (simp add: narrow_int_def signed_of_nat signed_take_bit_int_eq_self)

lemma length_pszBase58: "length pszBase58 = 58"
  by (simp add: pszBase58_def)

lemma strchr58_nth: "d < 58 \<Longrightarrow> strchr58 (pszBase58 ! d) = Some d"
proof -
  have "\<forall>d \<in> set [0..<58]. strchr58 (pszBase58 ! d) = Some d"
    by code_simp
  then show "d < 58 \<Longrightarrow> ?thesis" by simp
qed

lemma alphabet_not_space: "c \<in> set pszBase58 \<Longrightarrow> \<not> isspace c \<and> c \<noteq> CHR 0x00"
proof -
  have "\<forall>c \<in> set pszBase58. \<not> isspace c \<and> c \<noteq> CHR 0x00"
    by (simp add: pszBase58_def isspace_def)
  then show "c \<in> set pszBase58 \<Longrightarrow> ?thesis" by blast
qed

lemma index_from_Some: "index_from i xs c = Some k \<Longrightarrow> i \<le> k \<and> k < i + length xs \<and> xs ! (k - i) = c"
proof (induction xs arbitrary: i)
  case (Cons x xs)
  show ?case
  proof (cases "x = c")
    case False
    with Cons.prems have "index_from (Suc i) xs c = Some k" by simp
    then have "Suc i \<le> k \<and> k < Suc i + length xs \<and> xs ! (k - Suc i) = c" by (rule Cons.IH)
    moreover from this have "k - i = Suc (k - Suc i)" by linarith
    ultimately show ?thesis by simp
  qed (use Cons in simp)
qed simp

lemma strchr58_Some: "strchr58 c = Some d \<Longrightarrow> d < 58 \<and> pszBase58 ! d = c"
  using index_from_Some [of 0 pszBase58 c d] by (simp add: strchr58_def length_pszBase58)

text \<open>The characters of a list of digits.\<close>

definition chars_of :: "nat list \<Rightarrow> string" where
  "chars_of ds = map (\<lambda>d. pszBase58 ! d) ds"

lemma chars_of_set: "digits_below 58 ds \<Longrightarrow> c \<in> set (chars_of ds) \<Longrightarrow> \<not> isspace c \<and> c \<noteq> CHR 0x00"
  by (auto simp: chars_of_def digits_below_def length_pszBase58 intro!: alphabet_not_space nth_mem)

lemma char_one_iff: "d < 58 \<Longrightarrow> pszBase58 ! d = CHR ''1'' \<longleftrightarrow> d = 0"
  using strchr58_nth [of d] strchr58_nth [of 0] by (auto simp: pszBase58_def)

lemma decode_chars_of:
  assumes "digits_below 58 ds" "tail = [] \<or> isspace (hd tail)"
  shows "decode_chars (chars_of ds @ tail) st
    = rbind (push_digits 58 256 ds st) (\<lambda>st. Inr (Some (tail, st)))"
  using assms
proof (induction ds arbitrary: st)
  case Nil
  then show ?case by (cases tail; cases st) (auto simp: chars_of_def)
next
  case (Cons d ds)
  then have "\<not> isspace (pszBase58 ! d)" "strchr58 (pszBase58 ! d) = Some d"
    by (auto simp: alphabet_not_space strchr58_nth length_pszBase58)
  moreover have "decode_chars (chars_of ds @ tail)
      = (\<lambda>st. rbind (push_digits 58 256 ds st) (\<lambda>st. Inr (Some (tail, st))))"
    using Cons by (intro ext) simp
  ultimately have "decode_chars (chars_of (d # ds) @ tail) st
      = rbind (push_digits 58 256 [d] st) (\<lambda>st. rbind (push_digits 58 256 ds st) (\<lambda>st. Inr (Some (tail, st))))"
    by (simp add: chars_of_def)
  also have "\<dots> = rbind (push_digits 58 256 (d # ds) st) (\<lambda>st. Inr (Some (tail, st)))"
    using dec58.push_digits_append [of "[d]" ds st] by (simp only: append_Cons append_Nil rbind_assoc)
  finally show ?case .
qed

lemma decode_chars_shape:
  "decode_chars cs st = Inr (Some (tail, st')) \<Longrightarrow>
     \<exists>ds. cs = chars_of ds @ tail \<and> digits_below 58 ds \<and> (tail = [] \<or> isspace (hd tail))"
proof (induction cs arbitrary: st)
  case (Cons c cs)
  show ?case
  proof (cases "isspace c")
    case True
    with Cons.prems show ?thesis by (intro exI [of _ "[]"]) (auto simp: chars_of_def)
  next
    case False
    with Cons.prems obtain d st1 where d: "strchr58 c = Some d"
      "decode_chars cs st1 = Inr (Some (tail, st'))"
      by (auto simp: rbind_eq_Inr split: option.splits)
    from Cons.IH [OF d(2)] obtain ds where
      "cs = chars_of ds @ tail" "digits_below 58 ds" "tail = [] \<or> isspace (hd tail)" by blast
    with strchr58_Some [OF d(1)] show ?thesis
      by (intro exI [of _ "d # ds"]) (auto simp: chars_of_def)
  qed
qed (auto simp: chars_of_def)

text \<open>
  The meaning of a base-58 string: leading ones stand for zero bytes, the rest is a number.
  \<open>represents cs bs\<close> relates the characters and the bytes that stand for the same number of
  zeros and the same number, both without superfluous leading zeros.
\<close>

definition represents :: "nat \<Rightarrow> nat list \<Rightarrow> nat list \<Rightarrow> bool" where
  "represents v ds bs \<longleftrightarrow> digits_below 58 ds \<and> stripped (rev ds) \<and> dval 58 (rev ds) = v
     \<and> digits_below 256 bs \<and> stripped (rev bs) \<and> dval 256 (rev bs) = v"

definition max_input :: nat where
  "max_input = 10 ^ 9"

lemma bytes_digits: "digits_below 256 (map unat (bs :: bytes))"
  by (auto simp: digits_below_def)

lemma stripped_dropWhile_bytes: "stripped (rev (map unat (dropWhile (\<lambda>b. b = 0) (bs :: bytes))))"
  by (cases "dropWhile (\<lambda>b. b = 0) bs = []")
    (use hd_dropWhile [of "\<lambda>b. b = 0" bs] in
      \<open>auto simp: stripped_def last_rev hd_map unat_eq_zero simp del: dropWhile_eq_Nil_conv\<close>)

lemma encode_split:
  assumes "length bs \<le> max_input"
  shows "\<exists>ds. base58_encode bs
      = Inr (replicate (length (takeWhile (\<lambda>b. b = 0) bs)) CHR ''1'' @ chars_of ds)
    \<and> represents (dval 58 (rev ds)) ds (map unat (dropWhile (\<lambda>b. b = 0) bs))
    \<and> length ds \<le> length (dropWhile (\<lambda>b. b = 0) bs) * 138 div 100 + 1"
proof -
  let ?rest = "map unat (dropWhile (\<lambda>b. b = 0) bs)"
  define sz where "sz = length (dropWhile (\<lambda>b. b = 0) bs) * 138 div 100 + 1"
  have "length (dropWhile (\<lambda>b. b = 0) bs) \<le> max_input"
    using assms length_dropWhile_le [of "\<lambda>b. b = 0" bs] by simp
  then have size: "narrow_int sz = int sz"
    by (subst narrow_int_small) (simp_all add: max_input_def sz_def)
  have bound: "enc58.input_val 0 ?rest < 58 ^ length (replicate sz (0 :: nat))"
    using enc58.input_val_bound [OF bytes_digits order_refl, of "dropWhile (\<lambda>b. b = 0) bs"]
    by (simp only: sz_def length_map length_replicate)
  from enc58.push_digits_correct [OF enc58.holds_start bound] obtain b len where b:
    "push_digits 256 58 ?rest (replicate sz 0, 0) = Inr (b, len)"
    "enc58.holds b len (enc58.input_val 0 ?rest)" "length b = sz" by auto
  let ?ds = "enc58.read_out b len"
  note out = enc58.read_out_correct [OF b(2)]
  have "base58_encode bs = Inr (replicate (length (takeWhile (\<lambda>b. b = 0) bs)) CHR ''1'' @ chars_of ?ds)"
    unfolding base58_encode_def Let_def sz_def [symmetric] size using b(1,3)
    by (simp add: enc58.read_out_def chars_of_def)
  moreover have "represents (dval 58 (rev ?ds)) ?ds ?rest"
    using out bytes_digits stripped_dropWhile_bytes [of bs]
    by (simp add: represents_def enc58.input_val_def)
  moreover have "length ?ds \<le> sz" using enc58.length_read_out [of b len] b(3) by simp
  ultimately show ?thesis unfolding sz_def by blast
qed

lemma dropWhile_replicate: "xs = [] \<or> hd xs \<noteq> a \<Longrightarrow> dropWhile (\<lambda>x. x = a) (replicate n a @ xs) = xs"
  by (induction n) (cases xs; auto)+

lemma takeWhile_replicate: "xs = [] \<or> hd xs \<noteq> a \<Longrightarrow> takeWhile (\<lambda>x. x = a) (replicate n a @ xs) = replicate n a"
  by (induction n) (cases xs; auto)+

lemma chars_of_first: "digits_below 58 ds \<Longrightarrow> stripped (rev ds) \<Longrightarrow> chars_of ds = [] \<or> hd (chars_of ds) \<noteq> CHR ''1''"
  by (cases ds) (auto simp: chars_of_def stripped_def char_one_iff)

lemma map_of_nat_first:
  "digits_below 256 bs \<Longrightarrow> stripped (rev bs) \<Longrightarrow>
     map of_nat bs = ([] :: bytes) \<or> hd (map of_nat bs :: bytes) \<noteq> 0"
proof (cases bs)
  case (Cons b bs')
  assume "digits_below 256 bs" "stripped (rev bs)"
  with Cons have "b < 256" "b \<noteq> 0" by (auto simp: stripped_def)
  then have "(of_nat b :: u8) \<noteq> 0"
    using unat_of_nat_byte [of b] by (metis mod_less unat_0)
  with Cons show ?thesis by simp
qed simp

lemma map_unat_of_nat: "digits_below 256 bs \<Longrightarrow> map unat (map of_nat bs :: bytes) = bs"
  by (induction bs) auto

lemma map_of_nat_unat: "map of_nat (map unat bs) = (bs :: bytes)"
  by (induction bs) auto

text \<open>Spaces around the characters of a string of digits with \<open>z\<close> leading ones.\<close>

definition base58_text :: "string \<Rightarrow> nat \<Rightarrow> nat list \<Rightarrow> string \<Rightarrow> string" where
  "base58_text before z ds after = before @ replicate z CHR ''1'' @ chars_of ds @ after"

lemma dropWhile_spaces: "list_all isspace xs \<Longrightarrow> dropWhile isspace (xs @ ys) = dropWhile isspace ys"
  by (induction xs) auto

lemma skip_before:
  assumes "list_all isspace before" "list_all isspace after" "digits_below 58 ds"
  shows "\<exists>after'. dropWhile isspace (base58_text before z ds after) = base58_text [] z ds after'
    \<and> list_all isspace after'"
proof (cases "z = 0 \<and> ds = []")
  case True
  with assms show ?thesis
    by (intro exI [of _ "[]"]) (simp add: base58_text_def chars_of_def dropWhile_spaces list_all_iff)
next
  case False
  let ?s = "base58_text [] z ds after"
  have "?s \<noteq> [] \<and> \<not> isspace (hd ?s)"
    using False chars_of_set [OF assms(3), of "hd (chars_of ds)"]
    by (cases z; cases ds) (auto simp: base58_text_def chars_of_def isspace_def)
  then have "dropWhile isspace ?s = ?s" by (cases ?s) auto
  with assms show ?thesis
    by (intro exI [of _ after]) (simp add: base58_text_def dropWhile_spaces)
qed

lemma decode_text:
  assumes "list_all isspace before" "list_all isspace after" "digits_below 58 ds" "stripped (rev ds)"
    and "length (base58_text before z ds after) \<le> max_input"
  shows "\<exists>bs. base58_decode_psz (base58_text before z ds after) vch
      = Inr (True, replicate z 0 @ map of_nat bs)
    \<and> represents (dval 58 (rev ds)) ds bs"
proof -
  obtain aft where aft: "dropWhile isspace (base58_text before z ds after) = base58_text [] z ds aft"
    "list_all isspace aft" using skip_before [OF assms(1-3)] by blast
  let ?s2 = "chars_of ds @ aft"
  have nx: "aft = [] \<or> isspace (hd aft)" "aft = [] \<or> hd aft \<noteq> CHR ''1''"
    using aft(2) by (cases aft; auto simp: isspace_def)+
  then have first: "?s2 = [] \<or> hd ?s2 \<noteq> CHR ''1''"
    using chars_of_first [OF assms(3,4)] by (cases "chars_of ds") auto
  define sz where "sz = length ?s2 * 733 div 1000 + 1"
  have "length (base58_text [] z ds aft) \<le> length (base58_text before z ds after)"
    unfolding aft(1) [symmetric] by (rule length_dropWhile_le)
  with assms(5) have "length ?s2 \<le> max_input" by (simp add: base58_text_def)
  then have size: "narrow_int sz = int sz"
    by (subst narrow_int_small) (simp_all add: max_input_def sz_def)
  have "length ds \<le> length ?s2" by (simp add: chars_of_def)
  then have bound: "dec58.input_val 0 ds < 256 ^ length (replicate sz (0 :: nat))"
    using dec58.input_val_bound [OF assms(3), of "length ?s2"] by (simp only: sz_def length_replicate)
  from dec58.push_digits_correct [OF dec58.holds_start bound] obtain b len where b:
    "push_digits 58 256 ds (replicate sz 0, 0) = Inr (b, len)"
    "dec58.holds b len (dec58.input_val 0 ds)" "length b = sz" by auto
  let ?bs = "dec58.read_out b len"
  have "decode_chars ?s2 (replicate sz 0, 0) = Inr (Some (aft, b, len))"
    using decode_chars_of [OF assms(3) nx(1)] b(1) by simp
  moreover have "dropWhile isspace aft = []" using aft(2) by (simp add: list_all_iff)
  ultimately have "base58_decode_psz (base58_text before z ds after) vch
      = Inr (True, replicate z 0 @ map of_nat ?bs)"
    unfolding base58_decode_psz_def Let_def aft(1)
    unfolding base58_text_def append_Nil
      dropWhile_replicate [OF first] takeWhile_replicate [OF first] sz_def [symmetric] size
    using b(3) by (simp add: dec58.read_out_def)
  moreover have "represents (dval 58 (rev ds)) ds ?bs"
    using dec58.read_out_correct [OF b(2)] assms(3,4)
    by (simp add: represents_def dec58.input_val_def)
  ultimately show ?thesis by blast
qed

lemma c_str_text:
  assumes "digits_below 58 ds"
  shows "takeWhile (\<lambda>c. c \<noteq> CHR 0x00) (replicate z CHR ''1'' @ chars_of ds)
    = replicate z CHR ''1'' @ chars_of ds"
  using chars_of_set [OF assms] by (subst takeWhile_eq_all_conv) auto

lemma represents_unique: "represents v ds bs \<Longrightarrow> represents v ds bs' \<Longrightarrow> bs = bs'"
  using stripped_unique [of 256 "rev bs" "rev bs'"] by (simp add: represents_def)

lemma represents_unique_digits: "represents v ds bs \<Longrightarrow> represents v ds' bs \<Longrightarrow> ds = ds'"
  using stripped_unique [of 58 "rev ds" "rev ds'"] by (simp add: represents_def)

lemma leading_zeros: "replicate (length (takeWhile (\<lambda>b. b = a) bs)) a @ dropWhile (\<lambda>b. b = a) bs = bs"
  by (induction bs) auto

definition max_encode :: nat where
  "max_encode = 4 * 10 ^ 8"

lemma roundtrip_small:
  assumes "length bs \<le> max_encode"
  shows "rbind (base58_encode bs) (\<lambda>s. base58_decode s vch) = Inr (True, bs)"
proof -
  let ?z = "length (takeWhile (\<lambda>b. b = 0) bs)" and ?rest = "dropWhile (\<lambda>b. b = 0) bs"
  from encode_split [of bs] assms obtain ds where ds:
    "base58_encode bs = Inr (replicate ?z CHR ''1'' @ chars_of ds)"
    "represents (dval 58 (rev ds)) ds (map unat ?rest)" "length ds \<le> length ?rest * 138 div 100 + 1"
    by (auto simp: max_input_def max_encode_def)
  have len: "?z + length ?rest = length bs"
    using leading_zeros [of 0 bs] by (metis length_append length_replicate)
  have small: "n * 138 div 100 + 1 \<le> 2 * n + 1" for n :: nat by linarith
  have below: "digits_below 58 ds" "stripped (rev ds)" using ds(2) by (auto simp: represents_def)
  have "length (base58_text [] ?z ds []) \<le> max_input"
    using ds(3) len assms small [of "length ?rest"]
    by (simp add: base58_text_def chars_of_def max_input_def max_encode_def)
  from decode_text [OF _ _ below this] obtain ys where ys:
    "base58_decode_psz (base58_text [] ?z ds []) vch = Inr (True, replicate ?z 0 @ map of_nat ys)"
    "represents (dval 58 (rev ds)) ds ys" by auto
  have "ys = map unat ?rest" by (rule represents_unique [OF ys(2) ds(2)])
  then have "replicate ?z 0 @ map of_nat ys = bs"
    by (simp only: map_of_nat_unat leading_zeros)
  moreover have "base58_decode (replicate ?z CHR ''1'' @ chars_of ds) vch
      = Inr (True, replicate ?z 0 @ map of_nat ys)"
    unfolding base58_decode_def c_str_text [OF below(1)]
    using ys(1) by (simp only: base58_text_def append_Nil append_Nil2)
  ultimately show ?thesis by (simp only: ds(1) rbind_Inr)
qed

text \<open>
  C8: decoding the encoding of any byte string (of up to 400 million bytes) succeeds and gives
  the byte string back, leading zeros included; neither direction fails its assertion that no
  carry is left, so the vector sizes computed with 138/100 and 733/1000 are always enough.
\<close>

theorem base58_roundtrip:
  assumes "length bs \<le> max_encode"
  shows "rbind (base58_encode bs) (\<lambda>s. base58_decode s vch) = Inr (True, bs)"
  using assms by (rule roundtrip_small)

theorem base58_roundtrip_witness:
  "rbind (base58_encode [0, 0, 255, 7]) (\<lambda>s. base58_decode s [9]) = Inr (True, [0, 0, 255, 7])"
  by (rule base58_roundtrip) (simp add: max_encode_def)

text \<open>The part of a C string that \<open>base58_decode\<close> looks at: without the spaces around it.\<close>

definition trimmed :: "string \<Rightarrow> string" where
  "trimmed s = takeWhile (\<lambda>c. \<not> isspace c) (dropWhile isspace (takeWhile (\<lambda>c. c \<noteq> CHR 0x00) s))"

definition trailing :: "string \<Rightarrow> string" where
  "trailing s = dropWhile (\<lambda>c. \<not> isspace c) (dropWhile isspace (takeWhile (\<lambda>c. c \<noteq> CHR 0x00) s))"

definition valid58 :: "string \<Rightarrow> bool" where
  "valid58 s \<longleftrightarrow> set (trimmed s) \<subseteq> set pszBase58 \<and> list_all isspace (trailing s)"

lemma chars_exist: "set cs \<subseteq> set pszBase58 \<Longrightarrow> \<exists>ds. cs = chars_of ds \<and> digits_below 58 ds"
proof (induction cs)
  case (Cons c cs)
  then obtain ds d where "cs = chars_of ds" "digits_below 58 ds" "c = pszBase58 ! d" "d < 58"
    by (auto simp: in_set_conv_nth length_pszBase58)
  then show ?case by (intro exI [of _ "d # ds"]) (simp add: chars_of_def)
qed (simp add: chars_of_def)

lemma valid58_text:
  assumes "valid58 s"
  shows "\<exists>before z ds after. takeWhile (\<lambda>c. c \<noteq> CHR 0x00) s = base58_text before z ds after
    \<and> list_all isspace before \<and> list_all isspace after \<and> digits_below 58 ds \<and> stripped (rev ds)
    \<and> trimmed s = replicate z CHR ''1'' @ chars_of ds"
proof -
  let ?c = "takeWhile (\<lambda>c. c \<noteq> CHR 0x00) s"
  let ?z = "length (takeWhile (\<lambda>c. c = CHR ''1'') (trimmed s))"
  have "set (dropWhile (\<lambda>c. c = CHR ''1'') (trimmed s)) \<subseteq> set pszBase58"
    using assms set_dropWhileD by (fastforce simp: valid58_def)
  from chars_exist [OF this] obtain ds where ds:
    "dropWhile (\<lambda>c. c = CHR ''1'') (trimmed s) = chars_of ds" "digits_below 58 ds" by blast
  have "stripped (rev ds)"
  proof (cases ds)
    case (Cons d ds')
    with ds hd_dropWhile [of "\<lambda>c. c = CHR ''1''" "trimmed s"] char_one_iff [of d]
    show ?thesis by (auto simp: stripped_def chars_of_def)
  qed (simp add: stripped_def)
  moreover have trim: "trimmed s = replicate ?z CHR ''1'' @ chars_of ds"
    using leading_zeros [of "CHR ''1''" "trimmed s"] ds(1) by simp
  moreover have "?c = takeWhile isspace ?c @ trimmed s @ trailing s"
    by (simp add: trimmed_def trailing_def)
  then have "?c = base58_text (takeWhile isspace ?c) ?z ds (trailing s)"
    unfolding base58_text_def using trim by (metis append_assoc)
  moreover have "list_all isspace (takeWhile isspace ?c)" "list_all isspace (trailing s)"
    using assms set_takeWhileD by (fastforce simp: list_all_iff valid58_def)+
  ultimately show ?thesis using ds(2) by blast
qed

lemma dec58_push_char:
  assumes "dec58.holds b len v" "(v + 1) * 58 ^ length (c # cs) \<le> 256 ^ length b" "d < 58"
  shows "\<exists>b' len'. push_digits 58 256 [d] (b, len) = Inr (b', len')
    \<and> dec58.holds b' len' (v * 58 + d) \<and> (v * 58 + d + 1) * 58 ^ length cs \<le> 256 ^ length b'"
proof -
  have "(v * 58 + d + 1) * 58 ^ length cs \<le> ((v + 1) * 58) * 58 ^ length cs"
    using assms(3) by (intro mult_le_mono1) simp
  also have "\<dots> = (v + 1) * 58 ^ length (c # cs)" by (simp add: algebra_simps)
  also note assms(2)
  finally have le: "(v * 58 + d + 1) * 58 ^ length cs \<le> 256 ^ length b" .
  have "v * 58 + d < (v * 58 + d + 1) * 58 ^ length cs"
    using mult_le_mono2 [of 1 "58 ^ length cs" "v * 58 + d + 1"] by simp
  with le have "v * 58 + d < 256 ^ length b" by linarith
  from dec58.push_digits_one [OF assms(1) this] le show ?thesis by auto
qed

lemma decode_chars_total:
  assumes "dec58.holds b len v" "(v + 1) * 58 ^ length cs \<le> 256 ^ length b"
  shows "\<exists>r. decode_chars cs (b, len) = Inr r
    \<and> (r = None \<longleftrightarrow> \<not> set (takeWhile (\<lambda>c. \<not> isspace c) cs) \<subseteq> set pszBase58)
    \<and> (\<forall>tail st. r = Some (tail, st) \<longrightarrow> tail = dropWhile (\<lambda>c. \<not> isspace c) cs)"
  using assms
proof (induction cs arbitrary: b len v)
  case (Cons c cs)
  consider "isspace c" | "\<not> isspace c" "strchr58 c = None" | d where "\<not> isspace c" "strchr58 c = Some d"
    by (cases "strchr58 c") auto
  then show ?case
  proof cases
    case 2
    have "c \<notin> set pszBase58"
    proof
      assume "c \<in> set pszBase58"
      then obtain d where "d < 58" "c = pszBase58 ! d" by (auto simp: in_set_conv_nth length_pszBase58)
      with 2(2) strchr58_nth [of d] show False by simp
    qed
    with 2 show ?thesis by simp
  next
    case 3
    from strchr58_Some [OF 3(2)] have d: "d < 58" "c \<in> set pszBase58"
      using nth_mem [of d pszBase58] by (auto simp: length_pszBase58)
    from dec58_push_char [OF Cons.prems d(1)] obtain b1 len1 where
      "push_digits 58 256 [d] (b, len) = Inr (b1, len1)" "dec58.holds b1 len1 (v * 58 + d)"
      "(v * 58 + d + 1) * 58 ^ length cs \<le> 256 ^ length b1" by blast
    with Cons.IH [of b1 len1 "v * 58 + d"] 3 d(2) show ?thesis by auto
  qed simp
qed simp

lemma takeWhile_ones:
  "takeWhile (\<lambda>c. \<not> isspace c) xs = takeWhile (\<lambda>c. c = CHR ''1'') xs
     @ takeWhile (\<lambda>c. \<not> isspace c) (dropWhile (\<lambda>c. c = CHR ''1'') xs)"
  by (induction xs) (auto simp: isspace_def)

lemma ones_in_alphabet: "set (takeWhile (\<lambda>c. c = CHR ''1'') xs) \<subseteq> set pszBase58"
  using set_takeWhileD [of _ "\<lambda>c. c = CHR ''1''" xs] by (auto simp: pszBase58_def)

lemma dropWhile_ones:
  "dropWhile (\<lambda>c. \<not> isspace c) (dropWhile (\<lambda>c. c = CHR ''1'') xs) = dropWhile (\<lambda>c. \<not> isspace c) xs"
  by (induction xs) (auto simp: isspace_def)



end
