(* ===== verification/ChainData.thy ===== *)
theory ChainData
  imports Prelude
begin

text \<open>
  The data of the chain (\<open>iotchain/include/ChainTypes.h\<close>, \<open>CryptoTypes.h\<close>) and its hashes
  (\<open>iotchain/src/ChainTypes.cpp\<close>, \<open>CryptoTypes.cpp\<close>). The digest functions of the vendored
  Crypto++ are the parameters \<open>sha\<close> (SHA-256) and \<open>rmd\<close> (RIPEMD-160) on byte strings; an
  incremental \<open>SHA256\<close> object is the byte string it has been fed. A fixed-size \<open>std::array\<close>
  is a byte list whose length the well-formedness predicates state.
\<close>

section \<open>Digests and checksums (CryptoTypes)\<close>

type_synonym digest = "bytes \<Rightarrow> bytes"

definition hash160 :: "digest \<Rightarrow> digest \<Rightarrow> bytes \<Rightarrow> u8 \<Rightarrow> bytes" where
  "hash160 sha rmd ptr c =
     (let sha256 = [];
          sha256 = sha256 @ [c];
          sha256 = sha256 @ ptr;
          sha_digest = sha sha256
      in rmd sha_digest)"

definition hash160_vec :: "digest \<Rightarrow> digest \<Rightarrow> bytes \<Rightarrow> u8 \<Rightarrow> bytes" where
  "hash160_vec sha rmd vec c = hash160 sha rmd vec c"

definition calculate_checksum :: "digest \<Rightarrow> bytes \<Rightarrow> u8 \<Rightarrow> u32" where
  "calculate_checksum sha ptr n =
     (let sha_digest = sha ([n] @ ptr);
          sha_digest = sha sha_digest
      in word_of_mem (take 4 sha_digest))"

definition checksum_of_hash160 :: "digest \<Rightarrow> bytes \<Rightarrow> u8 \<Rightarrow> u32" where
  "checksum_of_hash160 sha hash n = calculate_checksum sha hash n"

definition checksum_of_key :: "digest \<Rightarrow> digest \<Rightarrow> bytes \<Rightarrow> u8 \<Rightarrow> u8 \<Rightarrow> u32" where
  "checksum_of_key sha rmd ptr c n = checksum_of_hash160 sha (hash160 sha rmd ptr c) n"

definition checksum_of_vec :: "digest \<Rightarrow> digest \<Rightarrow> bytes \<Rightarrow> u8 \<Rightarrow> u8 \<Rightarrow> u32" where
  "checksum_of_vec sha rmd vec c n = checksum_of_hash160 sha (hash160_vec sha rmd vec c) n"

section \<open>Transactions and blocks (ChainTypes)\<close>

text \<open>\<open>KeyType\<close> has the underlying type \<open>uint8_t\<close>, so a cast from any byte is a value of it.\<close>

type_synonym KeyType = u8

definition account_public_key :: KeyType where "account_public_key = 0"
definition smart_contract_public_key :: KeyType where "smart_contract_public_key = 87"
definition account_private_key :: KeyType where "account_private_key = 128"
definition smart_contract_private_key :: KeyType where "smart_contract_private_key = 28"

lemmas key_types = account_public_key_def smart_contract_public_key_def
  account_private_key_def smart_contract_private_key_def

definition MAIN_NETWORK_ID :: u8 where
  "MAIN_NETWORK_ID = 4"

record TXInput =
  in_amount :: u64
  in_data :: bytes

record TXOutput =
  out_amount :: u64
  out_to :: bytes

record TXPrefix =
  tx_time :: u64
  tx_inputs :: "TXInput list"
  tx_outputs :: "TXOutput list"
  tx_extra :: bytes

record TX = TXPrefix +
  tx_from :: bytes
  tx_signature :: bytes

record BlockHeader =
  nonce :: u32
  timestamp :: u64
  prev_block_hash :: bytes

record Block = BlockHeader +
  coinbase :: TX
  tx_list :: "TX list"

definition wf_output :: "TXOutput \<Rightarrow> bool" where
  "wf_output out \<longleftrightarrow> length (out_to out) = 25"

definition wf_TX :: "TX \<Rightarrow> bool" where
  "wf_TX tx \<longleftrightarrow> list_all wf_output (tx_outputs tx) \<and> length (tx_from tx) = 25 \<and> length (tx_signature tx) = 65"

definition wf_Block :: "Block \<Rightarrow> bool" where
  "wf_Block bl \<longleftrightarrow> length (prev_block_hash bl) = 32 \<and> wf_TX (coinbase bl) \<and> list_all wf_TX (tx_list bl)"

section \<open>Hashing\<close>

text \<open>
  \<open>TXHash(tx, sha256)\<close> feeds a transaction to a running digest, here the byte string
  \<open>sha256\<close>; \<open>TXHash(tx)\<close> feeds it to a fresh one and finishes it.
\<close>

definition update_input :: "bytes \<Rightarrow> TXInput \<Rightarrow> bytes" where
  "update_input sha256 input = (sha256 @ mem_of_word (in_amount input)) @ in_data input"

definition update_output :: "bytes \<Rightarrow> TXOutput \<Rightarrow> bytes" where
  "update_output sha256 out = (sha256 @ mem_of_word (out_amount out)) @ out_to out"

definition TXHash_update :: "TX \<Rightarrow> bytes \<Rightarrow> bytes" where
  "TXHash_update tx sha256 =
     (let sha256 = sha256 @ mem_of_word (tx_time tx);
          sha256 = foldl update_input sha256 (tx_inputs tx);
          sha256 = foldl update_output sha256 (tx_outputs tx);
          sha256 = sha256 @ tx_extra tx;
          sha256 = sha256 @ tx_from tx
      in sha256 @ tx_signature tx)"

definition TXHash :: "digest \<Rightarrow> TX \<Rightarrow> bytes" where
  "TXHash sha tx =
     (let sha256 = [] @ mem_of_word (tx_time tx);
          sha256 = foldl update_input sha256 (tx_inputs tx);
          sha256 = foldl update_output sha256 (tx_outputs tx);
          sha256 = sha256 @ tx_extra tx;
          sha256 = sha256 @ tx_from tx;
          sha256 = sha256 @ tx_signature tx
      in sha sha256)"

text \<open>
  A block's digest starts with the object representation of its \<open>BlockHeader\<close>: 48 bytes, of
  which the four between \<open>nonce_\<close> and \<open>timestamp_\<close> are padding with no determined value,
  the parameter \<open>pad\<close>.
\<close>

definition header_image :: "bytes \<Rightarrow> 'a BlockHeader_scheme \<Rightarrow> bytes" where
  "header_image pad bl = mem_of_word (nonce bl) @ pad @ mem_of_word (timestamp bl) @ prev_block_hash bl"

definition BlockHash :: "digest \<Rightarrow> bytes \<Rightarrow> Block \<Rightarrow> bytes" where
  "BlockHash sha pad bl =
     (let sha256 = [] @ header_image pad bl;
          sha256 = TXHash_update (coinbase bl) sha256;
          sha256 = foldl (\<lambda>sha256 tx. TXHash_update tx sha256) sha256 (tx_list bl)
      in sha sha256)"

section \<open>What is hashed\<close>

definition input_bytes :: "TXInput \<Rightarrow> bytes" where
  "input_bytes i = mem_of_word (in_amount i) @ in_data i"

definition output_bytes :: "TXOutput \<Rightarrow> bytes" where
  "output_bytes out = mem_of_word (out_amount out) @ out_to out"

definition tx_image :: "TX \<Rightarrow> bytes" where
  "tx_image tx = mem_of_word (tx_time tx) @ concat (map input_bytes (tx_inputs tx))
     @ concat (map output_bytes (tx_outputs tx)) @ tx_extra tx @ tx_from tx @ tx_signature tx"

lemma foldl_update_input: "foldl update_input acc ins = acc @ concat (map input_bytes ins)"
  by (induction ins arbitrary: acc) (simp_all add: update_input_def input_bytes_def)

lemma foldl_update_output: "foldl update_output acc outs = acc @ concat (map output_bytes outs)"
  by (induction outs arbitrary: acc) (simp_all add: update_output_def output_bytes_def)

lemma TXHash_update_image: "TXHash_update tx acc = acc @ tx_image tx"
  by (simp add: TXHash_update_def tx_image_def Let_def foldl_update_input foldl_update_output)

lemma TXHash_image: "TXHash sha tx = sha (tx_image tx)"
  by (simp add: TXHash_def tx_image_def Let_def foldl_update_input foldl_update_output)

lemma foldl_TXHash_update:
  "foldl (\<lambda>acc tx. acc @ tx_image tx) acc txs = acc @ concat (map tx_image txs)"
  by (induction txs arbitrary: acc) simp_all

lemma BlockHash_image:
  "BlockHash sha pad bl = sha (header_image pad bl @ tx_image (coinbase bl) @ concat (map tx_image (tx_list bl)))"
  by (simp add: BlockHash_def Let_def TXHash_update_image foldl_TXHash_update)

section \<open>Properties of the hashes\<close>

text \<open>Transactions whose hashed bytes have the same layout.\<close>

definition same_shape :: "TX \<Rightarrow> TX \<Rightarrow> bool" where
  "same_shape s t \<longleftrightarrow> map (length \<circ> in_data) (tx_inputs s) = map (length \<circ> in_data) (tx_inputs t)
     \<and> length (tx_outputs s) = length (tx_outputs t) \<and> length (tx_extra s) = length (tx_extra t)"

lemma input_bytes_inject:
  "length (in_data i) = length (in_data j) \<Longrightarrow> input_bytes i @ xs = input_bytes j @ ys \<longleftrightarrow> i = j \<and> xs = ys"
  by (cases i; cases j) (auto simp: input_bytes_def)

lemma output_bytes_inject:
  "wf_output i \<Longrightarrow> wf_output j \<Longrightarrow> output_bytes i @ xs = output_bytes j @ ys \<longleftrightarrow> i = j \<and> xs = ys"
  by (cases i; cases j) (auto simp: output_bytes_def wf_output_def)

lemma inputs_inject:
  "map (length \<circ> in_data) is = map (length \<circ> in_data) js \<Longrightarrow>
   concat (map input_bytes is) @ xs = concat (map input_bytes js) @ ys \<longleftrightarrow> is = js \<and> xs = ys"
proof (induction "is" arbitrary: js)
  case (Cons i "is")
  then obtain j js' where "js = j # js'" by (cases js) auto
  with Cons show ?case by (auto simp: input_bytes_inject)
qed simp

lemma outputs_inject:
  "list_all wf_output is \<Longrightarrow> list_all wf_output js \<Longrightarrow> length is = length js \<Longrightarrow>
   concat (map output_bytes is) @ xs = concat (map output_bytes js) @ ys \<longleftrightarrow> is = js \<and> xs = ys"
proof (induction "is" arbitrary: js)
  case (Cons i "is")
  then obtain j js' where "js = j # js'" by (cases js) auto
  with Cons show ?case by (auto simp: output_bytes_inject)
qed simp

lemma tx_image_inject:
  assumes "wf_TX s" "wf_TX t" "same_shape s t" "tx_image s = tx_image t"
  shows "s = t"
proof -
  let ?tail = "\<lambda>t. tx_extra t @ tx_from t @ tx_signature t"
  have "tx_time s = tx_time t"
    and "concat (map input_bytes (tx_inputs s)) @ concat (map output_bytes (tx_outputs s)) @ ?tail s
       = concat (map input_bytes (tx_inputs t)) @ concat (map output_bytes (tx_outputs t)) @ ?tail t"
    using assms(4) by (simp_all add: tx_image_def)
  moreover from this assms(1-3) have "tx_inputs s = tx_inputs t"
    "concat (map output_bytes (tx_outputs s)) @ ?tail s = concat (map output_bytes (tx_outputs t)) @ ?tail t"
    by (simp_all add: same_shape_def inputs_inject)
  moreover have "tx_outputs s = tx_outputs t \<and> ?tail s = ?tail t"
    using calculation(4) assms(1-3)
    by (intro outputs_inject [THEN iffD1]) (simp_all add: same_shape_def wf_TX_def)
  ultimately show ?thesis
    using assms(1-3) by (intro TX.equality) (auto simp: same_shape_def wf_TX_def)
qed

text \<open>
  C10: The transaction hash covers every field: if two transactions have the same numbers of
  inputs and outputs, data fields of the same lengths and the same hash, then they are the same
  transaction or an explicit collision of the digest. In particular the signature is part of
  what is hashed.
\<close>

theorem tx_hash_covers_fields:
  assumes "wf_TX s" "wf_TX t" "same_shape s t" "TXHash sha s = TXHash sha t"
  shows "s = t \<or> (tx_image s \<noteq> tx_image t \<and> sha (tx_image s) = sha (tx_image t))"
  using tx_image_inject [OF assms(1-3)] assms(4) by (auto simp: TXHash_image)

definition sample_tx :: "u8 \<Rightarrow> TX" where
  "sample_tx b = \<lparr>tx_time = 1, tx_inputs = [\<lparr>in_amount = 5, in_data = [1, 2]\<rparr>],
     tx_outputs = [\<lparr>out_amount = 5, out_to = replicate 25 0\<rparr>], tx_extra = [],
     tx_from = replicate 25 0, tx_signature = replicate 65 b\<rparr>"

theorem tx_hash_covers_fields_witness:
  "TXHash (\<lambda>bs. bs) (sample_tx 1) \<noteq> TXHash (\<lambda>bs. bs) (sample_tx 2)"
proof
  assume eq: "TXHash (\<lambda>bs. bs) (sample_tx 1) = TXHash (\<lambda>bs. bs) (sample_tx 2)"
  have "wf_TX (sample_tx b)" for b
    by (simp add: sample_tx_def wf_TX_def wf_output_def)
  from tx_hash_covers_fields [OF this this _ eq] have "sample_tx 1 = sample_tx 2"
    by (simp add: sample_tx_def same_shape_def)
  then show False by (simp add: sample_tx_def numeral_eq_Suc)
qed

text \<open>
  Without lengths in the hashed bytes the hash does not fix the number of inputs nor the
  amounts. Whatever the digest function is, a transaction whose last two inputs are merged into
  one, the amount of the second becoming data of the first, has the same hash; and so has one
  where bytes move between the last input's data and the extra field when there are no outputs.
\<close>

theorem tx_hash_merges_inputs:
  fixes tx :: TX
  shows "TXHash sha (tx\<lparr>tx_inputs := is @ [\<lparr>in_amount = a, in_data = d\<rparr>, \<lparr>in_amount = b, in_data = e\<rparr>]\<rparr>)
       = TXHash sha (tx\<lparr>tx_inputs := is @ [\<lparr>in_amount = a, in_data = d @ mem_of_word b @ e\<rparr>]\<rparr>)
    \<and> TXHash sha (tx\<lparr>tx_inputs := is @ [\<lparr>in_amount = a, in_data = d @ x\<rparr>], tx_outputs := [], tx_extra := y\<rparr>)
       = TXHash sha (tx\<lparr>tx_inputs := is @ [\<lparr>in_amount = a, in_data = d\<rparr>], tx_outputs := [], tx_extra := x @ y\<rparr>)"
  by (simp add: TXHash_image tx_image_def input_bytes_def)

text \<open>
  The block hash is computed over indeterminate padding bytes: for two different contents of
  the four padding bytes the same block gives different digest inputs, so its hash changes unless
  the two inputs are a collision.
\<close>

theorem block_hash_depends_on_padding:
  assumes "length pad = 4" "length pad' = 4" "pad \<noteq> pad'"
  shows "\<exists>image image'. BlockHash sha pad bl = sha image \<and> BlockHash sha pad' bl = sha image' \<and> image \<noteq> image'"
proof -
  have "header_image pad bl @ rest \<noteq> header_image pad' bl @ rest" for rest
    using assms by (simp add: header_image_def)
  then show ?thesis unfolding BlockHash_image by blast
qed

theorem block_hash_depends_on_padding_witness:
  "\<exists>image image'. BlockHash (\<lambda>bs. bs) [0, 0, 0, 0] (BlockHeader.extend
       \<lparr>nonce = 0, timestamp = 0, prev_block_hash = replicate 32 0\<rparr> \<lparr>coinbase = sample_tx 0, tx_list = []\<rparr>) = image
     \<and> BlockHash (\<lambda>bs. bs) [0, 0, 0, 1] (BlockHeader.extend
       \<lparr>nonce = 0, timestamp = 0, prev_block_hash = replicate 32 0\<rparr> \<lparr>coinbase = sample_tx 0, tx_list = []\<rparr>) = image'
     \<and> image \<noteq> image'"
  using block_hash_depends_on_padding [of "[0, 0, 0, 0]" "[0, 0, 0, 1]" "\<lambda>bs. bs"
      "BlockHeader.extend \<lparr>nonce = 0, timestamp = 0, prev_block_hash = replicate 32 0\<rparr>
         \<lparr>coinbase = sample_tx 0, tx_list = []\<rparr>"]
  by simp

end
