(* ===== verification/Keys.thy ===== *)
theory Keys
  imports Base58 ChainData
begin

text \<open>
  Keys (\<open>iotchain/src/Key/private_key.cpp\<close>, \<open>public_key.cpp\<close> and the constructor of
  \<open>KeyPair\<close> in \<open>ChainTypes.cpp\<close>). The functions of libsecp256k1, a submodule that is not
  in the tree, are parameters: \<open>pubkey_create\<close>, \<open>sign_recoverable\<close> (with
  \<open>serialize_compact\<close>) and \<open>recover\<close> (with \<open>parse_compact\<close>). The members of a key object
  that the code leaves uninitialised are parameters \<open>mem\<close>.
\<close>

section \<open>The contexts of libsecp256k1\<close>

record secp_contexts =
  sign_context :: bool
  verify_refs :: u32
  verify_context :: bool

definition secp_initial :: secp_contexts where
  "secp_initial = \<lparr>sign_context = False, verify_refs = 0, verify_context = False\<rparr>"

definition secp256k1_sign_start :: "bool \<Rightarrow> bool \<Rightarrow> secp_contexts \<Rightarrow> secp_contexts res" where
  "secp256k1_sign_start created randomized s =
     (if sign_context s then Inl (Assertion ''g_secp256k1_sign_context == nullptr'')
      else if \<not> created then Inl (Assertion ''ctx != nullptr'')
      else if \<not> randomized then Inl (Assertion ''secp256k1_context_randomize(ctx, seed.data())'')
      else Inr (s\<lparr>sign_context := True\<rparr>))"

definition secp256k1_sign_stop :: "secp_contexts \<Rightarrow> secp_contexts" where
  "secp256k1_sign_stop s = s\<lparr>sign_context := False\<rparr>"

definition secp256k1_verify_start :: "secp_contexts \<Rightarrow> secp_contexts res" where
  "secp256k1_verify_start s =
     rbind (if verify_refs s = 0
            then (if verify_context s then Inl (Assertion ''g_secp256k1_verify_context.second == nullptr'')
                  else Inr (s\<lparr>verify_context := True\<rparr>))
            else Inr s)
       (\<lambda>s. Inr (s\<lparr>verify_refs := verify_refs s + 1\<rparr>))"

definition secp256k1_verify_stop :: "secp_contexts \<Rightarrow> secp_contexts res" where
  "secp256k1_verify_stop s =
     (let s = s\<lparr>verify_refs := verify_refs s - 1\<rparr>
      in if verify_refs s = 0
         then (if \<not> verify_context s then Inl (Assertion ''g_secp256k1_verify_context.second != nullptr'')
               else Inr (s\<lparr>verify_context := False\<rparr>))
         else Inr s)"

section \<open>Private keys\<close>

record private_key =
  sk_data :: bytes
  sk_type :: KeyType

text \<open>The constructor from an encoded key; the result of \<open>base58_decode\<close> is ignored.\<close>

definition private_key_of_string :: "digest \<Rightarrow> bytes \<Rightarrow> string \<Rightarrow> private_key res" where
  "private_key_of_string sha mem key =
     rbind (base58_decode key []) (\<lambda>(_, pk).
       if pk = [] then Inl (Undefined Out_of_bounds)
       else if pk ! 0 \<noteq> account_private_key \<and> pk ! 0 \<noteq> smart_contract_private_key
       then Inl (Logic_error ''Given key is not a private key'')
       else if length pk < 5 then Inl (Undefined Out_of_bounds)
       else let checksum = calculate_checksum sha (slice 1 (length pk - 5) pk) (pk ! 0);
                expected_checksum = word_of_mem (drop (length pk - 4) pk)
            in if checksum \<noteq> expected_checksum
               then Inl (Runtime_error ''Invalid private key: Checksum mismatch'')
               else if length pk - 5 > 32 then Inl (Undefined Out_of_bounds)
               else Inr \<lparr>sk_data = overwrite 0 (slice 1 (length pk - 5) pk) mem, sk_type = pk ! 0\<rparr>)"

definition private_key_of :: "bytes \<Rightarrow> KeyType \<Rightarrow> private_key" where
  "private_key_of secret type = \<lparr>sk_data = secret, sk_type = type\<rparr>"

definition sk_checksum :: "digest \<Rightarrow> private_key \<Rightarrow> u32" where
  "sk_checksum sha k = calculate_checksum sha (sk_data k) (sk_type k)"

definition sk_encoded :: "digest \<Rightarrow> private_key \<Rightarrow> string res" where
  "sk_encoded sha k =
     (let checksum = sk_checksum sha k;
          pk = [sk_type k];
          pk = pk @ sk_data k;
          pk = pk @ replicate 4 0;
          pk = overwrite (length pk - 4) (mem_of_word checksum) pk
      in base58_encode pk)"

section \<open>Public keys\<close>

record public_key =
  pub_data :: bytes
  pub_type :: KeyType

definition public_key_of_string :: "digest \<Rightarrow> bytes \<Rightarrow> string \<Rightarrow> public_key res" where
  "public_key_of_string sha mem key =
     rbind (base58_decode key []) (\<lambda>(_, pubkey).
       if pubkey = [] then Inl (Undefined Out_of_bounds)
       else if pubkey ! 0 \<noteq> account_public_key \<and> pubkey ! 0 \<noteq> smart_contract_public_key
       then Inl (Logic_error ''Given key is not a public key'')
       else if length pubkey < 5 then Inl (Undefined Out_of_bounds)
       else let checksum = calculate_checksum sha (slice 1 (length pubkey - 5) pubkey) (pubkey ! 0);
                expected_checksum = word_of_mem (drop (length pubkey - 4) pubkey)
            in if checksum \<noteq> expected_checksum
               then Inl (Runtime_error ''Invalid public key: Checksum mismatch'')
               else if length pubkey > 25 then Inl (Undefined Out_of_bounds)
               else Inr \<lparr>pub_data = overwrite 0 pubkey mem, pub_type = pubkey ! 0\<rparr>)"

definition public_key_of :: "bytes \<Rightarrow> public_key" where
  "public_key_of pubkey = \<lparr>pub_data = pubkey, pub_type = pubkey ! 0\<rparr>"

definition pub_checksum :: "public_key \<Rightarrow> u32" where
  "pub_checksum k = word_of_mem (slice 21 4 (pub_data k))"

definition pub_encoded :: "public_key \<Rightarrow> string res" where
  "pub_encoded k = base58_encode (pub_data k)"

section \<open>Deriving, signing, verifying\<close>

definition create_public_key ::
  "digest \<Rightarrow> digest \<Rightarrow> (bytes \<Rightarrow> bytes option) \<Rightarrow> u8 \<Rightarrow> private_key \<Rightarrow> public_key res" where
  "create_public_key sha rmd pubkey_create g_network_id k =
     (let pub_key_type = (if sk_type k = smart_contract_private_key then smart_contract_public_key
                          else account_public_key)
      in case pubkey_create (sk_data k) of
           None \<Rightarrow> Inl (Assertion ''secret was invalid'')
         | Some secp_pub \<Rightarrow>
             (let h160 = hash160 sha rmd secp_pub g_network_id;
                  checksum = checksum_of_hash160 sha h160 pub_key_type;
                  pub_key = [pub_key_type] @ h160 @ mem_of_word checksum
              in Inr (public_key_of pub_key)))"

text \<open>
  \<open>sign\<close> stores the compact signature behind the recovery byte; the external function returns
  the 64 bytes and the recovery id.
\<close>

definition sk_sign :: "(bytes \<Rightarrow> bytes \<Rightarrow> (bytes \<times> int) option) \<Rightarrow> private_key \<Rightarrow> bytes \<Rightarrow> bytes res" where
  "sk_sign sign_recoverable k hash =
     (case sign_recoverable hash (sk_data k) of
        None \<Rightarrow> Inl (Assertion ''the nonce generation function failed, or the private key was invalid'')
      | Some (compact, rec) \<Rightarrow>
          if rec = - 1 then Inl (Assertion ''rec != -1'')
          else Inr (word_of_int (27 + rec) # compact))"

definition pub_verify ::
  "digest \<Rightarrow> digest \<Rightarrow> (bytes \<Rightarrow> nat \<Rightarrow> bytes \<Rightarrow> bytes) \<Rightarrow> u8 \<Rightarrow> public_key \<Rightarrow> bytes \<Rightarrow> bytes \<Rightarrow> bool" where
  "pub_verify sha rmd recover g_network_id k hash sign =
     (let flag_byte = sign ! 0 - 27;
          recovery = and flag_byte 3;
          pub_key = recover (drop 1 sign) (unat recovery) hash;
          h160 = hash160 sha rmd pub_key g_network_id;
          checksum = checksum_of_hash160 sha h160 (pub_data k ! 0);
          expected_checksum = pub_checksum k
      in checksum = expected_checksum \<and> slice 1 20 (pub_data k) = take 20 h160)"

section \<open>Key pairs\<close>

text \<open>
  \<open>Integer::ByteCount\<close> and \<open>Integer::GetByte\<close> of Crypto++: the number of significant bytes
  and the \<open>i\<close>-th byte from the least significant one.
\<close>

fun byte_count :: "nat \<Rightarrow> nat" where
  "byte_count n = (if n = 0 then 0 else Suc (byte_count (n div 256)))"

declare byte_count.simps [simp del]

definition get_byte :: "nat \<Rightarrow> nat \<Rightarrow> u8" where
  "get_byte n i = of_nat (n div 256 ^ i)"

record KeyPair =
  kp_secret :: bytes
  kp_public :: bytes

text \<open>
  The constructor, for the private exponent \<open>exp\<close> drawn by Crypto++ and the previous contents
  \<open>mem\<close> of the secret key's array. The result is the pair and the file written next to it, name
  and contents.
\<close>

definition KeyPair_new ::
  "digest \<Rightarrow> digest \<Rightarrow> (bytes \<Rightarrow> bytes option) \<Rightarrow> u8 \<Rightarrow> bool \<Rightarrow> nat \<Rightarrow> bytes
     \<Rightarrow> secp_contexts \<Rightarrow> (KeyPair \<times> (string \<times> string) \<times> secp_contexts) res" where
  "KeyPair_new sha rmd pubkey_create g_network_id smart_contract_key exp mem s =
     rbind (secp256k1_sign_start True True s) (\<lambda>s.
       let private_key_t = (if smart_contract_key then smart_contract_private_key else account_private_key);
           exp_count = byte_count exp
       in if exp_count > 32 then Inl (Undefined Out_of_bounds)
          else let secret = overwrite 0 (map (get_byte exp) [0..<exp_count]) mem;
                   priv_key = private_key_of secret private_key_t
               in rbind (create_public_key sha rmd pubkey_create g_network_id priv_key) (\<lambda>pub_key.
                  rbind (pub_encoded pub_key) (\<lambda>name.
                  rbind (sk_encoded sha priv_key) (\<lambda>content.
                    Inr (\<lparr>kp_secret = secret, kp_public = pub_data pub_key\<rparr>,
                         (name @ ''_private.txt'', content), secp256k1_sign_stop s)))))"

section \<open>Properties of keys\<close>

definition wf_private :: "private_key \<Rightarrow> bool" where
  "wf_private k \<longleftrightarrow> length (sk_data k) = 32 \<and> sk_type k \<in> {account_private_key, smart_contract_private_key}"

lemma decode_encode:
  assumes "length bs \<le> 1000"
  shows "\<exists>s. base58_encode bs = Inr s \<and> base58_decode s vch = Inr (True, bs)"
proof -
  have len: "length bs \<le> max_input" using assms by (simp add: max_input_def)
  from encode_split [OF len] obtain s where "base58_encode bs = Inr s" by blast
  moreover have "length bs \<le> max_encode" using assms by (simp add: max_encode_def)
  from roundtrip_small [OF this, of vch] calculation have "base58_decode s vch = Inr (True, bs)" by simp
  ultimately show ?thesis by blast
qed


text \<open>The bytes that stand behind the text of a private key.\<close>

definition key_payload :: "digest \<Rightarrow> KeyType \<Rightarrow> bytes \<Rightarrow> bytes" where
  "key_payload sha t body = t # body @ mem_of_word (calculate_checksum sha body t)"

lemma length_key_payload [simp]: "length (key_payload sha t body) = length body + 5"
  by (simp add: key_payload_def)

lemma key_payload_parts:
  "key_payload sha t body \<noteq> []" "key_payload sha t body ! 0 = t"
  "slice (Suc 0) (length body) (key_payload sha t body) = body"
  "word_of_mem (drop (Suc (length body)) (key_payload sha t body)) = calculate_checksum sha body t"
  by (simp_all add: key_payload_def slice_def)

lemma sk_encoded_payload: "sk_encoded sha k = base58_encode (key_payload sha (sk_type k) (sk_data k))"
  by (simp add: sk_encoded_def sk_checksum_def key_payload_def overwrite_def Let_def)

lemma private_key_of_payload:
  assumes "base58_decode key [] = Inr (True, key_payload sha t body)"
    "t \<in> {account_private_key, smart_contract_private_key}"
  shows "private_key_of_string sha mem key =
    (if length body \<le> 32 then Inr \<lparr>sk_data = overwrite 0 body mem, sk_type = t\<rparr>
     else Inl (Undefined Out_of_bounds))"
  using assms
  by (simp add: private_key_of_string_def Let_def key_payload_parts)

lemma private_key_parse:
  assumes "length body \<le> 900" "t \<in> {account_private_key, smart_contract_private_key}"
  shows "\<exists>s. base58_encode (key_payload sha t body) = Inr s
     \<and> (\<forall>mem. private_key_of_string sha mem s =
         (if length body \<le> 32 then Inr \<lparr>sk_data = overwrite 0 body mem, sk_type = t\<rparr>
          else Inl (Undefined Out_of_bounds)))"
proof -
  have "length (key_payload sha t body) \<le> 1000" using assms(1) by simp
  from decode_encode [OF this, of "[]"] show ?thesis
    using private_key_of_payload [OF _ assms(2)] by blast
qed

lemma overwrite_all: "length xs = length ys \<Longrightarrow> overwrite 0 xs ys = xs"
  by (simp add: overwrite_def)

lemma private_key_text:
  assumes "wf_private k" "length mem = 32"
  shows "\<exists>s. sk_encoded sha k = Inr s \<and> private_key_of_string sha mem s = Inr k"
  using assms private_key_parse [of "sk_data k" "sk_type k" sha]
  by (auto simp: wf_private_def sk_encoded_payload overwrite_all)

text \<open>
  C11: a private key is recovered from its text: \<open>encoded\<close> succeeds and the constructor from
  a string gives back key and type, whatever was in the new object's memory.
\<close>

theorem private_key_roundtrip:
  assumes "wf_private k" "length mem = 32"
  shows "\<exists>s. sk_encoded sha k = Inr s \<and> private_key_of_string sha mem s = Inr k"
  using assms by (rule private_key_text)

theorem private_key_roundtrip_witness:
  "\<exists>s. sk_encoded (\<lambda>bs. bs) \<lparr>sk_data = replicate 32 7, sk_type = 128\<rparr> = Inr s
     \<and> private_key_of_string (\<lambda>bs. bs) (replicate 32 0) s = Inr \<lparr>sk_data = replicate 32 7, sk_type = 128\<rparr>"
  by (rule private_key_roundtrip) (simp_all add: wf_private_def key_types)

text \<open>
  The constructor from a string does not check the length of the key: with a correct
  checksum a shorter key is accepted and the rest of the 32 bytes keeps the previous contents of
  the memory, a longer one is written beyond the array; and on text that is not base58, or empty,
  the first byte of an empty vector is read.
\<close>

theorem private_key_length_unchecked:
  assumes "length body \<le> 900" "t \<in> {account_private_key, smart_contract_private_key}" "length mem = 32"
  shows "(\<exists>s. base58_encode (key_payload sha t body) = Inr s
      \<and> (length body \<le> 32 \<longrightarrow> private_key_of_string sha mem s =
           Inr \<lparr>sk_data = body @ drop (length body) mem, sk_type = t\<rparr>)
      \<and> (length body > 32 \<longrightarrow> private_key_of_string sha mem s = Inl (Undefined Out_of_bounds)))
    \<and> (\<forall>key ok. base58_decode key [] = Inr (ok, []) \<longrightarrow>
           private_key_of_string sha mem key = Inl (Undefined Out_of_bounds))"
  using private_key_parse [OF assms(1,2), of sha]
  by (auto simp: overwrite_def private_key_of_string_def)

theorem private_key_length_unchecked_witness:
  "\<exists>s. base58_encode (key_payload (\<lambda>bs. bs) 128 [1, 2]) = Inr s
     \<and> private_key_of_string (\<lambda>bs. bs) (replicate 32 9) s =
         Inr \<lparr>sk_data = [1, 2] @ replicate 30 9, sk_type = 128\<rparr>"
  using private_key_length_unchecked [of "[1, 2]" 128 "replicate 32 9" "\<lambda>bs. bs"]
  by (auto simp: key_types)

text \<open>The address of a key: type, 160-bit hash and checksum.\<close>

lemma create_public_key_Inr:
  assumes "create_public_key sha rmd pubkey_create net k = Inr p" "\<And>x. length (rmd x) = 20"
  shows "\<exists>pub t h. pubkey_create (sk_data k) = Some pub \<and> h = hash160 sha rmd pub net \<and> length h = 20
     \<and> t = (if sk_type k = smart_contract_private_key then smart_contract_public_key else account_public_key)
     \<and> p = \<lparr>pub_data = key_payload sha t h, pub_type = t\<rparr>"
  using assms
  by (auto simp: create_public_key_def Let_def public_key_of_def key_payload_def hash160_def
        checksum_of_hash160_def split: option.splits)

lemma public_key_parse:
  assumes "length body = 20" "t \<in> {account_public_key, smart_contract_public_key}" "length mem = 25"
  shows "\<exists>s. base58_encode (key_payload sha t body) = Inr s
     \<and> public_key_of_string sha mem s = Inr \<lparr>pub_data = key_payload sha t body, pub_type = t\<rparr>"
proof -
  have "length (key_payload sha t body) \<le> 1000" using assms(1) by simp
  from decode_encode [OF this, of "[]"] obtain s where
    "base58_encode (key_payload sha t body) = Inr s"
    "base58_decode s [] = Inr (True, key_payload sha t body)" by blast
  moreover have "slice (Suc 0) 20 (key_payload sha t body) = body"
    "word_of_mem (drop 21 (key_payload sha t body)) = calculate_checksum sha body t"
    using key_payload_parts(3,4) [where body = body and sha = sha and t = t] assms(1) by simp_all
  ultimately show ?thesis
    using assms by (simp add: public_key_of_string_def Let_def key_payload_parts overwrite_all)
qed

lemma public_key_text:
  assumes "create_public_key sha rmd pubkey_create net k = Inr p" "\<And>x. length (rmd x) = 20" "length mem = 25"
  shows "\<exists>s. pub_encoded p = Inr s \<and> public_key_of_string sha mem s = Inr p"
proof -
  from create_public_key_Inr [OF assms(1,2)] obtain h t where
    "length h = 20" "t \<in> {account_public_key, smart_contract_public_key}"
    "p = \<lparr>pub_data = key_payload sha t h, pub_type = t\<rparr>" by auto
  with public_key_parse [OF this(1,2) assms(3), of sha] show ?thesis
    by (simp add: pub_encoded_def)
qed

text \<open>
  The address derived from a private key passes the checks of the constructor from a string
  and is recovered by it, and its type matches the type of the private key.
\<close>

theorem address_roundtrip:
  assumes "create_public_key sha rmd pubkey_create net k = Inr p" "\<And>x. length (rmd x) = 20" "length mem = 25"
  shows "\<exists>s. pub_encoded p = Inr s \<and> public_key_of_string sha mem s = Inr p
    \<and> (pub_type p = smart_contract_public_key \<longleftrightarrow> sk_type k = smart_contract_private_key)"
  using public_key_text [OF assms] create_public_key_Inr [OF assms(1,2)]
  by (auto simp: key_types)

theorem address_roundtrip_witness:
  "\<exists>p s. create_public_key (\<lambda>bs. bs) (\<lambda>bs. replicate 20 1) Some 4 \<lparr>sk_data = replicate 32 7, sk_type = 128\<rparr> = Inr p
     \<and> pub_encoded p = Inr s \<and> public_key_of_string (\<lambda>bs. bs) (replicate 25 0) s = Inr p"
proof -
  let ?k = "\<lparr>sk_data = replicate 32 7, sk_type = 128\<rparr>"
  obtain p where p: "create_public_key (\<lambda>bs. bs) (\<lambda>bs. replicate 20 1) Some 4 ?k = Inr p"
    by (simp add: create_public_key_def Let_def)
  from address_roundtrip [OF p, of "replicate 25 0"] p show ?thesis by auto
qed




lemma byte_count_upper: "n < 256 ^ byte_count n"
proof (induction n rule: byte_count.induct)
  case (1 n)
  show ?case
  proof (cases "n = 0")
    case False
    with 1 have "n div 256 < 256 ^ byte_count (n div 256)" by blast
    then have "n < 256 * 256 ^ byte_count (n div 256)" by (simp add: less_mult_imp_div_less div_less_iff_less_mult mult.commute)
    with False show ?thesis by (simp add: byte_count.simps [of n])
  qed (simp add: byte_count.simps)
qed

lemma get_bytes_le: "map (get_byte n) [0..<k] = le_bytes k n"
proof (induction k arbitrary: n)
  case (Suc k)
  have "map (get_byte n) [0..<Suc k] = get_byte n 0 # map (\<lambda>i. get_byte n (Suc i)) [0..<k]"
    by (simp only: upt_conv_Cons map_Suc_upt [symmetric] list.map map_map comp_def)
  also have "(\<lambda>i. get_byte n (Suc i)) = get_byte (n div 256)"
    by (simp add: get_byte_def div_mult2_eq fun_eq_iff)
  finally show ?case using Suc.IH [of "n div 256"]
    by (simp add: get_byte_def word_unat_eq_iff unat_of_nat)
qed simp

lemma KeyPair_new_Inr:
  assumes "KeyPair_new sha rmd pubkey_create net sc exp mem s = Inr (kp, (name, content), s')"
  shows "\<exists>k p addr. k = \<lparr>sk_data = kp_secret kp,
              sk_type = (if sc then smart_contract_private_key else account_private_key)\<rparr>
    \<and> kp_secret kp = overwrite 0 (le_bytes (byte_count exp) exp) mem \<and> byte_count exp \<le> 32
    \<and> create_public_key sha rmd pubkey_create net k = Inr p \<and> kp_public kp = pub_data p
    \<and> pub_encoded p = Inr addr \<and> name = addr @ ''_private.txt'' \<and> sk_encoded sha k = Inr content
    \<and> \<not> sign_context s \<and> s' = s"
  using assms
  by (cases s) (auto simp: KeyPair_new_def Let_def rbind_eq_Inr private_key_of_def get_bytes_le
        secp256k1_sign_start_def secp256k1_sign_stop_def split: if_splits)

text \<open>
  A generated key pair and the file written for it agree: the file's contents read back as
  the private key of the pair, its name starts with the address of the pair's public key, and the
  signing context is left as it was. The secret holds the exponent in little-endian order; above
  its most significant byte the array keeps what was in its memory.
\<close>

theorem key_pair_file:
  assumes "KeyPair_new sha rmd pubkey_create net sc exp mem s = Inr (kp, (name, content), s')"
    and "length mem = 32" "length mem' = 32" "length mem'' = 25" and "\<And>x. length (rmd x) = 20"
  shows "\<exists>k p addr. private_key_of_string sha mem' content = Inr k \<and> sk_data k = kp_secret kp
    \<and> create_public_key sha rmd pubkey_create net k = Inr p \<and> pub_data p = kp_public kp
    \<and> name = addr @ ''_private.txt'' \<and> public_key_of_string sha mem'' addr = Inr p
    \<and> le_val (take (byte_count exp) (sk_data k)) = exp \<and> drop (byte_count exp) (sk_data k) = drop (byte_count exp) mem
    \<and> s' = s"
proof -
  from KeyPair_new_Inr [OF assms(1)] obtain k p addr where k:
    "k = \<lparr>sk_data = kp_secret kp, sk_type = (if sc then smart_contract_private_key else account_private_key)\<rparr>"
    "kp_secret kp = overwrite 0 (le_bytes (byte_count exp) exp) mem" "byte_count exp \<le> 32"
    "create_public_key sha rmd pubkey_create net k = Inr p" "kp_public kp = pub_data p"
    "pub_encoded p = Inr addr" "name = addr @ ''_private.txt''" "sk_encoded sha k = Inr content" "s' = s" by blast
  then have "wf_private k" using assms(2) by (simp add: wf_private_def)
  from private_key_text [OF this assms(3), of sha] k(8)
  have "private_key_of_string sha mem' content = Inr k" by simp
  moreover from public_key_text [OF k(4) assms(5,4)] k(6) have "public_key_of_string sha mem'' addr = Inr p" by simp
  moreover have "le_val (take (byte_count exp) (sk_data k)) = exp \<and> drop (byte_count exp) (sk_data k) = drop (byte_count exp) mem"
    using k(1,2) by (simp add: overwrite_def le_val_le_bytes byte_count_upper)
  ultimately show ?thesis using k by auto
qed

theorem key_pair_file_witness:
  "\<exists>kp name content k. KeyPair_new (\<lambda>bs. bs) (\<lambda>bs. replicate 20 1) Some 4 False 517 (replicate 32 0) secp_initial
       = Inr (kp, (name, content), secp_initial)
     \<and> private_key_of_string (\<lambda>bs. bs) (replicate 32 0) content = Inr k \<and> sk_data k = kp_secret kp"
proof -
  have count: "byte_count 517 = 2" by (simp add: byte_count.simps)
  let ?k = "\<lparr>sk_data = overwrite 0 (le_bytes 2 517) (replicate 32 0), sk_type = account_private_key\<rparr>"
  obtain p where p: "create_public_key (\<lambda>bs. bs) (\<lambda>bs. replicate 20 1) Some 4 ?k = Inr p"
    by (simp add: create_public_key_def Let_def)
  obtain addr where t: "pub_encoded p = Inr addr"
    using public_key_text [OF p, of "replicate 25 0"] by auto
  obtain content where c: "sk_encoded (\<lambda>bs. bs) ?k = Inr content"
    using private_key_text [of ?k "replicate 32 0" "\<lambda>bs. bs"] by (auto simp: wf_private_def)
  have "KeyPair_new (\<lambda>bs. bs) (\<lambda>bs. replicate 20 1) Some 4 False 517 (replicate 32 0) secp_initial
     = Inr (\<lparr>kp_secret = sk_data ?k, kp_public = pub_data p\<rparr>, (addr @ ''_private.txt'', content), secp_initial)"
    using p t c
    by (simp add: KeyPair_new_def secp256k1_sign_start_def secp256k1_sign_stop_def secp_initial_def
          private_key_of_def get_bytes_le count del: le_bytes_numeral)
  from key_pair_file [OF this, of "replicate 32 0" "replicate 25 0"] this show ?thesis by auto
qed

end
