(* ===== verification/StreamCodec.thy ===== *)
theory StreamCodec
  imports Streams ChainData
begin

text \<open>
  The binary codec of transactions and blocks (\<open>stream_serializer\<close> in
  \<open>iotchain/src/serialization.cpp\<close>) over the virtual functions of \<open>stream\<close>, the parameters
  \<open>wr\<close> and \<open>rd\<close>: its lemmas are proved inside the interfaces \<open>byte_writer\<close> and
  \<open>byte_reader\<close> and used at \<open>buffer_stream\<close> and \<open>memory_reader\<close>. Allocation is assumed to
  succeed.
\<close>

section \<open>Serializing\<close>

type_synonym 's writer = "bytes \<Rightarrow> 's \<Rightarrow> 's res"
type_synonym 's reader = "nat \<Rightarrow> 's \<Rightarrow> (bytes \<times> 's) res"

fun write_each :: "('x \<Rightarrow> 's \<Rightarrow> 's res) \<Rightarrow> 'x list \<Rightarrow> 's \<Rightarrow> 's res" where
  "write_each f [] out = Inr out"
| "write_each f (x # xs) out = rbind (f x out) (write_each f xs)"

definition write_size :: "'s writer \<Rightarrow> nat \<Rightarrow> 's \<Rightarrow> 's res" where
  "write_size wr n = write_word wr (of_nat n :: u32)"

definition serialize_input :: "'s writer \<Rightarrow> TXInput \<Rightarrow> 's \<Rightarrow> 's res" where
  "serialize_input wr tx_inp out =
     rbind (write_word wr (in_amount tx_inp) out) (\<lambda>out.
     rbind (write_size wr (length (in_data tx_inp)) out) (\<lambda>out.
     wr (in_data tx_inp) out))"

definition serialize_output :: "'s writer \<Rightarrow> TXOutput \<Rightarrow> 's \<Rightarrow> 's res" where
  "serialize_output wr tx_out out =
     rbind (write_word wr (out_amount tx_out) out) (\<lambda>out.
     wr (out_to tx_out) out)"

definition serialize_tx :: "'s writer \<Rightarrow> TX \<Rightarrow> 's \<Rightarrow> 's res" where
  "serialize_tx wr tx out =
     rbind (write_word wr (tx_time tx) out) (\<lambda>out.
     rbind (write_size wr (length (tx_inputs tx)) out) (\<lambda>out.
     rbind (write_each (serialize_input wr) (tx_inputs tx) out) (\<lambda>out.
     rbind (write_size wr (length (tx_outputs tx)) out) (\<lambda>out.
     rbind (write_each (serialize_output wr) (tx_outputs tx) out) (\<lambda>out.
     rbind (write_size wr (length (tx_extra tx)) out) (\<lambda>out.
     rbind (wr (tx_extra tx) out) (\<lambda>out.
     rbind (wr (tx_from tx) out) (\<lambda>out.
     wr (tx_signature tx) out))))))))"

definition serialize_block :: "'s writer \<Rightarrow> Block \<Rightarrow> 's \<Rightarrow> 's res" where
  "serialize_block wr bl out =
     rbind (write_word wr (nonce bl) out) (\<lambda>out.
     rbind (write_word wr (timestamp bl) out) (\<lambda>out.
     rbind (wr (prev_block_hash bl) out) (\<lambda>out.
     rbind (serialize_tx wr (coinbase bl) out) (\<lambda>out.
     rbind (write_size wr (length (tx_list bl)) out) (\<lambda>out.
     write_each (serialize_tx wr) (tx_list bl) out)))))"

section \<open>Deserializing\<close>

text \<open>
  The loops \<open>for (int i = 0; i < size; i++)\<close>: the comparison is unsigned, the increment of
  \<open>INT_MAX\<close> is undefined.
\<close>

fun read_each :: "('s \<Rightarrow> ('v \<times> 's) res) \<Rightarrow> nat \<Rightarrow> nat \<Rightarrow> 's \<Rightarrow> ('v list \<times> 's) res" where
  "read_each f i 0 inp = Inr ([], inp)"
| "read_each f i (Suc n) inp =
     rbind (f inp) (\<lambda>(v, inp).
       if i = 2 ^ 31 - 1 then Inl (Undefined Signed_overflow)
       else rbind (read_each f (Suc i) n inp) (\<lambda>(vs, inp). Inr (v # vs, inp)))"

text \<open>The value-initialised elements that \<open>resize\<close> appends to an empty vector.\<close>

definition empty_input :: TXInput where
  "empty_input = \<lparr>in_amount = 0, in_data = []\<rparr>"

definition empty_output :: TXOutput where
  "empty_output = \<lparr>out_amount = 0, out_to = replicate 25 0\<rparr>"

definition empty_tx :: TX where
  "empty_tx = \<lparr>tx_time = 0, tx_inputs = [], tx_outputs = [], tx_extra = [],
     tx_from = replicate 25 0, tx_signature = replicate 65 0\<rparr>"

definition deserialize_input :: "'s reader \<Rightarrow> 's \<Rightarrow> (TXInput \<times> 's) res" where
  "deserialize_input rd inp =
     rbind (read_word rd inp) (\<lambda>(amount, inp).
     rbind (read_word rd inp) (\<lambda>(data_size :: u32, inp).
     rbind (rd (unat data_size) inp) (\<lambda>(data, inp).
     Inr (\<lparr>in_amount = amount, in_data = data\<rparr>, inp))))"

definition deserialize_output :: "'s reader \<Rightarrow> 's \<Rightarrow> (TXOutput \<times> 's) res" where
  "deserialize_output rd inp =
     rbind (read_word rd inp) (\<lambda>(amount, inp).
     rbind (rd 25 inp) (\<lambda>(to, inp).
     Inr (\<lparr>out_amount = amount, out_to = to\<rparr>, inp)))"

text \<open>
  A vector is first resized to the announced size and then grows by one element for each that
  is read: the announced number of value-initialised elements comes first.
\<close>

definition resize_then_push :: "'v \<Rightarrow> ('s \<Rightarrow> ('v \<times> 's) res) \<Rightarrow> u32 \<Rightarrow> 's \<Rightarrow> ('v list \<times> 's) res" where
  "resize_then_push dflt f n inp =
     rbind (read_each f 0 (unat n) inp) (\<lambda>(vs, inp). Inr (replicate (unat n) dflt @ vs, inp))"

definition deserialize_tx :: "'s reader \<Rightarrow> 's \<Rightarrow> (TX \<times> 's) res" where
  "deserialize_tx rd inp =
     rbind (read_word rd inp) (\<lambda>(time, inp).
     rbind (read_word rd inp) (\<lambda>(input_size, inp).
     rbind (resize_then_push empty_input (deserialize_input rd) input_size inp) (\<lambda>(inputs, inp).
     rbind (read_word rd inp) (\<lambda>(output_size, inp).
     rbind (resize_then_push empty_output (deserialize_output rd) output_size inp) (\<lambda>(outputs, inp).
     rbind (read_word rd inp) (\<lambda>(extra_size :: u32, inp).
     rbind (rd (unat extra_size) inp) (\<lambda>(extra, inp).
     rbind (rd 25 inp) (\<lambda>(sender, inp).
     rbind (rd 65 inp) (\<lambda>(signature, inp).
     Inr (\<lparr>tx_time = time, tx_inputs = inputs, tx_outputs = outputs, tx_extra = extra,
            tx_from = sender, tx_signature = signature\<rparr>, inp))))))))))"

definition deserialize_block :: "'s reader \<Rightarrow> 's \<Rightarrow> (Block \<times> 's) res" where
  "deserialize_block rd inp =
     rbind (read_word rd inp) (\<lambda>(non, inp).
     rbind (read_word rd inp) (\<lambda>(time, inp).
     rbind (rd 32 inp) (\<lambda>(prev, inp).
     rbind (deserialize_tx rd inp) (\<lambda>(cb, inp).
     rbind (read_word rd inp) (\<lambda>(tx_size, inp).
     rbind (resize_then_push empty_tx (deserialize_tx rd) tx_size inp) (\<lambda>(txs, inp).
     Inr (\<lparr>nonce = non, timestamp = time, prev_block_hash = prev, coinbase = cb, tx_list = txs\<rparr>, inp)))))))"

section \<open>The wire format\<close>

definition size_bytes :: "nat \<Rightarrow> bytes" where
  "size_bytes n = mem_of_word (of_nat n :: u32)"

definition input_wire :: "TXInput \<Rightarrow> bytes" where
  "input_wire i = mem_of_word (in_amount i) @ size_bytes (length (in_data i)) @ in_data i"

definition output_wire :: "TXOutput \<Rightarrow> bytes" where
  "output_wire out = mem_of_word (out_amount out) @ out_to out"

definition tx_wire :: "TX \<Rightarrow> bytes" where
  "tx_wire tx = mem_of_word (tx_time tx)
     @ size_bytes (length (tx_inputs tx)) @ concat (map input_wire (tx_inputs tx))
     @ size_bytes (length (tx_outputs tx)) @ concat (map output_wire (tx_outputs tx))
     @ size_bytes (length (tx_extra tx)) @ tx_extra tx @ tx_from tx @ tx_signature tx"

definition block_wire :: "Block \<Rightarrow> bytes" where
  "block_wire bl = mem_of_word (nonce bl) @ mem_of_word (timestamp bl) @ prev_block_hash bl
     @ tx_wire (coinbase bl) @ size_bytes (length (tx_list bl)) @ concat (map tx_wire (tx_list bl))"

text \<open>The sizes a 32-bit count and the loops can handle.\<close>

definition small_tx :: "TX \<Rightarrow> bool" where
  "small_tx tx \<longleftrightarrow> wf_TX tx \<and> length (tx_inputs tx) < 2 ^ 31 \<and> length (tx_outputs tx) < 2 ^ 31
     \<and> length (tx_extra tx) < 2 ^ 32 \<and> list_all (\<lambda>i. length (in_data i) < 2 ^ 32) (tx_inputs tx)"

definition small_block :: "Block \<Rightarrow> bool" where
  "small_block bl \<longleftrightarrow> length (prev_block_hash bl) = 32 \<and> small_tx (coinbase bl)
     \<and> length (tx_list bl) < 2 ^ 31 \<and> list_all small_tx (tx_list bl)"

text \<open>What comes back from the wire.\<close>

definition padded_tx :: "TX \<Rightarrow> TX" where
  "padded_tx tx = tx\<lparr>tx_inputs := replicate (length (tx_inputs tx)) empty_input @ tx_inputs tx,
     tx_outputs := replicate (length (tx_outputs tx)) empty_output @ tx_outputs tx\<rparr>"

definition padded_block :: "Block \<Rightarrow> Block" where
  "padded_block bl = bl\<lparr>coinbase := padded_tx (coinbase bl),
     tx_list := replicate (length (tx_list bl)) empty_tx @ map padded_tx (tx_list bl)\<rparr>"

lemma unat_size: "n < 2 ^ 32 \<Longrightarrow> unat (of_nat n :: u32) = n"
  by (simp add: unat_of_nat)

context byte_writer
begin

lemma writes_size [intro]: "writes (write_size wr n) (size_bytes n)"
  unfolding write_size_def size_bytes_def by (rule writes_word)

lemma writes_each:
  assumes "\<And>x. writes (f x) (w x)"
  shows "writes (write_each f xs) (concat (map w xs))"
proof (induction xs)
  case (Cons x xs)
  from writes_seq [OF assms [of x] Cons.IH] show ?case by simp
qed (auto simp: writes_def)

lemma writes_input: "writes (serialize_input wr i) (input_wire i)"
  unfolding serialize_input_def input_wire_def by (intro writes_seq writes_word writes_size writes_wr)

lemma writes_output: "writes (serialize_output wr i) (output_wire i)"
  unfolding serialize_output_def output_wire_def by (intro writes_seq writes_word writes_wr)

lemma writes_tx: "writes (serialize_tx wr tx) (tx_wire tx)"
  unfolding serialize_tx_def tx_wire_def
  by (intro writes_seq writes_word writes_size writes_wr writes_each writes_input writes_output)

lemma writes_block: "writes (serialize_block wr bl) (block_wire bl)"
  unfolding serialize_block_def block_wire_def
  by (intro writes_seq writes_word writes_size writes_wr writes_each writes_tx)

end


text \<open>
  \<open>parses f p v\<close>: on input that starts with \<open>p\<close>, \<open>f\<close> consumes \<open>p\<close> and returns \<open>v\<close>; on any
  proper prefix of \<open>p\<close> it reports the end of the stream.
\<close>

context byte_reader
begin

definition parses :: "('s \<Rightarrow> ('v \<times> 's) res) \<Rightarrow> bytes \<Rightarrow> 'v \<Rightarrow> bool" where
  "parses f p v \<longleftrightarrow> reads f p v \<and>
     (\<forall>s r. r_inv s \<longrightarrow> r \<noteq> [] \<longrightarrow> p = unread s @ r \<longrightarrow> f s = Inl end_of_stream)"

lemma parses_rd_n: "length p = n \<Longrightarrow> parses (rd n) p p"
  unfolding parses_def
proof (intro conjI allI impI)
  fix s r assume "length p = n" "r_inv s" "r \<noteq> []" "p = unread s @ r"
  then show "rd n s = Inl end_of_stream" by (intro rd_eof) auto
qed (rule reads_rd_n)

lemma parses_return: "parses (\<lambda>s. Inr (v, s)) [] v"
  by (simp add: parses_def reads_return)

lemma parses_bind:
  assumes f: "parses f p v" and g: "parses (g v) q w"
  shows "parses (\<lambda>s. rbind (f s) (\<lambda>(x, s). g x s)) (p @ q) w"
  unfolding parses_def
proof (intro conjI allI impI)
  show "reads (\<lambda>s. rbind (f s) (\<lambda>(x, s). g x s)) (p @ q) w"
    using f g by (auto simp: parses_def intro: reads_bind)
  fix s r assume s: "r_inv s" "r \<noteq> []" "p @ q = unread s @ r"
  then consider t where "t \<noteq> []" "p = unread s @ t" | c where "unread s = p @ c" "q = c @ r"
    unfolding append_eq_append_conv2 by (metis append_Nil append_Nil2)
  then show "rbind (f s) (\<lambda>(x, s). g x s) = Inl end_of_stream"
  proof cases
    case 1
    with f s have "f s = Inl end_of_stream" unfolding parses_def by blast
    then show ?thesis by simp
  next
    case 2
    with f s(1) obtain s1 where "f s = Inr (v, s1)" "r_inv s1" "unread s1 = c"
      unfolding parses_def reads_def by metis
    with g s(2) 2(2) show ?thesis by (simp add: parses_def)
  qed
qed

lemma parses_map: "parses f p v \<Longrightarrow> parses (\<lambda>s. rbind (f s) (\<lambda>(x, s). Inr (h x, s))) p (h v)"
  using parses_bind [of f p v "\<lambda>x s. Inr (h x, s)" "[]" "h v"] by (simp add: parses_return)

lemma parses_word:
  assumes "length p = LENGTH('a) div 8"
  shows "parses (read_word rd :: 's \<Rightarrow> ('a::len word \<times> 's) res) p (word_of_mem p)"
proof -
  have "parses (\<lambda>s. rbind (rd (LENGTH('a) div 8) s) (\<lambda>(b, s). Inr (word_of_mem b :: 'a word, s))) p (word_of_mem p)"
    by (rule parses_map [OF parses_rd_n [OF assms]])
  then show ?thesis by (simp add: read_word_def [abs_def])
qed

lemma parses_u32: "parses (read_word rd) (mem_of_word (w :: u32)) w"
  using parses_word [of "mem_of_word w", where 'a = 32] by simp

lemma parses_u64: "parses (read_word rd) (mem_of_word (w :: u64)) w"
  using parses_word [of "mem_of_word w", where 'a = 64] by simp

lemma parses_size: "parses (read_word rd) (size_bytes n) (of_nat n :: u32)"
  unfolding size_bytes_def by (rule parses_u32)

lemmas parses_prims = parses_u64 parses_u32 parses_size parses_rd_n

lemma parses_each:
  assumes "\<And>x. x \<in> set xs \<Longrightarrow> parses f (w x) (d x)" "i + length xs < 2 ^ 31"
  shows "parses (read_each f i (length xs)) (concat (map w xs)) (map d xs)"
  using assms
proof (induction xs arbitrary: i)
  case (Cons x xs)
  have i: "i \<noteq> 2 ^ 31 - 1" using Cons.prems(2) by simp
  have "parses (read_each f (Suc i) (length xs)) (concat (map w xs)) (map d xs)"
    using Cons.prems by (intro Cons.IH) auto
  from parses_map [OF this, of "\<lambda>vs. d x # vs"]
  have rest: "parses (\<lambda>inp. if i = 2 ^ 31 - 1 then Inl (Undefined Signed_overflow)
      else rbind (read_each f (Suc i) (length xs) inp) (\<lambda>(vs, inp). Inr (d x # vs, inp)))
      (concat (map w xs)) (d x # map d xs)"
    using i by simp
  show ?case
    using parses_bind [OF Cons.prems(1) [of x], where g = "\<lambda>v inp. if i = 2 ^ 31 - 1
        then Inl (Undefined Signed_overflow)
        else rbind (read_each f (Suc i) (length xs) inp) (\<lambda>(vs, inp). Inr (v # vs, inp))", OF _ rest]
    by (simp add: case_prod_unfold)
next
  case Nil
  have "read_each f i 0 = (\<lambda>s. Inr ([], s))" by (simp add: fun_eq_iff)
  then show ?case by (simp add: parses_return)
qed

lemma parses_vector:
  assumes "\<And>x. x \<in> set xs \<Longrightarrow> parses f (w x) (d x)" "length xs < 2 ^ 31"
  shows "parses (resize_then_push dflt f (of_nat (length xs))) (concat (map w xs))
           (replicate (length xs) dflt @ map d xs)"
proof -
  have "unat (of_nat (length xs) :: u32) = length xs" using assms(2) by (simp add: unat_size)
  with parses_map [OF parses_each [of xs f w d 0], where h = "\<lambda>vs. replicate (length xs) dflt @ vs"] assms
  show ?thesis by (simp add: resize_then_push_def [abs_def])
qed

lemmas parses_word_then = parses_bind [OF parses_u64] parses_bind [OF parses_u32] parses_bind [OF parses_size]

lemma parses_input:
  assumes "length (in_data i) < 2 ^ 32"
  shows "parses (deserialize_input rd) (input_wire i) i"
proof -
  have "unat (of_nat (length (in_data i)) :: u32) = length (in_data i)" using assms by (simp add: unat_size)
  then have "parses (rd (unat (of_nat (length (in_data i)) :: u32))) (in_data i) (in_data i)"
    by (simp add: parses_rd_n)
  from parses_map [OF this, of "\<lambda>d. \<lparr>in_amount = in_amount i, in_data = d\<rparr>"]
  have "parses (\<lambda>s. rbind (rd (unat (of_nat (length (in_data i)) :: u32)) s)
      (\<lambda>(d, s). Inr (\<lparr>in_amount = in_amount i, in_data = d\<rparr>, s))) (in_data i) i" by (cases i) simp
  then show ?thesis
    unfolding deserialize_input_def [abs_def] input_wire_def
    by - (rule parses_word_then, rule parses_word_then)
qed

lemma parses_output:
  assumes "wf_output out"
  shows "parses (deserialize_output rd) (output_wire out) out"
proof -
  have "parses (rd 25) (out_to out) (out_to out)" using assms by (simp add: wf_output_def parses_rd_n)
  from parses_map [OF this, of "\<lambda>d. \<lparr>out_amount = out_amount out, out_to = d\<rparr>"]
  have "parses (\<lambda>s. rbind (rd 25 s) (\<lambda>(d, s). Inr (\<lparr>out_amount = out_amount out, out_to = d\<rparr>, s))) (out_to out) out"
    by (cases out) simp
  then show ?thesis
    unfolding deserialize_output_def [abs_def] output_wire_def by - (rule parses_word_then)
qed

lemma parses_tx:
  assumes "small_tx tx"
  shows "parses (deserialize_tx rd) (tx_wire tx) (padded_tx tx)"
proof -
  have extra: "parses (rd (unat (of_nat (length (tx_extra tx)) :: u32))) (tx_extra tx) (tx_extra tx)"
    using assms by (simp add: small_tx_def unat_size parses_rd_n)
  have inputs: "parses (resize_then_push empty_input (deserialize_input rd) (of_nat (length (tx_inputs tx))))
      (concat (map input_wire (tx_inputs tx))) (tx_inputs (padded_tx tx))"
    using parses_vector [of "tx_inputs tx" "deserialize_input rd" input_wire "\<lambda>x. x" empty_input] assms
    by (simp add: padded_tx_def small_tx_def parses_input list_all_iff)
  have outputs: "parses (resize_then_push empty_output (deserialize_output rd) (of_nat (length (tx_outputs tx))))
      (concat (map output_wire (tx_outputs tx))) (tx_outputs (padded_tx tx))"
    using parses_vector [of "tx_outputs tx" "deserialize_output rd" output_wire "\<lambda>x. x" empty_output] assms
    by (simp add: padded_tx_def small_tx_def wf_TX_def parses_output list_all_iff)
  have tail: "parses (rd 25) (tx_from tx) (tx_from tx)" "parses (rd 65) (tx_signature tx) (tx_signature tx)"
    using assms by (simp_all add: small_tx_def wf_TX_def parses_rd_n)
  let ?tx = "\<lambda>sig. \<lparr>tx_time = tx_time tx, tx_inputs = tx_inputs (padded_tx tx), tx_outputs = tx_outputs (padded_tx tx),
     tx_extra = tx_extra tx, tx_from = tx_from tx, tx_signature = sig\<rparr>"
  have "padded_tx tx = ?tx (tx_signature tx)" by (simp add: padded_tx_def)
  moreover have "parses (deserialize_tx rd) (tx_wire tx) (?tx (tx_signature tx))"
    unfolding deserialize_tx_def [abs_def] tx_wire_def
    by (rule parses_word_then parses_bind [OF inputs] parses_bind [OF outputs] parses_bind [OF extra]
          parses_bind [OF tail(1)] parses_map [OF tail(2), of ?tx])+
  ultimately show ?thesis by simp
qed

lemma parses_block:
  assumes "small_block bl"
  shows "parses (deserialize_block rd) (block_wire bl) (padded_block bl)"
proof -
  have prev: "parses (rd 32) (prev_block_hash bl) (prev_block_hash bl)"
    and cb: "parses (deserialize_tx rd) (tx_wire (coinbase bl)) (padded_tx (coinbase bl))"
    using assms by (simp_all add: small_block_def parses_rd_n parses_tx)
  have txs: "parses (resize_then_push empty_tx (deserialize_tx rd) (of_nat (length (tx_list bl))))
      (concat (map tx_wire (tx_list bl))) (tx_list (padded_block bl))"
    using parses_vector [of "tx_list bl" "deserialize_tx rd" tx_wire padded_tx empty_tx] assms
    by (simp add: padded_block_def small_block_def parses_tx list_all_iff)
  let ?bl = "\<lambda>txs. \<lparr>nonce = nonce bl, timestamp = timestamp bl, prev_block_hash = prev_block_hash bl,
     coinbase = padded_tx (coinbase bl), tx_list = txs\<rparr>"
  have "padded_block bl = ?bl (tx_list (padded_block bl))" by (simp add: padded_block_def)
  moreover have "parses (deserialize_block rd) (block_wire bl) (?bl (tx_list (padded_block bl)))"
    unfolding deserialize_block_def [abs_def] block_wire_def
    by (rule parses_word_then parses_bind [OF prev] parses_bind [OF cb] parses_map [OF txs, of ?bl])+
  ultimately show ?thesis by simp
qed

end


text \<open>
  \<open>safely f m P\<close>: on any input below 2 GB, \<open>f\<close> reports the end of the stream or returns a value
  with \<open>P\<close> after consuming at least \<open>m\<close> bytes; it does nothing undefined.
\<close>

context byte_reader
begin

definition safely :: "('s \<Rightarrow> ('v \<times> 's) res) \<Rightarrow> nat \<Rightarrow> ('v \<Rightarrow> bool) \<Rightarrow> bool" where
  "safely f m P \<longleftrightarrow> (\<forall>s. r_inv s \<longrightarrow> length (unread s) < 2 ^ 31 \<longrightarrow>
     f s = Inl end_of_stream \<or>
     (\<exists>v s'. f s = Inr (v, s') \<and> r_inv s' \<and> m + length (unread s') \<le> length (unread s) \<and> P v))"

lemma safelyE:
  assumes "safely f m P" "r_inv s" "length (unread s) < 2 ^ 31"
  obtains "f s = Inl end_of_stream"
  | v s' where "f s = Inr (v, s')" "r_inv s'" "m + length (unread s') \<le> length (unread s)" "P v"
  using assms unfolding safely_def by blast

lemma safely_rd: "safely (rd n) n (\<lambda>b. length b = n)"
  unfolding safely_def
proof (intro allI impI)
  fix s assume s: "r_inv s"
  show "rd n s = Inl end_of_stream \<or> (\<exists>v s'. rd n s = Inr (v, s') \<and> r_inv s'
      \<and> n + length (unread s') \<le> length (unread s) \<and> length v = n)"
  proof (cases "length (unread s) < n")
    case False
    with rd_ok [OF s, of n] show ?thesis by auto
  qed (simp add: rd_eof s)
qed

lemma safely_return: "P v \<Longrightarrow> safely (\<lambda>s. Inr (v, s)) 0 P"
  by (simp add: safely_def)

lemma safely_bind:
  assumes f: "safely f m P" and g: "\<And>v. P v \<Longrightarrow> safely (g v) 0 Q"
  shows "safely (\<lambda>s. rbind (f s) (\<lambda>(v, s). g v s)) m Q"
  unfolding safely_def
proof (intro allI impI)
  fix s assume s: "r_inv s" "length (unread s) < 2 ^ 31"
  from f s show "rbind (f s) (\<lambda>(v, s). g v s) = Inl end_of_stream \<or>
      (\<exists>v s'. rbind (f s) (\<lambda>(v, s). g v s) = Inr (v, s') \<and> r_inv s'
        \<and> m + length (unread s') \<le> length (unread s) \<and> Q v)"
  proof (cases rule: safelyE)
    case (2 v s1)
    with s(2) have "length (unread s1) < 2 ^ 31" by simp
    from g [OF 2(4)] 2(2) this show ?thesis
      by (cases rule: safelyE) (use 2(1,3) in auto)
  qed simp
qed

lemma safely_weaken: "safely f m P \<Longrightarrow> k \<le> m \<Longrightarrow> (\<And>v. P v \<Longrightarrow> Q v) \<Longrightarrow> safely f k Q"
  unfolding safely_def by (meson add_le_mono1 le_trans)

lemma safely_word: "safely (read_word rd :: 's \<Rightarrow> ('a::len word \<times> 's) res) (LENGTH('a) div 8) (\<lambda>_. True)"
  unfolding read_word_def [abs_def] by (rule safely_bind [OF safely_rd]) (rule safely_return, simp)

lemma safely_each:
  assumes f: "safely f 1 P" and s: "r_inv s" "i + length (unread s) < 2 ^ 31"
  shows "read_each f i n s = Inl end_of_stream \<or>
     (\<exists>vs s'. read_each f i n s = Inr (vs, s') \<and> r_inv s' \<and> length (unread s') \<le> length (unread s) \<and> list_all P vs)"
  using s
proof (induction n arbitrary: i s)
  case (Suc n)
  from Suc.prems have "length (unread s) < 2 ^ 31" by simp
  with f Suc.prems(1) show ?case
  proof (cases rule: safelyE)
    case (2 v s1)
    then have "Suc i + length (unread s1) < 2 ^ 31" "i \<noteq> 2 ^ 31 - 1" using Suc.prems(2) by simp_all
    with Suc.IH [OF 2(2)] 2 show ?thesis by fastforce
  qed simp
qed simp

lemma safely_vector:
  assumes "safely f m P" "1 \<le> m" "P dflt"
  shows "safely (resize_then_push dflt f n) 0 (list_all P)"
proof -
  have "safely f 1 P" by (rule safely_weaken [OF assms(1,2)])
  then have "safely (read_each f 0 (unat n)) 0 (list_all P)"
    using safely_each [of f P _ 0 "unat n"] unfolding safely_def by auto
  then show ?thesis
    unfolding resize_then_push_def [abs_def]
    by (rule safely_bind) (rule safely_return, use assms(3) in \<open>auto simp: list_all_iff\<close>)
qed

lemma safely_word_then:
  fixes g :: "'a::len word \<Rightarrow> 's \<Rightarrow> ('v \<times> 's) res"
  assumes "\<And>v. safely (g v) 0 Q" "m \<le> LENGTH('a) div 8"
  shows "safely (\<lambda>s. rbind (read_word rd s) (\<lambda>(v, s). g v s)) m Q"
  by (rule safely_weaken [OF safely_bind [OF safely_word assms(1)] assms(2)])

lemma safely_rd_then:
  assumes "\<And>b. length b = n \<Longrightarrow> safely (g b) 0 Q" "m \<le> n"
  shows "safely (\<lambda>s. rbind (rd n s) (\<lambda>(v, s). g v s)) m Q"
  by (rule safely_weaken [OF safely_bind [OF safely_rd assms(1)] assms(2)])

lemmas safely_rules = safely_word_then safely_rd_then safely_return

lemma safely_input: "safely (deserialize_input rd) 1 (\<lambda>_. True)"
  unfolding deserialize_input_def [abs_def] by (rule safely_rules | simp)+

lemma safely_output: "safely (deserialize_output rd) 1 wf_output"
  unfolding deserialize_output_def [abs_def] by (rule safely_rules | simp add: wf_output_def)+

lemma safely_inputs_then:
  "(\<And>vs. safely (g vs) 0 Q) \<Longrightarrow>
   safely (\<lambda>s. rbind (resize_then_push empty_input (deserialize_input rd) n s) (\<lambda>(v, s). g v s)) 0 Q"
  by (rule safely_bind [OF safely_vector [OF safely_input]]) simp_all

lemma safely_outputs_then:
  "(\<And>vs. list_all wf_output vs \<Longrightarrow> safely (g vs) 0 Q) \<Longrightarrow>
   safely (\<lambda>s. rbind (resize_then_push empty_output (deserialize_output rd) n s) (\<lambda>(v, s). g v s)) 0 Q"
  by (rule safely_bind [OF safely_vector [OF safely_output]]) (simp_all add: wf_output_def empty_output_def)

lemma safely_tx: "safely (deserialize_tx rd) 1 wf_TX"
  unfolding deserialize_tx_def [abs_def]
  by (rule safely_rules safely_inputs_then safely_outputs_then | simp add: wf_TX_def)+

lemma safely_tx_then:
  "(\<And>tx. wf_TX tx \<Longrightarrow> safely (g tx) 0 Q) \<Longrightarrow>
   safely (\<lambda>s. rbind (deserialize_tx rd s) (\<lambda>(v, s). g v s)) 0 Q"
  by (rule safely_weaken [OF safely_bind [OF safely_tx]]) simp_all

lemma safely_txs_then:
  "(\<And>txs. list_all wf_TX txs \<Longrightarrow> safely (g txs) 0 Q) \<Longrightarrow>
   safely (\<lambda>s. rbind (resize_then_push empty_tx (deserialize_tx rd) n s) (\<lambda>(v, s). g v s)) 0 Q"
  by (rule safely_bind [OF safely_vector [OF safely_tx]]) (simp_all add: wf_TX_def empty_tx_def)

lemma safely_block: "safely (deserialize_block rd) 1 wf_Block"
  unfolding deserialize_block_def [abs_def]
  by (rule safely_rules safely_tx_then safely_txs_then | simp add: wf_Block_def)+

end


section \<open>Properties of the codec\<close>

lemma mr_new_cursor: "snd (mr_cursor (mr_new b)) = b"
  by (simp add: mr_cursor_def mr_new_def)

lemma mr_parses:
  assumes "mr_reader.parses f p v" "length p \<le> vec_max"
  shows "\<exists>r. f (mr_new p) = Inr (v, r) \<and> snd (mr_cursor r) = []"
    and "k < length p \<Longrightarrow> f (mr_new (take k p)) = Inl end_of_stream"
proof -
  from assms have "mr_reader.reads f p v" by (simp add: mr_reader.parses_def)
  from mr_reader.readsD [OF this mr_inv_new [OF assms(2)], of "[]"]
  show "\<exists>r. f (mr_new p) = Inr (v, r) \<and> snd (mr_cursor r) = []" by (auto simp: mr_new_cursor)
  assume "k < length p"
  then have "drop k p \<noteq> []" "p = snd (mr_cursor (mr_new (take k p))) @ drop k p" "mr_inv (mr_new (take k p))"
    using assms(2) by (simp_all add: mr_new_cursor)
  with assms(1) show "f (mr_new (take k p)) = Inl end_of_stream"
    unfolding mr_reader.parses_def by blast
qed

lemma padded_tx_id: "padded_tx tx = tx \<longleftrightarrow> tx_inputs tx = [] \<and> tx_outputs tx = []"
proof
  assume "padded_tx tx = tx"
  then have "length (tx_inputs (padded_tx tx)) = length (tx_inputs tx)"
    "length (tx_outputs (padded_tx tx)) = length (tx_outputs tx)" by simp_all
  then show "tx_inputs tx = [] \<and> tx_outputs tx = []" by (simp add: padded_tx_def)
next
  assume "tx_inputs tx = [] \<and> tx_outputs tx = []"
  then show "padded_tx tx = tx" by (cases tx) (simp add: padded_tx_def)
qed

lemma padded_block_id:
  "padded_block bl = bl \<longleftrightarrow> tx_list bl = [] \<and> tx_inputs (coinbase bl) = [] \<and> tx_outputs (coinbase bl) = []"
proof
  assume eq: "padded_block bl = bl"
  then have "length (tx_list (padded_block bl)) = length (tx_list bl)"
    "padded_tx (coinbase bl) = coinbase bl"
    by simp (metis (no_types) Block.select_convs(1) Block.surjective Block.update_convs(1) Block.update_convs(2) eq padded_block_def)
  then show "tx_list bl = [] \<and> tx_inputs (coinbase bl) = [] \<and> tx_outputs (coinbase bl) = []"
    by (simp add: padded_tx_id) (simp add: padded_block_def)
next
  assume "tx_list bl = [] \<and> tx_inputs (coinbase bl) = [] \<and> tx_outputs (coinbase bl) = []"
  moreover from this have "padded_tx (coinbase bl) = coinbase bl" by (simp add: padded_tx_id)
  ultimately show "padded_block bl = bl" by (cases bl) (simp add: padded_block_def)
qed

text \<open>
  C6: serializing a block on a stream appends exactly the block's wire format; from these bytes
  \<open>deserialize_block\<close> returns the block with the value-initialised elements that \<open>resize\<close>
  leaves before the real ones, consuming all of them, and from any proper prefix of them it
  reports the end of the stream. The block itself comes back only when it has no transactions
  and its coinbase has no inputs and outputs.
\<close>

theorem stream_codec_block:
  assumes "small_block bl" "bs_inv s" "bs_size s + length (block_wire bl) \<le> vec_max"
  shows "(\<exists>s'. serialize_block bs_write bl s = Inr s' \<and> fst (cursor s') = fst (cursor s) @ block_wire bl)
    \<and> (\<exists>r. deserialize_block mr_read (mr_new (block_wire bl)) = Inr (padded_block bl, r) \<and> snd (mr_cursor r) = [])
    \<and> (\<forall>k < length (block_wire bl).
         deserialize_block mr_read (mr_new (take k (block_wire bl))) = Inl end_of_stream)
    \<and> (padded_block bl = bl \<longleftrightarrow>
         tx_list bl = [] \<and> tx_inputs (coinbase bl) = [] \<and> tx_outputs (coinbase bl) = [])"
proof -
  have "length (block_wire bl) \<le> vec_max - bs_size s" "length (block_wire bl) \<le> vec_max"
    using assms(3) by linarith+
  with mr_parses [OF mr_reader.parses_block [OF assms(1)]]
    bs_writer.writesD [OF bs_writer.writes_block assms(2)]
  show ?thesis unfolding padded_block_id by blast
qed

definition sample_block :: Block where
  "sample_block = \<lparr>nonce = 7, timestamp = 1, prev_block_hash = replicate 32 0,
     coinbase = empty_tx, tx_list = [sample_tx 1]\<rparr>"

theorem stream_codec_block_witness:
  "(\<exists>s'. serialize_block bs_write sample_block bs_new = Inr s')
   \<and> (\<exists>r. deserialize_block mr_read (mr_new (block_wire sample_block)) = Inr (padded_block sample_block, r))"
proof -
  have "small_block sample_block"
    by (simp add: small_block_def sample_block_def small_tx_def empty_tx_def wf_TX_def sample_tx_def wf_output_def)
  moreover have "bs_size bs_new + length (block_wire sample_block) \<le> vec_max"
    by (simp add: bs_size_def bs_new_def sample_block_def block_wire_def tx_wire_def size_bytes_def
        sample_tx_def input_wire_def output_wire_def empty_tx_def vec_max_def)
  ultimately show ?thesis using stream_codec_block [of sample_block bs_new] by auto
qed

text \<open>One relay of a transaction: a node serializes it, the next one deserializes it.\<close>

definition relay_tx :: "TX \<Rightarrow> TX res" where
  "relay_tx tx = rbind (serialize_tx bs_write tx bs_new) (\<lambda>s. rmap fst (deserialize_tx mr_read (mr_new (bs_buf s))))"

fun relays :: "nat \<Rightarrow> TX \<Rightarrow> TX res" where
  "relays 0 tx = Inr tx"
| "relays (Suc k) tx = rbind (relay_tx tx) (relays k)"

lemma relay_tx_padded:
  assumes "small_tx tx" "length (tx_wire tx) \<le> vec_max"
  shows "relay_tx tx = Inr (padded_tx tx)"
proof -
  from bs_writer.writesD [OF bs_writer.writes_tx bs_inv_new, of tx] assms(2) obtain s where
    s: "serialize_tx bs_write tx bs_new = Inr s" "bs_inv s" "fst (cursor s) = tx_wire tx"
      "vec_max - bs_size s = vec_max - length (tx_wire tx)"
    by (auto simp: bs_size_def bs_new_def cursor_def)
  then have "bs_size s = length (tx_wire tx)" using assms(2) unfolding bs_inv_def by linarith
  with s(3) have "bs_size s = length (fst (cursor s))" by simp
  then have "bs_buf s = fst (cursor s)" by (simp add: cursor_def bs_size_def)
  with s have "serialize_tx bs_write tx bs_new = Inr s" "bs_buf s = tx_wire tx" by simp_all
  then show ?thesis
    using mr_parses(1) [OF mr_reader.parses_tx [OF assms(1)] assms(2)] by (auto simp: relay_tx_def)
qed

lemma length_concat_wire:
  "length (concat (map input_wire (replicate n empty_input @ is))) = 12 * n + length (concat (map input_wire is))"
  "length (concat (map output_wire (replicate m empty_output @ os))) = 33 * m + length (concat (map output_wire os))"
  by (induction n) (simp_all add: input_wire_def empty_input_def size_bytes_def,
      induction m, simp_all add: output_wire_def empty_output_def)

lemma padded_wire:
  "length (tx_wire (padded_tx tx)) = length (tx_wire tx) + 12 * length (tx_inputs tx) + 33 * length (tx_outputs tx)"
  using length_concat_wire by (simp add: tx_wire_def padded_tx_def size_bytes_def del: map_append concat_append)

lemma padded_small:
  assumes "small_tx tx" "2 * length (tx_inputs tx) < 2 ^ 31" "2 * length (tx_outputs tx) < 2 ^ 31"
  shows "small_tx (padded_tx tx)"
  using assms by (auto simp: small_tx_def padded_tx_def wf_TX_def empty_input_def empty_output_def wf_output_def list_all_iff)

lemma relays_doubling:
  assumes "small_tx tx" "length (tx_inputs tx) * 2 ^ k < 2 ^ 31" "length (tx_outputs tx) * 2 ^ k < 2 ^ 31"
    and "length (tx_wire tx) + (12 * length (tx_inputs tx) + 33 * length (tx_outputs tx)) * (2 ^ k - 1) \<le> vec_max"
  shows "\<exists>tx'. relays k tx = Inr tx' \<and> length (tx_inputs tx') = 2 ^ k * length (tx_inputs tx)
    \<and> length (tx_outputs tx') = 2 ^ k * length (tx_outputs tx)
    \<and> drop ((2 ^ k - 1) * length (tx_inputs tx)) (tx_inputs tx') = tx_inputs tx"
  using assms
proof (induction k arbitrary: tx)
  case (Suc k)
  let ?n = "length (tx_inputs tx)" and ?m = "length (tx_outputs tx)"
  have len: "length (tx_inputs (padded_tx tx)) = 2 * ?n" "length (tx_outputs (padded_tx tx)) = 2 * ?m"
    by (simp_all add: padded_tx_def)
  have ge: "(1 :: nat) \<le> 2 ^ k" by simp
  then obtain p :: nat where "2 ^ k = Suc p" by (metis Suc_le_D One_nat_def)
  then have pow: "(2 :: nat) ^ k - 1 = p" "(2 :: nat) ^ Suc k - 1 = 1 + 2 * p" by simp_all
  have "2 * ?n \<le> ?n * 2 ^ Suc k" "2 * ?m \<le> ?m * 2 ^ Suc k" using ge by simp_all
  then have small: "small_tx (padded_tx tx)"
    using Suc.prems by (intro padded_small) linarith+
  have "length (tx_wire tx) \<le> vec_max" using Suc.prems(4) by linarith
  then have relay: "relay_tx tx = Inr (padded_tx tx)" by (rule relay_tx_padded [OF Suc.prems(1)])
  have wire: "length (tx_wire (padded_tx tx)) + (12 * (2 * ?n) + 33 * (2 * ?m)) * (2 ^ k - 1) \<le> vec_max"
    using Suc.prems(4) unfolding padded_wire pow by (simp add: algebra_simps)
  from Suc.IH [OF small] wire Suc.prems(2,3) obtain tx' where tx': "relays k (padded_tx tx) = Inr tx'"
    "length (tx_inputs tx') = 2 ^ k * (2 * ?n)" "length (tx_outputs tx') = 2 ^ k * (2 * ?m)"
    "drop ((2 ^ k - 1) * (2 * ?n)) (tx_inputs tx') = tx_inputs (padded_tx tx)"
    by (auto simp: len)
  have "(2 ^ Suc k - 1) * ?n = ?n + (2 ^ k - 1) * (2 * ?n)" unfolding pow by simp
  then have "drop ((2 ^ Suc k - 1) * ?n) (tx_inputs tx') = drop ?n (tx_inputs (padded_tx tx))"
    using tx'(4) by (metis drop_drop)
  then show ?case using tx' relay by (simp add: padded_tx_def)
qed simp

text \<open>
  Each relay doubles the numbers of inputs and outputs: after \<open>k\<close> hops a transaction with
  \<open>n\<close> inputs has \<open>2 ^ k * n\<close> of them, the genuine ones last, as long as the sizes stay within
  the format.
\<close>

theorem relays_double_transactions:
  assumes "small_tx tx" "length (tx_inputs tx) * 2 ^ k < 2 ^ 31" "length (tx_outputs tx) * 2 ^ k < 2 ^ 31"
    and "length (tx_wire tx) + (12 * length (tx_inputs tx) + 33 * length (tx_outputs tx)) * (2 ^ k - 1) \<le> vec_max"
  shows "\<exists>tx'. relays k tx = Inr tx' \<and> length (tx_inputs tx') = 2 ^ k * length (tx_inputs tx)
    \<and> length (tx_outputs tx') = 2 ^ k * length (tx_outputs tx)
    \<and> drop ((2 ^ k - 1) * length (tx_inputs tx)) (tx_inputs tx') = tx_inputs tx"
  using assms by (rule relays_doubling)

theorem relays_double_transactions_witness:
  "\<exists>tx'. relays 3 (sample_tx 1) = Inr tx' \<and> length (tx_inputs tx') = 8"
proof -
  have "small_tx (sample_tx 1)"
    by (simp add: small_tx_def sample_tx_def wf_TX_def wf_output_def)
  moreover have "length (tx_wire (sample_tx 1)) \<le> 1000"
    by (simp add: tx_wire_def size_bytes_def sample_tx_def input_wire_def output_wire_def)
  ultimately show ?thesis
    using relays_double_transactions [of "sample_tx 1" 3] by (auto simp: sample_tx_def vec_max_def)
qed



end
