(* ===== verification/Peer.thy ===== *)
theory Peer
  imports Protocol "HOL-Library.Sublist"
begin

text \<open>
  One end of a connection (\<open>p2p-network/src/peer.cpp\<close>, \<open>uuid.cpp\<close>): its identity and its
  sending side. The handlers of a peer run one at a time on its strand, so each is a function
  on the record of the peer. Asio is an environment of events: a posted \<open>send\<close> runs, an
  \<open>async_write\<close> completes or fails. \<open>writing\<close> and \<open>reading\<close> say which asynchronous operation
  is outstanding, \<open>tasks\<close> are the lambdas posted to the strand and \<open>socket_out\<close> the bytes
  that completed writes have handed to the socket.
\<close>

section \<open>uuid\<close>

type_synonym uuid = bytes

definition hex_lower :: string where "hex_lower = ''0123456789abcdef''"
definition hex_upper :: string where "hex_upper = ''0123456789ABCDEF''"

fun hex_digits :: "string \<Rightarrow> bytes \<Rightarrow> string" where
  "hex_digits hex [] = []"
| "hex_digits hex (c # cs) =
     hex ! unat (drop_bit 4 (and c 0xF0)) # hex ! unat (and c 0x0F) # hex_digits hex cs"

record uuid_format =
  dashes :: bool
  uppercase :: bool
  braces :: bool

definition stringfy :: "uuid_format \<Rightarrow> uuid \<Rightarrow> string" where
  "stringfy fmt vec =
     (let hex = (if uppercase fmt then hex_upper else hex_lower);
          text = hex_digits hex vec;
          text = (if dashes fmt
                  then insert_at 23 ''-'' (insert_at 18 ''-'' (insert_at 13 ''-'' (insert_at 8 ''-'' text)))
                  else text)
      in if braces fmt then ''{'' @ text @ ''}'' else text)"

definition uuid_eq :: "uuid \<Rightarrow> uuid \<Rightarrow> bool" where
  "uuid_eq this other \<longleftrightarrow> list_all2 (=) other (take (length other) this)"

lemma uuid_eq_16: "length u = 16 \<Longrightarrow> length v = 16 \<Longrightarrow> uuid_eq u v \<longleftrightarrow> u = v"
  by (auto simp: uuid_eq_def list_all2_eq [symmetric])

lemma low_nibble: "unat (and c 0x0F :: u8) = unat c mod 16"
proof -
  have "(0x0F :: u8) = mask 4" by (simp add: mask_eq_exp_minus_1)
  then have "and c 0x0F = take_bit 4 c" by (simp add: take_bit_eq_mask)
  then have "unat (and c 0x0F) = take_bit 4 (unat c)" by (simp only: unsigned_take_bit_eq)
  then show ?thesis by (simp only: take_bit_eq_mod) simp
qed

lemma high_nibble: "unat (drop_bit 4 (and c 0xF0) :: u8) = unat c div 16"
proof -
  have "drop_bit 4 (and c 0xF0) = and (drop_bit 4 c) (drop_bit 4 (0xF0 :: u8))" by (rule drop_bit_and)
  also have "drop_bit 4 (0xF0 :: u8) = 0x0F" by simp
  finally have "unat (drop_bit 4 (and c 0xF0) :: u8) = unat (drop_bit 4 c) mod 16"
    by (simp only: low_nibble)
  also have "unat (drop_bit 4 c) = unat c div 16"
    by (simp add: drop_bit_eq_div unat_div_distrib)
  finally have "unat (drop_bit 4 (and c 0xF0) :: u8) = unat c div 16 mod 16" .
  then show ?thesis using unat_byte_less [of c] by simp
qed

lemma hex_digits_nibbles:
  "hex_digits hex cs = concat (map (\<lambda>c. [hex ! (unat c div 16), hex ! (unat c mod 16)]) cs)"
  by (induction cs) (simp_all only: hex_digits.simps low_nibble high_nibble list.map concat.simps append.simps)

lemma length_hex_digits [simp]: "length (hex_digits hex cs) = 2 * length cs"
  by (induction cs) simp_all

definition hex_alphabet :: "string \<Rightarrow> bool" where
  "hex_alphabet hex \<longleftrightarrow> length hex = 16 \<and> distinct hex \<and> set hex \<inter> set ''-{}'' = {}"

lemma hex_alphabets: "hex_alphabet hex_lower" "hex_alphabet hex_upper"
  by (simp_all add: hex_alphabet_def hex_lower_def hex_upper_def)

lemma hex_digits_inject:
  assumes "hex_alphabet hex"
  shows "hex_digits hex cs = hex_digits hex ds \<longleftrightarrow> cs = ds"
proof (induction cs arbitrary: ds)
  case Nil
  then show ?case by (cases ds) simp_all
next
  case (Cons c cs)
  show ?case
  proof (cases ds)
    case (Cons d ds')
    have d: "hex ! a = hex ! b \<longleftrightarrow> a = b" if "a < 16" "b < 16" for a b
      using assms that by (simp add: hex_alphabet_def nth_eq_iff_index_eq)
    have "unat c div 16 < 16" "unat d div 16 < 16"
      using unat_byte_less [of c] unat_byte_less [of d] by linarith+
    moreover have "unat c mod 16 < 16" "unat d mod 16 < 16" by simp_all
    moreover have "(unat c div 16 = unat d div 16 \<and> unat c mod 16 = unat d mod 16) \<longleftrightarrow> c = d"
      by (metis mult_div_mod_eq word_unat_eq_iff)
    ultimately have "(hex ! (unat c div 16) = hex ! (unat d div 16) \<and> hex ! (unat c mod 16) = hex ! (unat d mod 16)) \<longleftrightarrow> c = d"
      using d by presburger
    with Cons Cons.IH [of ds'] show ?thesis by (simp only: hex_digits_nibbles list.map concat.simps append.simps list.inject) blast
  qed simp
qed

lemma hex_digits_plain:
  assumes "hex_alphabet hex"
  shows "filter (\<lambda>x. x \<notin> set ''-{}'') (hex_digits hex cs) = hex_digits hex cs"
proof -
  have "hex ! (unat c div 16) \<in> set hex \<and> hex ! (unat c mod 16) \<in> set hex" for c :: u8
  proof -
    have "unat c div 16 < 16" using unat_byte_less [of c] by linarith
    with assms show ?thesis by (auto simp: hex_alphabet_def)
  qed
  then have "set (hex_digits hex cs) \<subseteq> set hex"
    unfolding hex_digits_nibbles by (induction cs) simp_all
  then have "\<forall>x \<in> set (hex_digits hex cs). x \<notin> set ''-{}''"
    using assms unfolding hex_alphabet_def by blast
  then show ?thesis by (rule filter_True)
qed

lemma filter_insert_at: "\<not> P x \<Longrightarrow> filter P (insert_at i [x] xs) = filter P xs"
  by (simp add: insert_at_def) (metis append_take_drop_id filter_append)

definition hex_of :: "uuid_format \<Rightarrow> string" where
  "hex_of fmt = (if uppercase fmt then hex_upper else hex_lower)"

lemma stringfy_plain: "filter (\<lambda>x. x \<notin> set ''-{}'') (stringfy fmt u) = hex_digits (hex_of fmt) u"
proof -
  have "hex_alphabet (hex_of fmt)" by (simp add: hex_of_def hex_alphabets)
  from hex_digits_plain [OF this, of u] show ?thesis
    by (simp add: stringfy_def Let_def hex_of_def [symmetric] filter_insert_at)
qed

text \<open>
  The text of an identity has 32 hexadecimal digits, four dashes and two braces as the
  format says; the digits are the nibbles of the bytes in order, and two identities with the same
  text are the same.
\<close>

theorem uuid_text:
  assumes "length u = 16"
  shows "length (stringfy fmt u) = 32 + (if dashes fmt then 4 else 0) + (if braces fmt then 2 else 0)
    \<and> filter (\<lambda>x. x \<notin> set ''-{}'') (stringfy fmt u)
        = concat (map (\<lambda>c. [hex_of fmt ! (unat c div 16), hex_of fmt ! (unat c mod 16)]) u)
    \<and> (stringfy fmt u = stringfy fmt v \<longleftrightarrow> u = v)"
proof -
  have "length (stringfy fmt u) = 32 + (if dashes fmt then 4 else 0) + (if braces fmt then 2 else 0)"
    using assms by (simp add: stringfy_def Let_def)
  moreover have "stringfy fmt u = stringfy fmt v \<Longrightarrow> u = v"
    using hex_digits_inject [of "hex_of fmt" u v] by (metis hex_alphabets hex_of_def stringfy_plain)
  ultimately show ?thesis using stringfy_plain [of fmt u] by (auto simp: hex_digits_nibbles)
qed

theorem uuid_text_witness:
  "length (stringfy \<lparr>dashes = True, uppercase = False, braces = True\<rparr> (replicate 16 0xAB)) = 38"
  using uuid_text [of "replicate 16 0xAB" "\<lparr>dashes = True, uppercase = False, braces = True\<rparr>"] by simp

section \<open>The sending side of a peer\<close>

record peer =
  uuid :: uuid
  proto :: protocol
  send_buffer :: bytes
  sending :: bool
  reading :: bool
  writing :: bool
  tasks :: "message list"
  socket_out :: bytes
  counted :: bool

text \<open>
  A new peer; \<open>counted\<close> tells whether \<open>on_session_end_\<close> is the callback of a server (which
  counts its connections) or the default that does nothing.
\<close>

definition peer_new :: "uuid \<Rightarrow> bool \<Rightarrow> peer" where
  "peer_new u c = \<lparr>uuid = u, proto = protocol_new, send_buffer = [], sending = False, reading = False,
     writing = False, tasks = [], socket_out = [], counted = c\<rparr>"

definition do_write :: "peer \<Rightarrow> peer res" where
  "do_write p =
     (if sending p then Inr p
      else if has_packet (proto p)
      then rbind (get_packet (proto p)) (\<lambda>(pkt, pr).
             Inr (p\<lparr>proto := pr, send_buffer := pkt, sending := True, writing := True\<rparr>))
      else Inr p)"

text \<open>\<open>peer::send\<close>: on the peer's own strand the lambda runs at once, from elsewhere it is posted.\<close>

definition send_now :: "message \<Rightarrow> peer \<Rightarrow> peer res" where
  "send_now msg p =
     rbind (message_copy msg) (\<lambda>cmsg.
     rbind (protocol_send cmsg (proto p)) (\<lambda>pr.
     do_write (p\<lparr>proto := pr\<rparr>)))"

definition send_post :: "message \<Rightarrow> peer \<Rightarrow> peer res" where
  "send_post msg p = rbind (message_copy msg) (\<lambda>cmsg. Inr (p\<lparr>tasks := tasks p @ [cmsg]\<rparr>))"

definition run_task :: "peer \<Rightarrow> peer res" where
  "run_task p =
     (case tasks p of
        [] \<Rightarrow> Inr p
      | cmsg # rest \<Rightarrow>
          rbind (protocol_send cmsg (proto p)) (\<lambda>pr. do_write (p\<lparr>tasks := rest, proto := pr\<rparr>)))"

text \<open>
  The completion of \<open>async_write\<close>: without an error the whole buffer has been written, with one
  the first \<open>n\<close> bytes of it.
\<close>

definition write_done :: "peer \<Rightarrow> peer res" where
  "write_done p =
     (let p = p\<lparr>writing := False, socket_out := socket_out p @ send_buffer p\<rparr>;
          p = p\<lparr>sending := False\<rparr>
      in if has_packet (proto p) then do_write p else Inr p)"

definition write_failed :: "nat \<Rightarrow> peer \<Rightarrow> peer" where
  "write_failed n p = p\<lparr>writing := False, socket_out := socket_out p @ take n (send_buffer p)\<rparr>"

section \<open>Runs of the sending side\<close>

datatype peer_event = Ev_post message | Ev_task message | Ev_send message | Ev_written | Ev_write_failed nat

inductive peer_step :: "peer \<Rightarrow> peer_event \<Rightarrow> peer \<Rightarrow> bool" where
  post: "send_post m p = Inr p' \<Longrightarrow> peer_step p (Ev_post m) p'"
| task: "tasks p = m # ms \<Longrightarrow> run_task p = Inr p' \<Longrightarrow> peer_step p (Ev_task m) p'"
| send: "send_now m p = Inr p' \<Longrightarrow> peer_step p (Ev_send m) p'"
| written: "writing p \<Longrightarrow> write_done p = Inr p' \<Longrightarrow> peer_step p Ev_written p'"
| failed: "writing p \<Longrightarrow> peer_step p (Ev_write_failed n) (write_failed n p)"

inductive peer_run :: "peer \<Rightarrow> peer_event list \<Rightarrow> peer \<Rightarrow> bool" where
  start: "peer_run p [] p"
| snoc: "peer_run p es p' \<Longrightarrow> peer_step p' e p'' \<Longrightarrow> peer_run p (es @ [e]) p''"

inductive_cases peer_step_elim: "peer_step p e p'"

lemmas peer_stepE = peer_step_elim [consumes 1, case_names post task send written failed]

inductive_simps peer_step_simps:
  "peer_step p (Ev_post m) p'" "peer_step p (Ev_task m) p'" "peer_step p (Ev_send m) p'"
  "peer_step p Ev_written p'" "peer_step p (Ev_write_failed n) p'"

text \<open>The messages that have reached \<open>protocol::send\<close>, in order; whether a write has failed.\<close>

fun handed :: "peer_event list \<Rightarrow> message list" where
  "handed [] = []"
| "handed (Ev_task m # es) = m # handed es"
| "handed (Ev_send m # es) = m # handed es"
| "handed (_ # es) = handed es"

fun is_failure :: "peer_event \<Rightarrow> bool" where
  "is_failure (Ev_write_failed n) \<longleftrightarrow> True"
| "is_failure _ \<longleftrightarrow> False"

lemma handed_append [simp]: "handed (es @ es') = handed es @ handed es'"
  by (induction es rule: handed.induct) auto

definition queue_ok :: "peer \<Rightarrow> bool" where
  "queue_ok p \<longleftrightarrow> max_pkt_size (proto p) = 10240 \<and> list_all small (send_queue (proto p))"

definition inflight :: "peer \<Rightarrow> bytes" where
  "inflight p = (if writing p then send_buffer p else [])"

definition pending :: "peer \<Rightarrow> bytes" where
  "pending p = inflight p @ concat (map frame (send_queue (proto p)))"

text \<open>The states of the sending side: in order, or dead after a failed write.\<close>

definition in_order :: "peer \<Rightarrow> message list \<Rightarrow> bool" where
  "in_order p ms \<longleftrightarrow> queue_ok p \<and> socket_out p @ pending p = concat (map frame ms)
     \<and> (sending p \<longleftrightarrow> writing p) \<and> (\<not> sending p \<longrightarrow> send_queue (proto p) = [])"

definition broken :: "peer \<Rightarrow> message list \<Rightarrow> bool" where
  "broken p ms \<longleftrightarrow> queue_ok p \<and> prefix (socket_out p) (concat (map frame ms)) \<and> sending p \<and> \<not> writing p"

lemma protocol_send_Inr:
  assumes "protocol_send m pr = Inr pr'" "max_pkt_size pr = 10240"
  shows "\<exists>c. pr' = pr\<lparr>send_queue := send_queue pr @ [c]\<rparr> \<and> frame c = frame m \<and> small c"
proof -
  from assms have "length (payload m) \<le> max_pkt_size pr"
    by (auto simp: protocol_send_def bs_size_def payload_def split: if_splits)
  moreover have "max_pkt_size pr + 6 \<le> vec_max" using assms(2) by (simp add: vec_max_def)
  ultimately obtain c where "protocol_send m pr = Inr (pr\<lparr>send_queue := send_queue pr @ [c]\<rparr>)"
    "payload c = payload m" "header c = header m" "small c"
    using protocol_send_ok [of m pr] by blast
  moreover from this have "frame c = frame m" by (intro frame_cong)
  ultimately show ?thesis using assms(1) by auto
qed

lemma do_write_idle:
  assumes "queue_ok p" "\<not> sending p" "\<not> writing p"
  shows "\<exists>p'. do_write p = Inr p' \<and> queue_ok p' \<and> socket_out p' = socket_out p \<and> pending p' = pending p
    \<and> (sending p' \<longleftrightarrow> writing p') \<and> (\<not> sending p' \<longrightarrow> send_queue (proto p') = [])"
proof (cases "send_queue (proto p)")
  case Nil
  with assms show ?thesis by (simp add: do_write_def has_packet_def)
next
  case (Cons m q)
  with assms(1) have "small m" by (simp add: queue_ok_def)
  from get_packet_frame [OF Cons this] assms Cons show ?thesis
    by (simp add: do_write_def has_packet_def queue_ok_def pending_def inflight_def)
qed

lemma enqueue_in_order:
  assumes "in_order p ms" "frame c = frame m" "small c"
    "q = p\<lparr>tasks := ts, proto := (proto p)\<lparr>send_queue := send_queue (proto p) @ [c]\<rparr>\<rparr>"
  shows "\<exists>p'. do_write q = Inr p' \<and> in_order p' (ms @ [m])"
proof (cases "sending p")
  case True
  with assms show ?thesis
    by (auto simp: do_write_def in_order_def queue_ok_def pending_def inflight_def)
next
  case False
  with assms have q: "queue_ok q" "\<not> sending q" "\<not> writing q" "socket_out q @ pending q = concat (map frame (ms @ [m]))"
    by (auto simp: in_order_def queue_ok_def pending_def inflight_def)
  from do_write_idle [OF q(1-3)] q(4) show ?thesis by (auto simp: in_order_def)
qed

lemma enqueue_broken:
  assumes "broken p ms" "small c"
    "q = p\<lparr>tasks := ts, proto := (proto p)\<lparr>send_queue := send_queue (proto p) @ [c]\<rparr>\<rparr>"
  shows "do_write q = Inr q \<and> broken q (ms @ [m])"
  using assms by (auto simp: do_write_def broken_def queue_ok_def prefix_def)


lemma copy_frame: "message_copy m = Inr c \<Longrightarrow> frame c = frame m"
  by (rule frame_cong)
    (auto simp: message_copy_def Let_def message_ext bs_write_def bs_size_def payload_def insert_at_def split: if_splits)

lemma failure_hands_nothing: "is_failure e \<Longrightarrow> handed [e] = []"
  by (cases e) auto

lemma in_order_step:
  assumes "peer_step p e p'" "in_order p ms"
  shows "if is_failure e then broken p' ms else in_order p' (ms @ handed [e])"
  using assms
proof (cases rule: peer_stepE)
  case (post m)
  with assms(2) show ?thesis
    by (auto simp: send_post_def rbind_eq_Inr in_order_def queue_ok_def pending_def inflight_def)
next
  case (task m rest)
  then obtain pr where pr: "protocol_send m (proto p) = Inr pr" "do_write (p\<lparr>tasks := rest, proto := pr\<rparr>) = Inr p'"
    by (auto simp: run_task_def rbind_eq_Inr)
  from assms(2) have "max_pkt_size (proto p) = 10240" by (simp add: in_order_def queue_ok_def)
  from protocol_send_Inr [OF pr(1) this] obtain c where
    c: "pr = proto p\<lparr>send_queue := send_queue (proto p) @ [c]\<rparr>" "frame c = frame m" "small c" by blast
  from enqueue_in_order [OF assms(2) c(2,3) refl, of rest] pr(2) c(1) task(1) show ?thesis by auto
next
  case (send m)
  then obtain c pr where pr: "message_copy m = Inr c" "protocol_send c (proto p) = Inr pr"
    "do_write (p\<lparr>proto := pr\<rparr>) = Inr p'"
    by (auto simp: send_now_def rbind_eq_Inr)
  from assms(2) have "max_pkt_size (proto p) = 10240" by (simp add: in_order_def queue_ok_def)
  from protocol_send_Inr [OF pr(2) this] obtain d where d: "pr = proto p\<lparr>send_queue := send_queue (proto p) @ [d]\<rparr>"
    "frame d = frame m" "small d" using copy_frame [OF pr(1)] by auto
  have "p\<lparr>proto := pr\<rparr> = p\<lparr>tasks := tasks p, proto := (proto p)\<lparr>send_queue := send_queue (proto p) @ [d]\<rparr>\<rparr>"
    using d(1) by simp
  from enqueue_in_order [OF assms(2) d(2,3) this] pr(3) send(1) show ?thesis by auto
next
  case written
  let ?q = "p\<lparr>writing := False, socket_out := socket_out p @ send_buffer p, sending := False\<rparr>"
  from written assms(2) have q: "queue_ok ?q" "\<not> sending ?q" "\<not> writing ?q"
    "socket_out ?q @ pending ?q = concat (map frame ms)"
    by (auto simp: in_order_def queue_ok_def pending_def inflight_def)
  from written have "do_write ?q = Inr p' \<or> \<not> has_packet (proto ?q) \<and> p' = ?q"
    by (auto simp: write_done_def Let_def split: if_splits)
  then have "do_write ?q = Inr p'" by (auto simp: do_write_def)
  with do_write_idle [OF q(1-3)] q(4) written(1) show ?thesis by (auto simp: in_order_def)
next
  case (failed n)
  with assms(2) have "socket_out p @ take n (send_buffer p) @ drop n (send_buffer p) @ concat (map frame (send_queue (proto p)))
      = concat (map frame ms)"
    by (simp add: in_order_def pending_def inflight_def) (metis append.assoc append_take_drop_id)
  then have "prefix (socket_out p @ take n (send_buffer p)) (concat (map frame ms))"
    by (metis append.assoc prefixI)
  with failed assms(2) show ?thesis
    by (auto simp: broken_def in_order_def queue_ok_def write_failed_def)
qed

lemma broken_step:
  assumes "peer_step p e p'" "broken p ms"
  shows "broken p' (ms @ handed [e]) \<and> socket_out p' = socket_out p \<and> \<not> is_failure e"
  using assms
proof (cases rule: peer_stepE)
  case (post m)
  with assms(2) show ?thesis by (auto simp: send_post_def rbind_eq_Inr broken_def queue_ok_def)
next
  case (task m rest)
  then obtain pr where pr: "protocol_send m (proto p) = Inr pr" "do_write (p\<lparr>tasks := rest, proto := pr\<rparr>) = Inr p'"
    by (auto simp: run_task_def rbind_eq_Inr)
  from assms(2) have "max_pkt_size (proto p) = 10240" by (simp add: broken_def queue_ok_def)
  from protocol_send_Inr [OF pr(1) this] pr(2) enqueue_broken [OF assms(2) _ refl] task(1,2)
  show ?thesis by auto
next
  case (send m)
  then obtain c pr where pr: "protocol_send c (proto p) = Inr pr" "do_write (p\<lparr>proto := pr\<rparr>) = Inr p'"
    by (auto simp: send_now_def rbind_eq_Inr)
  from assms(2) have "max_pkt_size (proto p) = 10240" by (simp add: broken_def queue_ok_def)
  from protocol_send_Inr [OF pr(1) this] obtain d where d: "pr = proto p\<lparr>send_queue := send_queue (proto p) @ [d]\<rparr>"
    "small d" by auto
  have "p\<lparr>proto := pr\<rparr> = p\<lparr>tasks := tasks p, proto := (proto p)\<lparr>send_queue := send_queue (proto p) @ [d]\<rparr>\<rparr>"
    using d(1) by simp
  from enqueue_broken [OF assms(2) d(2) this, of m] pr(2) send(1) show ?thesis by auto
qed (auto simp: broken_def)

lemma fresh_in_order: "in_order (peer_new u c) []"
  by (simp add: in_order_def peer_new_def protocol_new_def queue_ok_def pending_def inflight_def)

lemma peer_run_invariant:
  assumes "peer_run p es p'" "in_order p []"
  shows "if list_ex is_failure es then broken p' (handed es) else in_order p' (handed es)"
  using assms
proof (induction rule: peer_run.induct)
  case (snoc p es p' e p'')
  show ?case
  proof (cases "list_ex is_failure es")
    case True
    with snoc broken_step [OF snoc.hyps(2)] show ?thesis by auto
  next
    case False
    with snoc in_order_step [OF snoc.hyps(2)] show ?thesis by (auto simp: failure_hands_nothing split: if_splits)
  qed
qed simp


section \<open>Properties of a peer\<close>

text \<open>
  C13: the bytes on the wire are the frames of the messages in the order in which they reached
  the protocol. As long as no write has failed, one write at most is outstanding, exactly while
  \<open>sending_\<close> is set, what has been written, is being written and is queued adds up to the frames
  of all messages handed over, and nothing is queued while no write is outstanding (no message is
  forgotten). After a failed write, \<open>sending_\<close> stays set with no write outstanding, the wire
  holds a prefix of those frames, and no step writes another byte or completes a write.
\<close>

theorem peer_writes_in_order:
  assumes "peer_run (peer_new u c) es p"
  shows "if list_ex is_failure es
    then sending p \<and> \<not> writing p \<and> prefix (socket_out p) (concat (map frame (handed es)))
      \<and> (\<forall>e p'. peer_step p e p' \<longrightarrow> socket_out p' = socket_out p \<and> sending p' \<and> \<not> writing p')
    else socket_out p @ (if writing p then send_buffer p else []) @ concat (map frame (send_queue (proto p)))
           = concat (map frame (handed es))
      \<and> (sending p \<longleftrightarrow> writing p) \<and> (\<not> writing p \<longrightarrow> send_queue (proto p) = [])"
proof (cases "list_ex is_failure es")
  case True
  with peer_run_invariant [OF assms fresh_in_order] have b: "broken p (handed es)" by simp
  from broken_step [OF _ this] b True show ?thesis unfolding broken_def by auto
next
  case False
  with peer_run_invariant [OF assms fresh_in_order] have "in_order p (handed es)" by simp
  with False show ?thesis by (auto simp: in_order_def pending_def inflight_def)
qed

theorem peer_writes_in_order_witness:
  "\<exists>p. peer_run (peer_new [] False) [Ev_send (message_new 0 1 1), Ev_send (message_new 0 2 1), Ev_written] p
     \<and> writing p
     \<and> socket_out p @ send_buffer p @ concat (map frame (send_queue (proto p))) = [0, 0, 0, 0, 1, 1, 0, 0, 0, 0, 2, 1]"
proof -
  let ?es = "[Ev_send (message_new 0 1 1), Ev_send (message_new 0 2 1)]"
  have f: "frame (message_new 0 t l) = [0, 0, 0, 0, t, l]" for t l
    by (simp add: frame_def message_new_def payload_def message_ext header_bytes_def mem_of_word_def)
  note eval = send_now_def message_copy_ok protocol_send_def do_write_def has_packet_def
    write_done_def Let_def bs_size_def message_new_def message_ext payload_def vec_max_def
    get_packet_def bs_write_def insert_at_def
  obtain p1 where 1: "send_now (message_new 0 1 1) (peer_new [] False) = Inr p1" "writing p1" "sending p1"
     "send_queue (proto p1) = []" "max_pkt_size (proto p1) = 10240"
    by (simp add: eval peer_new_def protocol_new_def)
  obtain p2 where 2: "send_now (message_new 0 2 1) p1 = Inr p2" "writing p2" "send_queue (proto p2) = [message_new 0 2 1]"
    using 1 by (simp add: eval)
  obtain p3 where 3: "write_done p2 = Inr p3" "writing p3"
    using 2 by (simp add: eval)
  have "peer_run (peer_new [] False) ([] @ [Ev_send (message_new 0 1 1)]) p1"
    by (rule peer_run.snoc [OF peer_run.start]) (rule peer_step.send [OF 1(1)])
  from peer_run.snoc [OF this peer_step.send [OF 2(1)]]
  have "peer_run (peer_new [] False) ?es p2" by simp
  from peer_run.snoc [OF this peer_step.written [OF 2(2) 3(1)]]
  have run: "peer_run (peer_new [] False) (?es @ [Ev_written]) p3" .
  from peer_writes_in_order [OF this] 3(2) f run show ?thesis by (intro exI [of _ p3]) simp
qed

definition to_write :: "peer \<Rightarrow> nat" where
  "to_write p = length (send_queue (proto p)) + (if writing p then 1 else 0)"

lemma write_done_progress:
  assumes "in_order p ms" "writing p"
  shows "\<exists>p'. write_done p = Inr p' \<and> Suc (to_write p') = to_write p \<and> tasks p' = tasks p"
proof (cases "send_queue (proto p)")
  case Nil
  with assms(2) show ?thesis by (simp add: write_done_def has_packet_def to_write_def)
next
  case (Cons m q)
  with assms(1) have "small m" by (simp add: in_order_def queue_ok_def)
  from get_packet_frame [OF Cons this] Cons assms show ?thesis
    by (auto simp: write_done_def do_write_def has_packet_def to_write_def Let_def)
qed

lemma drains:
  assumes "peer_run p0 es p" "in_order p ms"
  shows "\<exists>p'. peer_run p0 (es @ replicate (to_write p) Ev_written) p' \<and> in_order p' ms \<and> \<not> writing p' \<and> tasks p' = tasks p"
  using assms
proof (induction "to_write p" arbitrary: es p)
  case 0
  then show ?case by (intro exI [of _ p]) (simp add: to_write_def split: if_splits)
next
  case (Suc n)
  have w: "writing p" using Suc.hyps(2) Suc.prems(2) by (auto simp: to_write_def in_order_def split: if_splits)
  from write_done_progress [OF Suc.prems(2) w] obtain q where
    q: "write_done p = Inr q" "Suc (to_write q) = to_write p" "tasks q = tasks p" by blast
  have step: "peer_step p Ev_written q" using w q(1) by (rule peer_step.written)
  have "in_order q ms" using in_order_step [OF step Suc.prems(2)] by simp
  moreover have "n = to_write q" using Suc.hyps(2) q(2) by simp
  ultimately obtain p' where "peer_run p0 ((es @ [Ev_written]) @ replicate (to_write q) Ev_written) p'" "in_order p' ms"
      "\<not> writing p'" "tasks p' = tasks q"
    using Suc.hyps(1) [of q "es @ [Ev_written]"] peer_run.snoc [OF Suc.prems(1) step] by blast
  then show ?case using q(2,3) by (metis append.assoc append_Cons append_Nil replicate_Suc)
qed

text \<open>
  C14: Every message is written in the end. As long as no write has failed, one completed write for the
  buffer in flight and one for each queued message, and no other event, bring the frames of all
  messages that reached the protocol onto the wire, in order, and leave the peer idle.
\<close>

theorem queue_drains:
  assumes "peer_run (peer_new u c) es p" "\<not> list_ex is_failure es"
  shows "\<exists>p'. peer_run (peer_new u c) (es @ replicate (length (send_queue (proto p)) + (if writing p then 1 else 0)) Ev_written) p'
    \<and> socket_out p' = concat (map frame (handed es)) \<and> \<not> writing p' \<and> \<not> sending p' \<and> send_queue (proto p') = []"
proof -
  have "in_order p (handed es)" using peer_run_invariant [OF assms(1) fresh_in_order] assms(2) by simp
  from drains [OF assms(1) this] show ?thesis
    by (auto simp: to_write_def in_order_def pending_def inflight_def)
qed

theorem queue_drains_witness:
  "\<exists>p'. peer_run (peer_new [] False) [Ev_send (message_new 0 1 1), Ev_written] p' \<and> socket_out p' = [0, 0, 0, 0, 1, 1]"
proof -
  have f: "frame (message_new 0 1 1) = [0, 0, 0, 0, 1, 1]"
    by (simp add: frame_def message_new_def payload_def message_ext header_bytes_def mem_of_word_def)
  obtain p1 where 1: "send_now (message_new 0 1 1) (peer_new [] False) = Inr p1" "writing p1" "send_queue (proto p1) = []"
    by (simp add: send_now_def message_copy_ok protocol_send_def do_write_def has_packet_def Let_def bs_size_def message_new_def
        message_ext payload_def vec_max_def get_packet_def bs_write_def insert_at_def peer_new_def protocol_new_def)
  have "peer_run (peer_new [] False) ([] @ [Ev_send (message_new 0 1 1)]) p1"
    by (rule peer_run.snoc [OF peer_run.start]) (rule peer_step.send [OF 1(1)])
  then have "peer_run (peer_new [] False) [Ev_send (message_new 0 1 1)] p1" by simp
  from queue_drains [OF this] 1(2,3) f show ?thesis by auto
qed

end
