(* ===== verification/Node.thy ===== *)
theory Node
  imports Peer
begin

text \<open>
  The peers of a process together (\<open>p2p-network/src/peer_list.cpp\<close>, the reading side of
  \<open>peer.cpp\<close>, \<open>include/client.h\<close>, \<open>server.h\<close> and \<open>include/impl\<close>). Peers are objects with
  a number (their address, given out in the order they are started); \<open>peer_list\<close> holds weak
  pointers to them, empty or to a number, and a weak pointer can be locked while the object
  exists. What a peer does with messages it does not handle itself is the virtual function
  \<open>process_msg\<close>, a parameter that works on the state \<open>app\<close> of the application and may change
  the message. \<open>what\<close> gives the text of an exception.
\<close>

section \<open>State\<close>

datatype log_level = Log_info | Log_warn | Log_err | Log_critical

record 'app node =
  peer_list :: "nat option list"
  objs :: "nat \<Rightarrow> peer option"
  next_id :: nat
  max_connections :: nat
  connections :: u64
  log :: "(log_level \<times> string) list"
  app :: 'app

type_synonym 'app process = "message \<Rightarrow> 'app \<Rightarrow> (bool \<times> message) res \<times> 'app"

definition node_new :: "nat \<Rightarrow> 'app \<Rightarrow> 'app node" where
  "node_new max_con a = \<lparr>peer_list = [], objs = (\<lambda>_. None), next_id = 0, max_connections = max_con,
     connections = 0, log = [], app = a\<rparr>"

definition logs :: "log_level \<Rightarrow> string \<Rightarrow> 'app node \<Rightarrow> 'app node" where
  "logs lvl msg n = n\<lparr>log := log n @ [(lvl, msg)]\<rparr>"

definition set_peer :: "nat \<Rightarrow> peer \<Rightarrow> 'app node \<Rightarrow> 'app node" where
  "set_peer i p n = n\<lparr>objs := (objs n)(i \<mapsto> p)\<rparr>"

definition weak_lock :: "'app node \<Rightarrow> nat option \<Rightarrow> peer option" where
  "weak_lock n x = (case x of None \<Rightarrow> None | Some i \<Rightarrow> objs n i)"

section \<open>peer\_list\<close>

definition add_peer :: "nat \<Rightarrow> 'app node \<Rightarrow> 'app node" where
  "add_peer i n = n\<lparr>peer_list := peer_list n @ [Some i]\<rparr>"

text \<open>
  \<open>std::remove_if\<close> on a list: the elements to keep are moved to the front; behind them every
  position keeps the element it had, or what a moved-from element is left as.
\<close>

definition std_remove_if :: "('a \<Rightarrow> bool) \<Rightarrow> 'a \<Rightarrow> 'a list \<Rightarrow> 'a list" where
  "std_remove_if pred moved xs =
     (let kept = filter (\<lambda>x. \<not> pred x) xs
      in kept @ map (\<lambda>x. if pred x then x else moved) (drop (length kept) xs))"

text \<open>\<open>remove_peer\<close> calls \<open>std::remove_if\<close> and does not erase the rest of the list.\<close>

definition remove_peer :: "uuid \<Rightarrow> 'app node \<Rightarrow> 'app node" where
  "remove_peer ident n = n\<lparr>peer_list := std_remove_if
     (\<lambda>x. case weak_lock n x of Some spt \<Rightarrow> uuid_eq (uuid spt) ident | None \<Rightarrow> True) None (peer_list n)\<rparr>"

fun broadcast_each :: "message \<Rightarrow> uuid option \<Rightarrow> nat option list \<Rightarrow> 'app node \<Rightarrow> 'app node res" where
  "broadcast_each msg p [] n = Inr n"
| "broadcast_each msg p (x # xs) n =
     rbind (case (x, weak_lock n x) of
              (Some i, Some spt) \<Rightarrow>
                (if (case p of None \<Rightarrow> False | Some u \<Rightarrow> \<not> uuid_eq u (uuid spt))
                 then rmap (\<lambda>spt. set_peer i spt n) (send_post msg spt)
                 else Inr n)
            | _ \<Rightarrow> Inr n)
       (broadcast_each msg p xs)"

definition broadcast :: "message \<Rightarrow> uuid option \<Rightarrow> 'app node \<Rightarrow> 'app node res" where
  "broadcast msg p n = broadcast_each msg p (peer_list n) n"

definition peer_count :: "'app node \<Rightarrow> nat" where
  "peer_count n = length (peer_list n)"

section \<open>The reading side of a peer\<close>

definition MSG_TYPE_PING :: u8 where "MSG_TYPE_PING = 1"
definition MSG_TYPE_PONG :: u8 where "MSG_TYPE_PONG = 2"

lemmas msg_types = MSG_TYPE_PING_def MSG_TYPE_PONG_def

definition plain_dashes :: uuid_format where
  "plain_dashes = \<lparr>dashes = True, uppercase = False, braces = False\<rparr>"

text \<open>\<open>peer::process_msg\<close>, the default.\<close>

definition base_process_msg :: "'app process" where
  "base_process_msg msg a = (Inr (True, msg), a)"

text \<open>
  The handler that \<open>do_read\<close> passes to \<open>protocol::receive\<close>, for peer \<open>i\<close>: a message is
  answered (ping), noted (pong) or given to \<open>process_msg\<close>, then broadcast to the other peers
  while its hop count is not used up. \<open>junk\<close> is the content of the uninitialised \<open>size_\<close>
  of a new message.
\<close>

definition answer :: "u32 \<Rightarrow> 'app process \<Rightarrow> nat \<Rightarrow> message \<Rightarrow> 'app node \<Rightarrow> (bool \<times> message) res \<times> 'app node" where
  "answer junk process_msg i msg n =
     (case objs n i of
        None \<Rightarrow> (Inl (Undefined Dangling_reference), n)
      | Some this \<Rightarrow>
          if hdr_type (header msg) = MSG_TYPE_PING then
            (let n = logs Log_info (''pinged by '' @ stringfy plain_dashes (uuid this) @ '', sending pong...'') n;
                 response = message_new junk MSG_TYPE_PONG 1
             in case send_now response this of
                  Inl e \<Rightarrow> (Inl e, n)
                | Inr this \<Rightarrow> (Inr (True, msg), set_peer i this n))
          else if hdr_type (header msg) = MSG_TYPE_PONG then
            (Inr (True, msg), logs Log_info (''got pong from '' @ stringfy plain_dashes (uuid this)) n)
          else
            (case process_msg msg (app n) of (r, a) \<Rightarrow> (r, n\<lparr>app := a\<rparr>)))"

definition on_frame :: "u32 \<Rightarrow> 'app process \<Rightarrow> nat \<Rightarrow> 'app node handler" where
  "on_frame junk process_msg i n ev =
     (case ev of
        Ev_message msg \<Rightarrow>
          (case answer junk process_msg i msg n of
             (Inl e, n) \<Rightarrow> (Inl e, n)
           | (Inr (False, msg), n) \<Rightarrow> (Inr False, n)
           | (Inr (True, msg), n) \<Rightarrow>
               (if hdr_ttl (header msg) > 0
                then (case broadcast msg (map_option uuid (objs n i)) n of
                        Inl e \<Rightarrow> (Inl e, n)
                      | Inr n \<Rightarrow> (Inr True, n))
                else (Inr True, n)))
      | Ev_error pec \<Rightarrow>
          (Inr False, if pec = Success then logs Log_err (''peer::do_read: '' @ errc_message pec) n else n))"

fun is_exception :: "exn \<Rightarrow> bool" where
  "is_exception (Runtime_error s) \<longleftrightarrow> True"
| "is_exception (Logic_error s) \<longleftrightarrow> True"
| "is_exception Length_error \<longleftrightarrow> True"
| "is_exception _ \<longleftrightarrow> False"

definition do_read :: "nat \<Rightarrow> 'app node \<Rightarrow> 'app node" where
  "do_read i n = n\<lparr>objs := (objs n)(i := map_option (\<lambda>p. p\<lparr>reading := True\<rparr>) (objs n i))\<rparr>"

text \<open>
  The completion of \<open>async_read_some\<close> without an error, with the bytes read. \<open>receive\<close> works
  on the receiving fields of the protocol; the send queue is in the node, where the handler
  finds it.
\<close>

definition put_rx :: "nat \<Rightarrow> rx \<Rightarrow> 'app node \<Rightarrow> 'app node" where
  "put_rx i r n = n\<lparr>objs := (objs n)(i := map_option
     (\<lambda>p. p\<lparr>proto := (proto p)\<lparr>receive_buffer := receive_buffer r, recv_total_size := recv_total_size r,
              max_pkt_size := max_pkt_size r\<rparr>\<rparr>) (objs n i))\<rparr>"

definition read_done :: "u32 \<Rightarrow> 'app process \<Rightarrow> (exn \<Rightarrow> string) \<Rightarrow> nat \<Rightarrow> bytes \<Rightarrow> 'app node \<Rightarrow> 'app node res" where
  "read_done junk process_msg what i data n =
     (case objs n i of
        None \<Rightarrow> Inl (Undefined Dangling_reference)
      | Some this \<Rightarrow>
          (let n = set_peer i (this\<lparr>reading := False\<rparr>) n
           in if data = [] then Inr n
              else case receive (on_frame junk process_msg i) data (rx.truncate (proto this)) n of
                (Inr cont_read, r, n) \<Rightarrow>
                  (let n = put_rx i r n in Inr (if cont_read then do_read i n else n))
              | (Inl e, r, n) \<Rightarrow>
                  (if is_exception e then Inr (logs Log_err (''peer::do_read: '' @ what e) (put_rx i r n))
                   else Inl e)))"

definition read_failed :: "string \<Rightarrow> nat \<Rightarrow> 'app node \<Rightarrow> 'app node res" where
  "read_failed ec i n =
     (case objs n i of
        None \<Rightarrow> Inl (Undefined Dangling_reference)
      | Some this \<Rightarrow> Inr (logs Log_err (''peer::do_read: '' @ ec) (set_peer i (this\<lparr>reading := False\<rparr>) n)))"

section \<open>Sessions\<close>

definition peer_start :: "nat \<Rightarrow> 'app node \<Rightarrow> 'app node" where
  "peer_start i n = do_read i (add_peer i n)"

definition make_peer :: "uuid \<Rightarrow> bool \<Rightarrow> 'app node \<Rightarrow> 'app node" where
  "make_peer u cnt n = peer_start (next_id n) (n\<lparr>objs := (objs n)(next_id n \<mapsto> peer_new u cnt), next_id := Suc (next_id n)\<rparr>)"

text \<open>The handler of \<open>async_accept\<close> without an error, for the identity the new peer gets.\<close>

definition do_accept :: "uuid \<Rightarrow> 'app node \<Rightarrow> 'app node" where
  "do_accept u n =
     (if max_connections n = 0 \<or> unat (connections n) < max_connections n
      then make_peer u True (n\<lparr>connections := connections n + 1\<rparr>)
      else n)"

text \<open>The handler of \<open>async_connect\<close>; \<open>ping\<close> is \<open>DEBUG_CLIENT_SEND_PING\<close>.\<close>

definition do_connect :: "u32 \<Rightarrow> bool \<Rightarrow> uuid \<Rightarrow> 'app node \<Rightarrow> 'app node res" where
  "do_connect junk ping u n =
     (let i = next_id n; n = make_peer u False n
      in if ping then
           (case objs n i of None \<Rightarrow> Inr n
            | Some p \<Rightarrow> rmap (\<lambda>p. set_peer i p n) (send_post (message_new junk MSG_TYPE_PING 1) p))
         else Inr n)"

text \<open>The destructor, run when no handler holds the peer any more.\<close>

definition unreferenced :: "peer \<Rightarrow> bool" where
  "unreferenced p \<longleftrightarrow> \<not> reading p \<and> \<not> writing p \<and> tasks p = []"

definition destroy :: "nat \<Rightarrow> peer \<Rightarrow> 'app node \<Rightarrow> 'app node" where
  "destroy i p n =
     (let n = n\<lparr>objs := (objs n)(i := None)\<rparr>;
          n = logs Log_warn (''lost peer '' @ stringfy \<lparr>dashes = True, uppercase = False, braces = True\<rparr> (uuid p)) n;
          n = (if counted p then n\<lparr>connections := connections n - 1\<rparr> else n)
      in remove_peer (uuid p) n)"

section \<open>Runs of a node\<close>

datatype node_event =
    Accept uuid
  | Connect bool uuid
  | Read nat bytes
  | Read_error nat string
  | Task nat
  | Written nat
  | Write_error nat nat
  | Destroy nat

inductive node_step :: "u32 \<Rightarrow> 'app process \<Rightarrow> (exn \<Rightarrow> string) \<Rightarrow> 'app node \<Rightarrow> node_event \<Rightarrow> 'app node \<Rightarrow> bool"
  for junk process_msg what where
  accept: "node_step junk process_msg what n (Accept u) (do_accept u n)"
| connect: "do_connect junk ping u n = Inr n' \<Longrightarrow> node_step junk process_msg what n (Connect ping u) n'"
| read: "objs n i = Some p \<Longrightarrow> reading p \<Longrightarrow> length data \<le> 4096 \<Longrightarrow>
    read_done junk process_msg what i data n = Inr n' \<Longrightarrow> node_step junk process_msg what n (Read i data) n'"
| read_error: "objs n i = Some p \<Longrightarrow> reading p \<Longrightarrow>
    read_failed ec i n = Inr n' \<Longrightarrow> node_step junk process_msg what n (Read_error i ec) n'"
| task: "objs n i = Some p \<Longrightarrow> tasks p \<noteq> [] \<Longrightarrow> run_task p = Inr p' \<Longrightarrow>
    node_step junk process_msg what n (Task i) (set_peer i p' n)"
| written: "objs n i = Some p \<Longrightarrow> writing p \<Longrightarrow> write_done p = Inr p' \<Longrightarrow>
    node_step junk process_msg what n (Written i) (set_peer i p' n)"
| write_error: "objs n i = Some p \<Longrightarrow> writing p \<Longrightarrow>
    node_step junk process_msg what n (Write_error i k) (set_peer i (write_failed k p) n)"
| destroy: "objs n i = Some p \<Longrightarrow> unreferenced p \<Longrightarrow>
    node_step junk process_msg what n (Destroy i) (destroy i p n)"

inductive_cases node_step_elim: "node_step junk process_msg what n e n'"

lemmas node_stepE = node_step_elim
  [consumes 1, case_names accept connect read read_error task written write_error destroy]


section \<open>What the handlers leave alone\<close>

lemma deliver_preserves:
  assumes "\<And>h ev. f (snd (handler h ev)) = f h"
  shows "f (snd (deliver handler hdr buf h)) = f h"
  using assms by (simp add: deliver_def split: sum.split)

lemma receive_iter_preserves:
  assumes "\<And>h ev. f (snd (handler h ev)) = f h" "receive_iter handler data p h = (r, p', h')"
  shows "f h' = f h"
proof -
  have d: "f h'' = f h" if "deliver handler hdr buf h = (x, h'')" for hdr buf x h''
    using deliver_preserves [of f handler hdr buf h] assms(1) that by simp
  have e: "f h'' = f h" if "handler h ev = (x, h'')" for ev x h''
    using assms(1) [of h ev] that by simp
  show ?thesis using assms(2)
    by (auto simp: receive_iter_def Let_def split: if_splits prod.splits sum.splits dest: d e)
qed

lemma receive_loop_preserves:
  assumes "\<And>h ev. f (snd (handler h ev)) = f h"
  shows "receive_loop fuel handler data p h = (r, p', h') \<Longrightarrow> f h' = f h"
proof (induction fuel arbitrary: data p h)
  case (Suc fuel)
  obtain out q g where it: "receive_iter handler data p h = (out, q, g)" by (metis prod_cases3)
  with receive_iter_preserves [OF assms this] Suc show ?case
    by (auto split: if_splits sum.splits)
qed auto

lemma receive_preserves:
  "(\<And>h ev. f (snd (handler h ev)) = f h) \<Longrightarrow> receive handler data p h = (r, p', h') \<Longrightarrow> f h' = f h"
  unfolding receive_def by (rule receive_loop_preserves)

text \<open>Who the peers are, apart from what they are sending and receiving.\<close>

definition ident :: "'app node \<Rightarrow> nat \<Rightarrow> (uuid \<times> bool) option" where
  "ident n i = map_option (\<lambda>p. (uuid p, counted p)) (objs n i)"

definition skeleton :: "'app node \<Rightarrow> nat option list \<times> nat \<times> nat \<times> u64 \<times> (nat \<Rightarrow> (uuid \<times> bool) option)" where
  "skeleton n = (peer_list n, next_id n, max_connections n, connections n, ident n)"

definition same_id :: "peer \<Rightarrow> peer \<Rightarrow> bool" where
  "same_id p q \<longleftrightarrow> uuid q = uuid p \<and> counted q = counted p"

lemma do_write_same: "do_write p = Inr q \<Longrightarrow> same_id p q"
  by (auto simp: do_write_def same_id_def rbind_eq_Inr split: if_splits)

lemma send_now_same: "send_now m p = Inr q \<Longrightarrow> same_id p q"
  by (auto simp: send_now_def rbind_eq_Inr dest!: do_write_same) (simp_all add: same_id_def)

lemma send_post_same: "send_post m p = Inr q \<Longrightarrow> same_id p q"
  by (auto simp: send_post_def rbind_eq_Inr same_id_def)

lemma run_task_same: "run_task p = Inr q \<Longrightarrow> same_id p q"
  by (auto simp: run_task_def rbind_eq_Inr same_id_def dest!: do_write_same split: list.splits)

lemma write_done_same: "write_done p = Inr q \<Longrightarrow> same_id p q"
  by (auto simp: write_done_def Let_def same_id_def dest!: do_write_same split: if_splits)

lemmas same_ids = do_write_same send_now_same send_post_same run_task_same write_done_same

lemma skeleton_set_peer [simp]:
  "objs n i = Some p \<Longrightarrow> same_id p q \<Longrightarrow> skeleton (set_peer i q n) = skeleton n"
  by (auto simp: skeleton_def set_peer_def ident_def same_id_def fun_eq_iff)

lemma skeleton_simps [simp]:
  "skeleton (logs lvl msg n) = skeleton n" "skeleton (n\<lparr>app := a\<rparr>) = skeleton n"
  "skeleton (do_read i n) = skeleton n" "skeleton (put_rx i r n) = skeleton n"
  by (simp_all add: skeleton_def logs_def do_read_def put_rx_def ident_def fun_eq_iff option.map_comp comp_def)

lemma skeleton_broadcast_each: "broadcast_each msg p xs n = Inr n' \<Longrightarrow> skeleton n' = skeleton n"
proof (induction xs arbitrary: n)
  case (Cons x xs)
  then show ?case
    by (auto simp: rbind_eq_Inr rmap_def weak_lock_def split: option.splits if_splits dest!: send_post_same)
qed simp

lemma skeleton_answer: "skeleton (snd (answer junk process_msg i msg n)) = skeleton n"
  by (auto simp: answer_def Let_def logs_def split: option.splits sum.splits prod.splits dest!: send_now_same)
    (auto simp: skeleton_def set_peer_def ident_def same_id_def fun_eq_iff)

lemma skeleton_on_frame: "skeleton (snd (on_frame junk process_msg i n ev)) = skeleton n"
proof (cases ev)
  case (Ev_message msg)
  obtain r n1 where a: "answer junk process_msg i msg n = (r, n1)" by (cases "answer junk process_msg i msg n")
  then have "skeleton n1 = skeleton n" using skeleton_answer [of junk process_msg i msg n] by simp
  with Ev_message a show ?thesis
    by (auto simp: on_frame_def broadcast_def split: sum.splits bool.splits dest: skeleton_broadcast_each)
qed (simp add: on_frame_def)

lemma skeleton_read_done:
  assumes "read_done junk process_msg what i data n = Inr n'"
  shows "skeleton n' = skeleton n"
proof -
  from assms obtain pr where pr: "objs n i = Some pr" by (auto simp: read_done_def split: option.splits)
  let ?n = "set_peer i (pr\<lparr>reading := False\<rparr>) n"
  have n: "skeleton ?n = skeleton n" using pr by (simp add: same_id_def)
  show ?thesis
  proof (cases "data = []")
    case True
    with assms pr n show ?thesis by (simp add: read_done_def Let_def)
  next
    case False
    obtain out r g where rec: "receive (on_frame junk process_msg i) data (rx.truncate (proto pr)) ?n = (out, r, g)"
      by (metis prod_cases3)
    from receive_preserves [of skeleton, OF skeleton_on_frame rec] n have "skeleton g = skeleton n" by simp
    with assms pr False rec show ?thesis
      by (auto simp: read_done_def Let_def split: sum.splits if_splits)
  qed
qed

lemma skeleton_read_failed: "read_failed ec i n = Inr n' \<Longrightarrow> skeleton n' = skeleton n"
  by (auto simp: read_failed_def same_id_def split: option.splits)


section \<open>The invariant of the peer list\<close>

fun ids :: "nat option list \<Rightarrow> nat list" where
  "ids [] = []"
| "ids (None # xs) = ids xs"
| "ids (Some i # xs) = i # ids xs"

lemma ids_append [simp]: "ids (xs @ ys) = ids xs @ ids ys"
  by (induction xs rule: ids.induct) auto

lemma set_ids: "set (ids xs) = {i. Some i \<in> set xs}"
  by (induction xs rule: ids.induct) auto

definition live :: "'app node \<Rightarrow> nat list" where
  "live n = filter (\<lambda>i. ident n i \<noteq> None) (ids (peer_list n))"

definition sessions :: "'app node \<Rightarrow> nat set" where
  "sessions n = {i. \<exists>u. ident n i = Some (u, True)}"

definition node_inv :: "'app node \<Rightarrow> bool" where
  "node_inv n \<longleftrightarrow>
     (\<forall>i. ident n i \<noteq> None \<or> Some i \<in> set (peer_list n) \<longrightarrow> i < next_id n)
   \<and> sorted_wrt (<) (live n) \<and> (\<forall>i. ident n i \<noteq> None \<longrightarrow> i \<in> set (live n))
   \<and> length (peer_list n) = next_id n
   \<and> (\<forall>i u c. ident n i = Some (u, c) \<longrightarrow> length u = 16 \<and> (\<forall>j d. ident n j = Some (u, d) \<longrightarrow> i = j))
   \<and> unat (connections n) = card (sessions n)
   \<and> (max_connections n = 0 \<or> unat (connections n) \<le> max_connections n)"

lemma node_inv_skeleton:
  assumes "skeleton n' = skeleton n" "node_inv n"
  shows "node_inv n'"
proof -
  from assms(1) have e: "peer_list n' = peer_list n" "next_id n' = next_id n"
    "max_connections n' = max_connections n" "connections n' = connections n" "ident n' = ident n"
    by (simp_all add: skeleton_def)
  show ?thesis using assms(2) unfolding node_inv_def live_def sessions_def e .
qed

lemma node_invD:
  assumes "node_inv n"
  shows "ident n i \<noteq> None \<Longrightarrow> i < next_id n" "Some i \<in> set (peer_list n) \<Longrightarrow> i < next_id n"
    "sorted_wrt (<) (live n)" "ident n i \<noteq> None \<Longrightarrow> i \<in> set (live n)"
    "length (peer_list n) = next_id n"
    "ident n i = Some (u, c) \<Longrightarrow> length u = 16" "ident n i = Some (u, c) \<Longrightarrow> ident n j = Some (u, d) \<Longrightarrow> i = j"
    "unat (connections n) = card (sessions n)"
    "max_connections n = 0 \<or> unat (connections n) \<le> max_connections n"
  using assms unfolding node_inv_def by blast+

lemma node_inv_new: "node_inv (node_new m a)"
  by (simp add: node_inv_def node_new_def ident_def live_def sessions_def)

lemma sessions_finite: "node_inv n \<Longrightarrow> finite (sessions n) \<and> card (sessions n) \<le> next_id n"
proof -
  assume "node_inv n"
  then have "sessions n \<subseteq> {..<next_id n}" by (auto simp: node_inv_def sessions_def)
  then show ?thesis by (metis card_lessThan card_mono finite_lessThan finite_subset)
qed

lemma make_peer_skeleton:
  "peer_list (make_peer u c n) = peer_list n @ [Some (next_id n)]"
  "next_id (make_peer u c n) = Suc (next_id n)"
  "max_connections (make_peer u c n) = max_connections n"
  "connections (make_peer u c n) = connections n"
  "ident (make_peer u c n) = (ident n)(next_id n \<mapsto> (u, c))"
  by (simp_all add: make_peer_def peer_start_def do_read_def add_peer_def ident_def peer_new_def fun_eq_iff)

text \<open>What uuid generation is relied on for: a new identity is 16 bytes no live peer has.\<close>

definition fresh_uuid :: "uuid \<Rightarrow> 'app node \<Rightarrow> bool" where
  "fresh_uuid u n \<longleftrightarrow> length u = 16 \<and> (\<forall>i v c. ident n i = Some (v, c) \<longrightarrow> v \<noteq> u)"

lemma live_make_peer:
  assumes "node_inv n"
  shows "live (make_peer u c n) = live n @ [next_id n]"
proof -
  have "filter (\<lambda>i. i \<noteq> next_id n \<longrightarrow> ident n i \<noteq> None) (ids (peer_list n)) = live n"
    unfolding live_def by (rule filter_cong [OF refl]) (auto simp: set_ids dest: node_invD(2) [OF assms])
  then show ?thesis by (simp add: live_def make_peer_skeleton)
qed

lemma node_inv_make_peer:
  assumes "node_inv n" "fresh_uuid u n"
    and "connections n' = connections n + (if c then 1 else 0)" "peer_list n' = peer_list n"
      "next_id n' = next_id n" "max_connections n' = max_connections n" "ident n' = ident n"
    and "next_id n < 2 ^ 64 - 1" "c \<Longrightarrow> max_connections n = 0 \<or> unat (connections n) < max_connections n"
  shows "node_inv (make_peer u c n')"
proof -
  let ?m = "make_peer u c n'"
  have live: "live ?m = live n @ [next_id n]"
    using live_make_peer [OF assms(1), of u c] assms(4,5,7) by (simp add: live_def make_peer_skeleton)
  have none: "ident n (next_id n) = None" using node_invD(1) [OF assms(1), of "next_id n"] by blast
  have small: "\<forall>i \<in> set (live n). i < next_id n" by (auto simp: live_def set_ids dest: node_invD(2) [OF assms(1)])
  have sess: "sessions ?m = (if c then insert (next_id n) (sessions n) else sessions n)"
    using none assms(5,7) by (auto simp: sessions_def make_peer_skeleton)
  have card: "card (sessions ?m) = card (sessions n) + (if c then 1 else 0)"
    using sessions_finite [OF assms(1)] none unfolding sess by (simp add: sessions_def)
  have "unat (connections n) < 2 ^ 64 - 1"
    using sessions_finite [OF assms(1)] assms(1,8) by (simp add: node_inv_def)
  then have con: "unat (connections n') = unat (connections n) + (if c then 1 else 0)"
    unfolding assms(3) by (simp add: unat_word_ariths)
  note inv = node_invD [OF assms(1)]
  show ?thesis
    unfolding node_inv_def
  proof (intro conjI allI impI, goal_cases)
    case (1 i) then show ?case using inv(1,2) [of i] assms(4,5,7) by (auto simp: make_peer_skeleton split: if_splits)
  next
    case 2 show ?case unfolding live using inv(3) small by (simp add: sorted_wrt_append)
  next
    case (3 i) then show ?case unfolding live using inv(4) [of i] assms(5,7)
      by (auto simp: make_peer_skeleton split: if_splits)
  next
    case 4 show ?case using inv(5) assms(4,5) by (simp add: make_peer_skeleton)
  next
    case (5 i v d)
    then show ?case using inv(6) [of i v d] assms(2,5,7)
      by (auto simp: make_peer_skeleton fresh_uuid_def split: if_splits)
  next
    case (6 i v d j e)
    then show ?case using inv(7) [of i v d j e] assms(2,5,7)
      by (auto simp: make_peer_skeleton fresh_uuid_def split: if_splits)
  next
    case 7 show ?case using card con inv(8) by (simp add: make_peer_skeleton)
  next
    case 8 show ?case using con inv(9) assms(6,9) by (auto simp: make_peer_skeleton)
  qed
qed

lemma ids_remove_if:
  assumes "\<And>x. \<not> P x \<longleftrightarrow> (\<exists>i. x = Some i \<and> q i)"
  shows "filter q (ids (std_remove_if P None xs)) = filter q (ids xs)"
proof -
  have "filter q (ids (filter (\<lambda>x. \<not> P x) xs)) = filter q (ids xs)"
    using assms by (induction xs rule: ids.induct) auto
  moreover have "filter q (ids (map (\<lambda>x. if P x then x else None) ys)) = []" for ys
    using assms by (induction ys rule: ids.induct) auto
  ultimately show ?thesis by (simp add: std_remove_if_def Let_def)
qed

lemma weak_lock_bind: "weak_lock n x = Option.bind x (objs n)"
  by (simp add: weak_lock_def split: option.split)

lemma length_remove_if: "length (std_remove_if P moved xs) = length xs"
  using length_filter_le [of "\<lambda>x. \<not> P x" xs] by (simp add: std_remove_if_def Let_def)

lemma set_remove_if: "set (std_remove_if P None xs) \<subseteq> insert None (set xs)"
  by (auto simp: std_remove_if_def Let_def dest: in_set_dropD split: if_splits)

lemma destroy_skeleton:
  assumes "node_inv n" "objs n i = Some p"
  shows "ident (destroy i p n) = (ident n)(i := None)" "live (destroy i p n) = filter (\<lambda>j. j \<noteq> i) (live n)"
    "length (peer_list (destroy i p n)) = length (peer_list n)"
    "set (peer_list (destroy i p n)) \<subseteq> insert None (set (peer_list n))"
    "next_id (destroy i p n) = next_id n" "max_connections (destroy i p n) = max_connections n"
    "connections (destroy i p n) = (if counted p then connections n - 1 else connections n)"
proof -
  let ?n = "n\<lparr>objs := (objs n)(i := None)\<rparr>"
  let ?P = "\<lambda>x. case weak_lock ?n x of Some spt \<Rightarrow> uuid_eq (uuid spt) (uuid p) | None \<Rightarrow> True"
  have list: "peer_list (destroy i p n) = std_remove_if ?P None (peer_list n)"
    by (simp add: destroy_def Let_def remove_peer_def logs_def weak_lock_bind)
  show ident: "ident (destroy i p n) = (ident n)(i := None)"
    by (auto simp: destroy_def Let_def remove_peer_def logs_def ident_def fun_eq_iff)
  have uu: "\<not> uuid_eq (uuid q) (uuid p)" if "objs n j = Some q" "j \<noteq> i" for j q
  proof -
    have "ident n j = Some (uuid q, counted q)" "ident n i = Some (uuid p, counted p)"
      using that assms(2) by (simp_all add: ident_def)
    with assms(1) that(2) have "uuid q \<noteq> uuid p \<and> length (uuid q) = 16 \<and> length (uuid p) = 16"
      unfolding node_inv_def by metis
    then show ?thesis by (simp add: uuid_eq_16)
  qed
  have "\<not> ?P x \<longleftrightarrow> (\<exists>j. x = Some j \<and> ident (destroy i p n) j \<noteq> None)" for x
    unfolding ident by (auto simp: weak_lock_def ident_def uu split: option.splits)
  from ids_remove_if [of ?P, OF this]
  have "live (destroy i p n) = filter (\<lambda>j. ident (destroy i p n) j \<noteq> None) (ids (peer_list n))"
    by (simp add: live_def list)
  also have "\<dots> = filter (\<lambda>j. j \<noteq> i) (live n)" unfolding live_def ident by (simp add: conj_commute) (rule filter_cong, auto)
  finally show "live (destroy i p n) = filter (\<lambda>j. j \<noteq> i) (live n)" .
  show "length (peer_list (destroy i p n)) = length (peer_list n)" unfolding list by (rule length_remove_if)
  show "set (peer_list (destroy i p n)) \<subseteq> insert None (set (peer_list n))" unfolding list by (rule set_remove_if)
qed (simp_all add: destroy_def Let_def remove_peer_def logs_def)

lemma node_inv_destroy:
  assumes inv: "node_inv n" and p: "objs n i = Some p"
  shows "node_inv (destroy i p n)"
proof -
  note sk = destroy_skeleton [OF inv p]
  have i: "ident n i = Some (uuid p, counted p)" using p by (simp add: ident_def)
  have sess: "sessions (destroy i p n) = sessions n - {i}" by (auto simp: sessions_def sk(1))
  have card: "card (sessions (destroy i p n)) = (if counted p then card (sessions n) - 1 else card (sessions n))"
    using i sessions_finite [OF inv] unfolding sess by (auto simp: sessions_def card_Diff_singleton_if)
  have con: "unat (connections (destroy i p n)) = (if counted p then unat (connections n) - 1 else unat (connections n))"
  proof (cases "counted p")
    case True
    with i have "i \<in> sessions n" by (auto simp: sessions_def)
    then have "0 < card (sessions n)" using sessions_finite [OF inv] by (auto simp: card_gt_0_iff)
    then have "1 \<le> connections n" using inv by (simp add: node_inv_def word_le_nat_alt)
    then show ?thesis using True by (simp add: sk(7) unat_sub)
  qed (simp add: sk(7))
  from inv have "sorted_wrt (<) (live n)" by (simp add: node_inv_def)
  then have sorted: "sorted_wrt (<) (live (destroy i p n))" unfolding sk(2) by (rule sorted_wrt_filter)
  have "\<forall>j. Some j \<in> set (peer_list (destroy i p n)) \<longrightarrow> Some j \<in> set (peer_list n)" using sk(4) by blast
  with inv sorted card con show ?thesis
    unfolding node_inv_def sk(1,3,5,6)
    by (auto simp: sk(2) split: if_splits)
qed


section \<open>Reachable nodes\<close>

fun fresh_event :: "node_event \<Rightarrow> 'app node \<Rightarrow> bool" where
  "fresh_event (Accept u) n = fresh_uuid u n"
| "fresh_event (Connect ping u) n = fresh_uuid u n"
| "fresh_event _ n = True"

inductive node_run :: "u32 \<Rightarrow> 'app process \<Rightarrow> (exn \<Rightarrow> string) \<Rightarrow> 'app node \<Rightarrow> node_event list \<Rightarrow> 'app node \<Rightarrow> bool"
  for junk process_msg what n where
  start: "node_run junk process_msg what n [] n"
| snoc: "node_run junk process_msg what n es n' \<Longrightarrow> fresh_event e n' \<Longrightarrow>
    node_step junk process_msg what n' e n'' \<Longrightarrow> node_run junk process_msg what n (es @ [e]) n''"

lemma do_connect_skeleton:
  assumes "do_connect junk ping u n = Inr n'"
  shows "skeleton n' = skeleton (make_peer u False n)"
  using assms
  by (auto simp: do_connect_def Let_def rmap_def rbind_eq_Inr split: if_splits option.splits dest!: send_post_same)

lemma node_step_inv:
  assumes "node_step junk process_msg what n e n'" "fresh_event e n" "node_inv n" "next_id n' < 2 ^ 64"
  shows "node_inv n' \<and> max_connections n' = max_connections n"
  using assms
proof (cases rule: node_stepE)
  case (accept u)
  show ?thesis
  proof (cases "max_connections n = 0 \<or> unat (connections n) < max_connections n")
    case True
    let ?n = "n\<lparr>connections := connections n + 1\<rparr>"
    have "ident ?n = ident n" by (simp add: ident_def fun_eq_iff)
    moreover have "n' = make_peer u True ?n" using accept True by (simp add: do_accept_def)
    moreover from this have "next_id n < 2 ^ 64 - 1" using assms(4) by (simp add: make_peer_skeleton)
    ultimately show ?thesis
      using node_inv_make_peer [OF assms(3), of u ?n True] assms(2) accept(1) True
      by (simp add: make_peer_skeleton)
  qed (use accept assms(3) in \<open>simp add: do_accept_def\<close>)
next
  case (connect ping u)
  from do_connect_skeleton [OF connect(2)]
  have sk: "skeleton n' = skeleton (make_peer u False n)" .
  then have "next_id n' = Suc (next_id n)" "max_connections n' = max_connections n"
    by (simp_all add: skeleton_def make_peer_skeleton)
  then have "next_id n < 2 ^ 64 - 1" using assms(4) by simp
  then have "node_inv (make_peer u False n)"
    using node_inv_make_peer [OF assms(3), of u n False] assms(2) connect(1) by simp
  from node_inv_skeleton [OF sk this] \<open>max_connections n' = max_connections n\<close> show ?thesis by simp
next
  case (read i p data)
  from skeleton_read_done [OF read(5)] node_inv_skeleton [OF _ assms(3)] show ?thesis
    by (simp add: skeleton_def)
next
  case (read_error i p ec)
  from skeleton_read_failed [OF read_error(4)] node_inv_skeleton [OF _ assms(3)] show ?thesis
    by (simp add: skeleton_def)
next
  case (task i p p')
  from skeleton_set_peer [OF task(3) run_task_same [OF task(5)]] node_inv_skeleton [OF _ assms(3)] task(2)
  show ?thesis by (simp add: set_peer_def)
next
  case (written i p p')
  from skeleton_set_peer [OF written(3) write_done_same [OF written(5)]] node_inv_skeleton [OF _ assms(3)] written(2)
  show ?thesis by (simp add: set_peer_def)
next
  case (write_error i p k)
  have "same_id p (write_failed k p)" by (simp add: same_id_def write_failed_def)
  from skeleton_set_peer [OF write_error(3) this] node_inv_skeleton [OF _ assms(3)] write_error(2)
  show ?thesis by (simp add: set_peer_def)
next
  case (destroy i p)
  with node_inv_destroy [OF assms(3)] destroy_skeleton [OF assms(3)] show ?thesis by simp
qed

lemma node_step_next_id:
  assumes "node_step junk process_msg what n e n'"
  shows "next_id n \<le> next_id n'"
  using assms
proof (cases rule: node_stepE)
  case (connect ping u)
  from do_connect_skeleton [OF connect(2)] show ?thesis by (simp add: skeleton_def make_peer_skeleton)
next
  case (read i p data)
  from skeleton_read_done [OF read(5)] show ?thesis by (simp add: skeleton_def)
next
  case (read_error i p ec)
  from skeleton_read_failed [OF read_error(4)] show ?thesis by (simp add: skeleton_def)
qed (simp_all add: do_accept_def make_peer_skeleton set_peer_def destroy_def Let_def remove_peer_def logs_def)

lemma node_run_inv:
  assumes "node_run junk process_msg what n es n'" "node_inv n" "next_id n' < 2 ^ 64"
  shows "node_inv n' \<and> max_connections n' = max_connections n"
  using assms
proof (induction rule: node_run.induct)
  case (snoc es n' e n'')
  then show ?case
    using node_step_inv [OF snoc.hyps(3,2)] node_step_next_id [OF snoc.hyps(3)] by auto
qed simp

lemma live_lockable: "map Some (live n) = filter (\<lambda>x. weak_lock n x \<noteq> None) (peer_list n)"
proof -
  have "map Some (filter (\<lambda>i. ident n i \<noteq> None) (ids xs)) = filter (\<lambda>x. weak_lock n x \<noteq> None) xs" for xs
    by (induction xs rule: ids.induct) (auto simp: weak_lock_def ident_def)
  then show ?thesis by (simp add: live_def)
qed

lemma live_sorted:
  assumes "node_inv n"
  shows "live n = sorted_list_of_set (dom (objs n))"
proof -
  have "set (live n) = dom (objs n)"
    using node_invD(4) [OF assms] by (auto simp: live_def ident_def)
  then show ?thesis
    using node_invD(3) [OF assms] by (metis sorted_list_of_set.idem_if_sorted_distinct strict_sorted_iff)
qed

text \<open>
  C15: in every state a node can reach, the weak pointers of the list that can be locked are
  exactly the existing peers, each once, in the order in which they were started, although
  \<open>remove_peer\<close> only moves elements around; but the list has one entry for every peer that was
  ever started: it never shrinks, and \<open>count\<close> counts the dead.
\<close>

theorem peer_list_live_peers:
  assumes "node_run junk process_msg what (node_new m a) es n" "next_id n < 2 ^ 64"
  shows "filter (\<lambda>x. weak_lock n x \<noteq> None) (peer_list n) = map Some (sorted_list_of_set (dom (objs n)))
    \<and> peer_count n = next_id n"
proof -
  have inv: "node_inv n" using node_run_inv [OF assms(1) node_inv_new assms(2)] by blast
  show ?thesis
    unfolding live_lockable [symmetric] live_sorted [OF inv] peer_count_def
    using node_invD(5) [OF inv] by blast
qed

definition lost_session :: "unit node \<Rightarrow> bool" where
  "lost_session n \<longleftrightarrow> node_run 0 base_process_msg (\<lambda>_. []) (node_new 1 ())
     [Accept (replicate 16 1), Read_error 0 [], Destroy 0] n"

lemma lost_session_exists: "\<exists>n. lost_session n \<and> objs n = (\<lambda>_. None) \<and> next_id n = 1 \<and> connections n = 0"
proof -
  let ?u = "replicate 16 1 :: uuid" and ?n0 = "node_new 1 ()"
  let ?n1 = "do_accept ?u ?n0"
  let ?p = "(peer_new ?u True)\<lparr>reading := True\<rparr>"
  have o1: "objs ?n1 0 = Some ?p" "connections ?n1 = 1" "next_id ?n1 = 1"
    by (simp_all add: do_accept_def make_peer_def peer_start_def do_read_def add_peer_def node_new_def)
  have "ident ?n0 = (\<lambda>_. None)" by (simp add: node_new_def ident_def fun_eq_iff)
  then have "fresh_event (Accept ?u) ?n0" by (simp add: fresh_uuid_def)
  from node_run.snoc [OF node_run.start this node_step.accept]
  have r1: "node_run 0 base_process_msg (\<lambda>_. []) ?n0 [Accept ?u] ?n1" by simp
  obtain n2 where n2: "read_failed [] 0 ?n1 = Inr n2" "objs n2 = [0 \<mapsto> peer_new ?u True]" "connections n2 = 1" "next_id n2 = 1"
    using o1 by (auto simp: read_failed_def logs_def set_peer_def do_accept_def make_peer_def peer_start_def
        do_read_def add_peer_def node_new_def peer_new_def)
  from node_run.snoc [OF r1 _ node_step.read_error [OF o1(1) _ n2(1)]]
  have r2: "node_run 0 base_process_msg (\<lambda>_. []) ?n0 [Accept ?u, Read_error 0 []] n2" by simp
  have un: "unreferenced (peer_new ?u True)" by (simp add: unreferenced_def peer_new_def)
  have o2: "objs n2 0 = Some (peer_new ?u True)" by (simp add: n2(2))
  from node_run.snoc [OF r2 _ node_step.destroy [OF o2 un]]
  have "lost_session (destroy 0 (peer_new ?u True) n2)" by (simp add: lost_session_def)
  moreover have "objs (destroy 0 (peer_new ?u True) n2) = (\<lambda>_. None)"
    "next_id (destroy 0 (peer_new ?u True) n2) = 1" "connections (destroy 0 (peer_new ?u True) n2) = 0"
    using n2 by (simp_all add: destroy_def Let_def logs_def remove_peer_def fun_eq_iff) (simp add: peer_new_def)
  ultimately show ?thesis by blast
qed

theorem peer_list_live_peers_witness:
  "\<exists>n. lost_session n \<and> dom (objs n) = {} \<and> peer_count n = 1"
  using lost_session_exists peer_list_live_peers [of 0 base_process_msg "\<lambda>_. []" 1 "()"]
  unfolding lost_session_def by fastforce

text \<open>
  C16: a server's counter of connections is the number of its live sessions, at all times and in
  any order of accepted, failing and ending sessions, and with a limit it never exceeds it.
\<close>

theorem server_counts_sessions:
  assumes "node_run junk process_msg what (node_new m a) es n" "next_id n < 2 ^ 64"
  shows "unat (connections n) = card {i. \<exists>p. objs n i = Some p \<and> counted p}
    \<and> (m = 0 \<or> unat (connections n) \<le> m)"
proof -
  have "sessions n = {i. \<exists>p. objs n i = Some p \<and> counted p}"
    by (auto simp: sessions_def ident_def)
  moreover have "max_connections n = m" "node_inv n"
    using node_run_inv [OF assms(1) node_inv_new assms(2)] by (simp_all add: node_new_def)
  ultimately show ?thesis by (metis node_invD(8,9))
qed

theorem server_counts_sessions_witness:
  "\<exists>n. lost_session n \<and> card {i. \<exists>p. objs n i = Some p \<and> counted p} = 0"
  using lost_session_exists server_counts_sessions [of 0 base_process_msg "\<lambda>_. []" 1 "()"]
  unfolding lost_session_def by fastforce


section \<open>Broadcasts\<close>

definition posted :: "message \<Rightarrow> peer \<Rightarrow> peer" where
  "posted m p = p\<lparr>tasks := tasks p @ [m\<lparr>bs_pos := length (payload m)\<rparr>]\<rparr>"

lemma send_post_posted: "length (payload m) \<le> vec_max \<Longrightarrow> send_post m p = Inr (posted m p)"
  by (simp add: send_post_def message_copy_ok posted_def)

lemma posted_same [simp]: "uuid (posted m p) = uuid p" "counted (posted m p) = counted p"
  by (simp_all add: posted_def)

definition reached :: "uuid \<Rightarrow> nat list \<Rightarrow> 'app node \<Rightarrow> message \<Rightarrow> nat \<Rightarrow> peer option" where
  "reached u is n m j = (case objs n j of
     None \<Rightarrow> None
   | Some q \<Rightarrow> Some (if j \<in> set is \<and> \<not> uuid_eq u (uuid q) then posted m q else q))"

lemma broadcast_each_spec:
  assumes "length (payload m) \<le> vec_max" "distinct (filter (\<lambda>i. objs n i \<noteq> None) (ids xs))"
  shows "broadcast_each m (Some u) xs n = Inr (n\<lparr>objs := reached u (ids xs) n m\<rparr>)"
  using assms
proof (induction xs arbitrary: n rule: ids.induct)
  case 1
  have "reached u (ids []) n m = objs n" by (auto simp: reached_def fun_eq_iff split: option.splits)
  then show ?case by simp
next
  case (2 xs)
  then show ?case by (simp add: weak_lock_def)
next
  case (3 i xs)
  show ?case
  proof (cases "objs n i")
    case None
    then have "reached u (ids (Some i # xs)) n m = reached u (ids xs) n m"
      by (auto simp: reached_def fun_eq_iff split: option.splits)
    with 3 None show ?thesis by (simp add: weak_lock_def)
  next
    case (Some q)
    let ?n = "if uuid_eq u (uuid q) then n else set_peer i (posted m q) n"
    have none: "objs ?n j \<noteq> None \<longleftrightarrow> objs n j \<noteq> None" for j
      using Some by (simp add: set_peer_def)
    have "distinct (filter (\<lambda>j. objs ?n j \<noteq> None) (ids xs))"
      using 3(3) Some unfolding none by simp
    from 3(1) [OF 3(2) this]
    have "broadcast_each m (Some u) (Some i # xs) n = Inr (?n\<lparr>objs := reached u (ids xs) ?n m\<rparr>)"
      using Some 3(2) by (cases "uuid_eq u (uuid q)") (simp_all add: weak_lock_def send_post_posted)
    moreover have "i \<notin> set (ids xs)" using 3(3) Some by auto
    then have "reached u (ids xs) ?n m = reached u (ids (Some i # xs)) n m"
      using Some by (auto simp: reached_def fun_eq_iff set_peer_def split: option.splits)
    ultimately show ?thesis by (simp add: set_peer_def)
  qed
qed

lemma broadcast_spec:
  assumes "node_inv n" "objs n i = Some p" "length (payload m) \<le> vec_max"
  shows "broadcast m (Some (uuid p)) n
    = Inr (n\<lparr>objs := \<lambda>j. if j = i then objs n j else map_option (posted m) (objs n j)\<rparr>)"
proof -
  have "ident n j \<noteq> None \<longleftrightarrow> objs n j \<noteq> None" for j by (simp add: ident_def)
  then have live: "live n = filter (\<lambda>j. objs n j \<noteq> None) (ids (peer_list n))" by (simp add: live_def)
  have "distinct (filter (\<lambda>j. objs n j \<noteq> None) (ids (peer_list n)))"
    using node_invD(3) [OF assms(1)] unfolding live by (simp add: strict_sorted_iff)
  from broadcast_each_spec [OF assms(3) this, of "uuid p"]
  have "broadcast m (Some (uuid p)) n = Inr (n\<lparr>objs := reached (uuid p) (ids (peer_list n)) n m\<rparr>)"
    by (simp add: broadcast_def)
  moreover have "reached (uuid p) (ids (peer_list n)) n m j
      = (if j = i then objs n j else map_option (posted m) (objs n j))" for j
  proof (cases "objs n j")
    case (Some q)
    then have id: "ident n j = Some (uuid q, counted q)" "ident n i = Some (uuid p, counted p)"
      using assms(2) by (simp_all add: ident_def)
    then have "j \<in> set (ids (peer_list n))"
      using node_invD(4) [OF assms(1), of j] by (auto simp: live_def)
    moreover have "uuid_eq (uuid p) (uuid q) \<longleftrightarrow> j = i"
      using node_invD(6,7) [OF assms(1)] id Some assms(2) by (auto simp: uuid_eq_16)
    ultimately show ?thesis using Some by (auto simp: reached_def)
  qed (auto simp: reached_def)
  ultimately show ?thesis by presburger
qed

lemma broadcast_null: "broadcast m None n = Inr n"
proof -
  have "broadcast_each m None xs n = Inr n" for xs
    by (induction xs) (auto simp: weak_lock_def split: option.splits)
  then show ?thesis by (simp add: broadcast_def)
qed


definition two_peers :: "unit node" where
  "two_peers = do_accept (replicate 16 2) (do_accept (replicate 16 1) (node_new 0 ()))"

lemma two_peers_objs:
  "objs two_peers = [0 \<mapsto> (peer_new (replicate 16 1) True)\<lparr>reading := True\<rparr>,
     1 \<mapsto> (peer_new (replicate 16 2) True)\<lparr>reading := True\<rparr>]"
  "next_id two_peers = 2"
  by (simp_all add: two_peers_def do_accept_def make_peer_def peer_start_def do_read_def add_peer_def node_new_def fun_eq_iff)

lemma two_peers_run:
  "node_run 0 base_process_msg (\<lambda>_. []) (node_new 0 ()) [Accept (replicate 16 1), Accept (replicate 16 2)] two_peers"
proof -
  let ?n0 = "node_new 0 ()"
  let ?n1 = "do_accept (replicate 16 1) ?n0"
  have "ident ?n0 = (\<lambda>_. None)" by (simp add: node_new_def ident_def fun_eq_iff)
  then have "fresh_event (Accept (replicate 16 1)) ?n0" by (simp add: fresh_uuid_def)
  from node_run.snoc [OF node_run.start this node_step.accept]
  have r1: "node_run 0 base_process_msg (\<lambda>_. []) ?n0 [Accept (replicate 16 1)] ?n1" by simp
  have "ident ?n1 = [0 \<mapsto> (replicate 16 1, True)]"
    by (simp add: do_accept_def make_peer_def peer_start_def do_read_def add_peer_def node_new_def ident_def
        peer_new_def fun_eq_iff)
  then have "fresh_event (Accept (replicate 16 2)) ?n1" by (simp add: fresh_uuid_def)
  from node_run.snoc [OF r1 this node_step.accept] show ?thesis by (simp add: two_peers_def)
qed



section \<open>Answering pings\<close>

lemma send_now_ok:
  assumes "queue_ok p" "writing p \<longrightarrow> sending p" "length (payload m) \<le> 10240"
  shows "\<exists>q. send_now m p = Inr q \<and> queue_ok q \<and> (writing q \<longrightarrow> sending q) \<and> pending q = pending p @ frame m
    \<and> tasks q = tasks p \<and> reading q = reading p \<and> rx.truncate (proto q) = rx.truncate (proto p)"
proof -
  have "length (payload m) \<le> vec_max" using assms(3) by (simp add: vec_max_def)
  then obtain c where c: "message_copy m = Inr c" "payload c = payload m" "frame c = frame m"
    using message_copy_ok [of m] copy_frame [of m] by (auto simp: payload_def)
  have "length (payload c) \<le> max_pkt_size (proto p)" "max_pkt_size (proto p) + 6 \<le> vec_max"
    using assms(1,3) c(2) by (simp_all add: queue_ok_def vec_max_def)
  from protocol_send_ok [OF this] obtain d where d:
    "protocol_send c (proto p) = Inr ((proto p)\<lparr>send_queue := send_queue (proto p) @ [d]\<rparr>)"
    "payload d = payload c" "header d = header c" "small d" by blast
  from d have "frame d = frame m" using c(3) by (metis frame_cong)
  let ?q = "p\<lparr>proto := (proto p)\<lparr>send_queue := send_queue (proto p) @ [d]\<rparr>\<rparr>"
  have q: "queue_ok ?q" "pending ?q = pending p @ frame m" "rx.truncate (proto ?q) = rx.truncate (proto p)"
    using assms(1) d(4) \<open>frame d = frame m\<close> by (simp_all add: queue_ok_def pending_def inflight_def rx.defs)
  have send: "send_now m p = do_write ?q" using c(1) d(1) by (simp add: send_now_def)
  show ?thesis
  proof (cases "sending p")
    case True
    then have "do_write ?q = Inr ?q" by (simp add: do_write_def)
    with send q assms(2) show ?thesis by auto
  next
    case False
    then have idle: "\<not> sending ?q" "\<not> writing ?q" using assms(2) by simp_all
    from do_write_idle [OF q(1) this] obtain r where r: "do_write ?q = Inr r" "queue_ok r" "pending r = pending ?q"
      "sending r \<longleftrightarrow> writing r" by blast
    then have "tasks r = tasks p \<and> reading r = reading p \<and> rx.truncate (proto r) = rx.truncate (proto p)"
      using idle(1)
      by (auto simp: do_write_def get_packet_def Let_def rx.defs rbind_eq_Inr split: if_splits list.splits)
    with r q send show ?thesis by auto
  qed
qed

definition reply :: "u32 \<Rightarrow> message \<Rightarrow> bytes" where
  "reply junk m = (if hdr_type (header m) = MSG_TYPE_PING then frame (message_new junk MSG_TYPE_PONG 1) else [])"

definition relayed :: "message list \<Rightarrow> peer \<Rightarrow> peer" where
  "relayed ms q = q\<lparr>tasks := tasks q @ map (\<lambda>m. m\<lparr>bs_pos := length (payload m)\<rparr>) (filter (\<lambda>m. hdr_ttl (header m) > 0) ms)\<rparr>"

definition ok_node :: "nat \<Rightarrow> 'app node \<Rightarrow> bool" where
  "ok_node i n \<longleftrightarrow> node_inv n \<and> (\<exists>p. objs n i = Some p \<and> queue_ok p \<and> (writing p \<longrightarrow> sending p))"

definition handled :: "u32 \<Rightarrow> nat \<Rightarrow> message list \<Rightarrow> 'app node \<Rightarrow> 'app node \<Rightarrow> bool" where
  "handled junk i ms n n' \<longleftrightarrow> skeleton n' = skeleton n
     \<and> (\<exists>p p'. objs n i = Some p \<and> objs n' i = Some p' \<and> queue_ok p' \<and> (writing p' \<longrightarrow> sending p')
          \<and> pending p' = pending p @ concat (map (reply junk) ms) \<and> tasks p' = tasks p)
     \<and> (\<forall>j. j \<noteq> i \<longrightarrow> objs n' j = map_option (relayed ms) (objs n j))"

definition same_rx :: "peer \<Rightarrow> peer \<Rightarrow> bool" where
  "same_rx p q \<longleftrightarrow> reading q = reading p \<and> rx.truncate (proto q) = rx.truncate (proto p)"

lemma relayed_Nil [simp]: "relayed [] q = q"
  by (simp add: relayed_def)

lemma relayed_append: "relayed (ms @ ms') q = relayed ms' (relayed ms q)"
  by (simp add: relayed_def)

lemma handled_Nil: "ok_node i n \<Longrightarrow> handled junk i [] n n"
  by (auto simp: handled_def ok_node_def option.map_ident relayed_def [abs_def])

lemma handled_append:
  assumes "handled junk i ms n n'" "handled junk i ms' n' n''"
  shows "handled junk i (ms @ ms') n n''"
proof -
  have "relayed (ms @ ms') = relayed ms' \<circ> relayed ms" by (simp add: fun_eq_iff relayed_append)
  with assms show ?thesis unfolding handled_def by (auto simp: option.map_comp)
qed

lemma ok_node_handled: "ok_node i n \<Longrightarrow> handled junk i ms n n' \<Longrightarrow> ok_node i n'"
  by (auto simp: ok_node_def handled_def intro: node_inv_skeleton)

lemma answer_base:
  assumes "ok_node i n" "payload m = []" "objs n i = Some p"
  shows "\<exists>n' p'. answer junk base_process_msg i m n = (Inr (True, m), n') \<and> node_inv n' \<and> skeleton n' = skeleton n
    \<and> objs n' = (objs n)(i \<mapsto> p') \<and> queue_ok p' \<and> (writing p' \<longrightarrow> sending p')
    \<and> pending p' = pending p @ reply junk m \<and> tasks p' = tasks p \<and> same_rx p p'"
proof (cases "hdr_type (header m) = MSG_TYPE_PING")
  case True
  from assms have "queue_ok p" "writing p \<longrightarrow> sending p" by (simp_all add: ok_node_def)
  from send_now_ok [OF this, of "message_new junk MSG_TYPE_PONG 1"] obtain q where q:
    "send_now (message_new junk MSG_TYPE_PONG 1) p = Inr q" "queue_ok q" "writing q \<longrightarrow> sending q"
    "pending q = pending p @ frame (message_new junk MSG_TYPE_PONG 1)" "tasks q = tasks p" "same_rx p q"
    by (auto simp: same_rx_def)
  let ?n = "logs Log_info (''pinged by '' @ stringfy plain_dashes (uuid p) @ '', sending pong...'') n"
  have "answer junk base_process_msg i m n = (Inr (True, m), set_peer i q ?n)"
    using True assms(3) q(1) by (simp add: answer_def)
  moreover have "skeleton (set_peer i q ?n) = skeleton n"
    using assms(3) send_now_same [OF q(1)] by (simp add: logs_def) (simp add: skeleton_def set_peer_def ident_def same_id_def fun_eq_iff)
  moreover have "objs (set_peer i q ?n) = (objs n)(i \<mapsto> q)" by (simp add: set_peer_def logs_def)
  ultimately show ?thesis
    using q True assms(1) node_inv_skeleton [of "set_peer i q ?n" n] by (auto simp: reply_def ok_node_def)
next
  case False
  let ?n = "if hdr_type (header m) = MSG_TYPE_PONG
    then logs Log_info (''got pong from '' @ stringfy plain_dashes (uuid p)) n else n"
  have "answer junk base_process_msg i m n = (Inr (True, m), ?n)"
    using False assms(3) by (auto simp: answer_def base_process_msg_def)
  moreover have "skeleton ?n = skeleton n" "objs ?n = (objs n)(i \<mapsto> p)"
    using assms(3) by (auto simp: logs_def fun_eq_iff) (auto simp: skeleton_def ident_def fun_eq_iff)
  ultimately show ?thesis
    using False assms node_inv_skeleton [of ?n n] by (auto simp: reply_def ok_node_def same_rx_def)
qed

lemma on_frame_base:
  assumes "ok_node i n" "payload m = []"
  shows "\<exists>n'. on_frame junk base_process_msg i n (Ev_message m) = (Inr True, n') \<and> handled junk i [m] n n'
    \<and> (\<forall>p p'. objs n i = Some p \<longrightarrow> objs n' i = Some p' \<longrightarrow> same_rx p p')"
proof -
  from assms(1) obtain p where p: "objs n i = Some p" by (auto simp: ok_node_def)
  from answer_base [OF assms p, of junk] obtain n1 p' where a:
    "answer junk base_process_msg i m n = (Inr (True, m), n1)" "node_inv n1" "skeleton n1 = skeleton n"
    "objs n1 = (objs n)(i \<mapsto> p')" "queue_ok p'" "writing p' \<longrightarrow> sending p'"
    "pending p' = pending p @ reply junk m" "tasks p' = tasks p" "same_rx p p'" by blast
  have one: "relayed [m] q = (if hdr_ttl (header m) > 0 then posted m q else q)" for q
    by (simp add: relayed_def posted_def)
  show ?thesis
  proof (cases "hdr_ttl (header m) > 0")
    case True
    have obj: "objs n1 i = Some p'" using a(4) by simp
    from broadcast_spec [OF a(2) this, of m] assms(2)
    have b: "broadcast m (Some (uuid p')) n1
        = Inr (n1\<lparr>objs := \<lambda>j. if j = i then objs n1 j else map_option (posted m) (objs n1 j)\<rparr>)" by simp
    let ?n = "n1\<lparr>objs := \<lambda>j. if j = i then objs n1 j else map_option (posted m) (objs n1 j)\<rparr>"
    from skeleton_broadcast_each [OF b [unfolded broadcast_def]] a(3) have "skeleton ?n = skeleton n" by simp
    moreover have "on_frame junk base_process_msg i n (Ev_message m) = (Inr True, ?n)"
      using a(1) True b obj by (simp add: on_frame_def)
    moreover have "map_option (relayed [m]) x = map_option (posted m) x" for x
      using True by (cases x) (simp_all add: one)
    ultimately show ?thesis using a p by (intro exI [of _ ?n]) (simp add: handled_def)
  next
    case False
    then have "on_frame junk base_process_msg i n (Ev_message m) = (Inr True, n1)"
      using a(1) by (simp add: on_frame_def)
    moreover have "map_option (relayed [m]) x = x" for x
      using False by (cases x) (simp_all add: one)
    ultimately show ?thesis using a p by (intro exI [of _ n1]) (simp add: handled_def)
  qed
qed

definition after_frame :: "u32 \<Rightarrow> nat \<Rightarrow> 'app node \<Rightarrow> message \<Rightarrow> 'app node" where
  "after_frame junk i n m = snd (on_frame junk base_process_msg i n (Ev_message m))"

interpretation pinged: frame_handler "on_frame junk base_process_msg i" "\<lambda>m. payload m = []"
  "after_frame junk i" "ok_node i"
proof unfold_locales
  fix n :: "'a node" and m assume n: "ok_node i n" "payload m = []"
  from on_frame_base [OF this, of junk] show "on_frame junk base_process_msg i n (Ev_message m) = (Inr True, after_frame junk i n m)"
    by (auto simp: after_frame_def)
  from on_frame_base [OF n, of junk] ok_node_handled [OF n(1), of junk "[m]"] show "ok_node i (after_frame junk i n m)"
    by (auto simp: after_frame_def)
qed


lemma foldl_handled:
  assumes "ok_node i n" "\<forall>m \<in> set ms. payload m = []"
  shows "handled junk i ms n (foldl (after_frame junk i) n ms)"
  using assms
proof (induction ms arbitrary: n)
  case (Cons m ms)
  let ?n = "after_frame junk i n m"
  have h: "handled junk i [m] n ?n"
    using on_frame_base [OF Cons.prems(1), of m junk] Cons.prems(2) by (auto simp: after_frame_def)
  from Cons.IH [OF ok_node_handled [OF Cons.prems(1) h]] Cons.prems(2)
  have "handled junk i ms ?n (foldl (after_frame junk i) ?n ms)" by simp
  from handled_append [OF h this] show ?case by simp
qed (simp add: handled_Nil)

definition receiving :: "bytes \<Rightarrow> peer \<Rightarrow> bool" where
  "receiving t p \<longleftrightarrow> reading p \<and> receive_buffer (proto p) = t \<and> recv_total_size (proto p) = 6 \<and> length t < 6"

lemma read_done_frames:
  assumes ok: "ok_node i n" and p: "objs n i = Some p" "receiving s p"
    and data: "c \<noteq> []" "s @ c = concat (map header_bytes hs) @ t" "length t < 6"
    and hs: "\<forall>hdr \<in> set hs. hdr_size hdr = 0"
  shows "\<exists>n' p'. read_done junk base_process_msg what i c n = Inr n'
    \<and> handled junk i (map empty_message hs) n n' \<and> objs n' i = Some p' \<and> receiving t p'"
proof -
  let ?p = "p\<lparr>reading := False\<rparr>" and ?rx = "rx.truncate (proto p)" and ?ms = "map empty_message hs"
  let ?n = "set_peer i ?p n"
  have sk: "skeleton ?n = skeleton n" using p(1) by (simp add: same_id_def)
  have q: "queue_ok p" "writing p \<longrightarrow> sending p" using ok p(1) by (simp_all add: ok_node_def)
  then have ok': "ok_node i ?n"
    using ok node_inv_skeleton [OF sk] by (simp add: ok_node_def set_peer_def queue_ok_def)
  have rx: "waiting_header ?rx" "receive_buffer ?rx = s" "max_pkt_size ?rx = 10240"
    using p(2) q(1) by (simp_all add: receiving_def waiting_header_def rx.defs queue_ok_def)
  have empty: "payload (empty_message hdr) = []" for hdr
    by (simp add: empty_message_def hop_def payload_def message_ext)
  then have frames: "pinged.empty_frames hs" using hs by (simp add: pinged.empty_frames_def)
  let ?g = "foldl (after_frame junk i) ?n ?ms" and ?r = "?rx\<lparr>receive_buffer := t\<rparr>"
  have rec: "receive (on_frame junk base_process_msg i) c ?rx ?n = (Inr True, ?r, ?g)"
    unfolding receive_def
    using pinged.receive_loop_frames [OF rx(1) _ data(3) frames _ ok', of c "Suc (length c)"] rx(2) data(2) by simp
  have h: "handled junk i ?ms ?n ?g" using foldl_handled [OF ok'] empty by simp
  then obtain pg where pg: "objs ?g i = Some pg" "queue_ok pg" "writing pg \<longrightarrow> sending pg"
    "pending pg = pending ?p @ concat (map (reply junk) ?ms)" "tasks pg = tasks ?p"
    by (auto simp: handled_def set_peer_def)
  let ?n' = "do_read i (put_rx i ?r ?g)"
  let ?p' = "pg\<lparr>proto := (proto pg)\<lparr>receive_buffer := t, recv_total_size := 6, max_pkt_size := 10240\<rparr>, reading := True\<rparr>"
  have "read_done junk base_process_msg what i c n = Inr ?n'"
    using p(1) data(1) rec by (simp add: read_done_def Let_def)
  moreover have obj: "objs ?n' = (objs ?g)(i \<mapsto> ?p')"
    using pg(1) p(2) rx(3) by (simp add: do_read_def put_rx_def rx.defs receiving_def)
  moreover have "pending ?p' = pending pg" "pending ?p = pending p" by (simp_all add: pending_def inflight_def)
  then have "handled junk i ?ms n ?n'"
    using h sk pg p(1) obj unfolding handled_def by (simp add: queue_ok_def set_peer_def)
  ultimately show ?thesis using data(3) by (simp add: receiving_def)
qed

fun reads_done :: "u32 \<Rightarrow> 'app process \<Rightarrow> (exn \<Rightarrow> string) \<Rightarrow> nat \<Rightarrow> bytes list \<Rightarrow> 'app node \<Rightarrow> 'app node res" where
  "reads_done junk process_msg what i [] n = Inr n"
| "reads_done junk process_msg what i (c # cs) n =
     rbind (read_done junk process_msg what i c n) (reads_done junk process_msg what i cs)"

lemma reads_done_frames:
  assumes "ok_node i n" "objs n i = Some p" "receiving s p" "\<forall>c \<in> set cs. c \<noteq> []"
    and "s @ concat cs = concat (map header_bytes hs)" "\<forall>hdr \<in> set hs. hdr_size hdr = 0"
  shows "\<exists>n' p'. reads_done junk base_process_msg what i cs n = Inr n'
    \<and> handled junk i (map empty_message hs) n n' \<and> objs n' i = Some p' \<and> receiving [] p'"
  using assms
proof (induction cs arbitrary: n p s hs)
  case Nil
  have "hs = []"
  proof (cases hs)
    case (Cons g gs)
    then have "6 \<le> length s" using arg_cong [OF Nil.prems(5), of length] by simp
    with Nil.prems(3) show ?thesis by (simp add: receiving_def)
  qed
  with Nil show ?case by (auto simp: handled_Nil)
next
  case (Cons c cs)
  have "(s @ c) @ concat cs = concat (map header_bytes hs) @ []" using Cons.prems(5) by simp
  from pinged.split_frames [OF this] obtain hs1 hs2 t where sp: "hs = hs1 @ hs2" "length t < 6"
    "s @ c = concat (map header_bytes hs1) @ t" "t @ concat cs = concat (map header_bytes hs2)" by auto
  from read_done_frames [OF Cons.prems(1-3) _ sp(3,2), of junk what] Cons.prems(4,6) sp(1) obtain n1 p1 where 1:
    "read_done junk base_process_msg what i c n = Inr n1" "handled junk i (map empty_message hs1) n n1"
    "objs n1 i = Some p1" "receiving t p1" by auto
  from Cons.IH [OF ok_node_handled [OF Cons.prems(1) 1(2)] 1(3,4) _ sp(4)] Cons.prems(4,6) sp(1) obtain n2 p2 where 2:
    "reads_done junk base_process_msg what i cs n1 = Inr n2" "handled junk i (map empty_message hs2) n1 n2"
    "objs n2 i = Some p2" "receiving [] p2" by auto
  from handled_append [OF 1(2) 2(2)] 1(1) 2 sp(1) show ?case by auto
qed



end
