(* ===== verification/Json.thy ===== *)
theory Json
  imports CLib "HOL-Library.Char_ord" "HOL-Library.List_Lexorder"
begin

text \<open>
  The part of the JSON library (\<open>iotchain/include/json.hpp\<close>, version 2.0.2) that the
  repository's serializer works with: values, construction from initializer lists,
  \<open>push_back\<close>, \<open>operator[]\<close> with a key, \<open>get\<close>, iteration and \<open>dump\<close>. An object is the
  sequence of its entries in the order of \<open>std::map\<close>, sorted by key. A floating-point number is
  its bit pattern.
\<close>

section \<open>Values\<close>

datatype json =
    Null
  | Object "(string \<times> json) list"
  | Array "json list"
  | String string
  | Boolean bool
  | Number_integer "64 word"
  | Number_unsigned u64
  | Number_float double
  | Discarded

datatype value_t =
    T_null
  | T_object
  | T_array
  | T_string
  | T_boolean
  | T_number_integer
  | T_number_unsigned
  | T_number_float
  | T_discarded

fun m_type :: "json \<Rightarrow> value_t" where
  "m_type Null = T_null"
| "m_type (Object m) = T_object"
| "m_type (Array xs) = T_array"
| "m_type (String s) = T_string"
| "m_type (Boolean b) = T_boolean"
| "m_type (Number_integer i) = T_number_integer"
| "m_type (Number_unsigned n) = T_number_unsigned"
| "m_type (Number_float d) = T_number_float"
| "m_type Discarded = T_discarded"

fun type_name :: "json \<Rightarrow> string" where
  "type_name Null = ''null''"
| "type_name (Object m) = ''object''"
| "type_name (Array xs) = ''array''"
| "type_name (String s) = ''string''"
| "type_name (Boolean b) = ''boolean''"
| "type_name (Number_integer i) = ''number''"
| "type_name (Number_unsigned n) = ''number''"
| "type_name (Number_float d) = ''number''"
| "type_name Discarded = ''discarded''"

definition domain_error :: "string \<Rightarrow> 'a res" where
  "domain_error s = Inl (Logic_error s)"

text \<open>\<open>std::map::emplace\<close>: an entry with the key, if there is one, stays.\<close>

fun emplace :: "string \<Rightarrow> json \<Rightarrow> (string \<times> json) list \<Rightarrow> (string \<times> json) list" where
  "emplace k v [] = [(k, v)]"
| "emplace k v ((k', v') # m) =
     (if k < k' then (k, v) # (k', v') # m else if k = k' then (k', v') # m else (k', v') # emplace k v m)"

text \<open>The constructor from an initializer list, with type deduction.\<close>

fun is_pair :: "json \<Rightarrow> bool" where
  "is_pair (Array [String k, v]) \<longleftrightarrow> True"
| "is_pair _ \<longleftrightarrow> False"

fun emplace_pair :: "(string \<times> json) list \<Rightarrow> json \<Rightarrow> (string \<times> json) list" where
  "emplace_pair m (Array [String k, v]) = emplace k v m"
| "emplace_pair m _ = m"

definition json_init :: "json list \<Rightarrow> json" where
  "json_init init = (if list_all is_pair init then Object (foldl emplace_pair [] init) else Array init)"

fun push_back :: "json \<Rightarrow> json \<Rightarrow> json res" where
  "push_back v Null = Inr (Array [v])"
| "push_back v (Array xs) = Inr (Array (xs @ [v]))"
| "push_back v j = domain_error (''cannot use push_back() with '' @ type_name j)"

text \<open>\<open>operator[]\<close> on a non-constant value inserts a null for a missing key: value and new object.\<close>

fun index_key :: "string \<Rightarrow> json \<Rightarrow> (json \<times> json) res" where
  "index_key k Null = Inr (Null, Object [(k, Null)])"
| "index_key k (Object m) =
     (case map_of m k of Some v \<Rightarrow> Inr (v, Object m) | None \<Rightarrow> Inr (Null, Object (emplace k Null m)))"
| "index_key k j = domain_error (''cannot use operator[] with '' @ type_name j)"

fun get_string :: "json \<Rightarrow> string res" where
  "get_string (String s) = Inr s"
| "get_string j = domain_error (''type must be string, but is '' @ type_name j)"

text \<open>
  \<open>get\<close> with an unsigned integer type: a floating-point number is truncated, which is undefined
  when the result does not fit.
\<close>

fun get_number :: "json \<Rightarrow> 'a::len word res" where
  "get_number (Number_integer i) = Inr (scast i)"
| "get_number (Number_unsigned n) = Inr (ucast n)"
| "get_number (Number_float d) =
     (case d_trunc d of
        None \<Rightarrow> Inl (Undefined Float_cast)
      | Some i \<Rightarrow> if 0 \<le> i \<and> i < 2 ^ LENGTH('a) then Inr (word_of_int i) else Inl (Undefined Float_cast))"
| "get_number j = domain_error (''type must be number, but is '' @ type_name j)"

text \<open>What \<open>for (auto& it : j)\<close> visits: a value that is neither array nor object is its only element.\<close>

fun elements :: "json \<Rightarrow> json list" where
  "elements Null = []"
| "elements (Object m) = map snd m"
| "elements (Array xs) = xs"
| "elements j = [j]"

section \<open>Writing\<close>

fun extra_space_char :: "char \<Rightarrow> nat" where
  "extra_space_char c =
     (if c \<in> {CHR 0x22, CHR 0x5C, CHR 0x08, CHR 0x0C, CHR 0x0A, CHR 0x0D, CHR 0x09} then 1
      else if of_char c \<le> (0x1F :: nat) then 5 else 0)"

definition extra_space :: "string \<Rightarrow> nat" where
  "extra_space s = foldl (\<lambda>res c. res + extra_space_char c) 0 s"

text \<open>
  \<open>escape_string\<close> fills a result of the computed size, all backslashes to start with, from the
  left; \<open>pos\<close> is the next position.
\<close>

fun escape_char :: "char \<Rightarrow> string \<times> nat \<Rightarrow> string \<times> nat" where
  "escape_char c (result, pos) =
     (if c = CHR 0x22 then (result[pos + 1 := CHR 0x22], pos + 2)
      else if c = CHR 0x5C then (result, pos + 2)
      else if c = CHR 0x08 then (result[pos + 1 := CHR ''b''], pos + 2)
      else if c = CHR 0x0C then (result[pos + 1 := CHR ''f''], pos + 2)
      else if c = CHR 0x0A then (result[pos + 1 := CHR ''n''], pos + 2)
      else if c = CHR 0x0D then (result[pos + 1 := CHR ''r''], pos + 2)
      else if c = CHR 0x09 then (result[pos + 1 := CHR ''t''], pos + 2)
      else if of_char c \<le> (0x1F :: nat) then
        (case foldl (\<lambda>(result, pos) m. (result[pos + 1 := m], pos + 1)) (result, pos)
               [CHR ''u'', CHR ''0'', CHR ''0'', hexify ! (of_char c div 16), hexify ! (of_char c mod 16)] of
           (result, pos) \<Rightarrow> (result, pos + 1))
      else (result[pos := c], pos + 1))"

definition escape_string :: "string \<Rightarrow> string" where
  "escape_string s =
     (let space = extra_space s
      in if space = 0 then s
         else fst (foldl (\<lambda>st c. escape_char c st) (replicate (length s + space) CHR 0x5C, 0) s))"

fun separated :: "string \<Rightarrow> string list \<Rightarrow> string" where
  "separated sep [] = []"
| "separated sep [x] = x"
| "separated sep (x # xs) = x @ sep @ separated sep xs"

fun dump :: "bool \<Rightarrow> nat \<Rightarrow> nat \<Rightarrow> json \<Rightarrow> string"
  and dump_entries :: "bool \<Rightarrow> nat \<Rightarrow> nat \<Rightarrow> (string \<times> json) list \<Rightarrow> string list"
  and dump_elements :: "bool \<Rightarrow> nat \<Rightarrow> nat \<Rightarrow> json list \<Rightarrow> string list" where
  "dump pretty step indent (Object m) =
     (if m = [] then ''{}''
      else let new_indent = (if pretty then indent + step else indent)
           in ''{'' @ (if pretty then [CHR 0x0A] else [])
              @ separated (if pretty then '','' @ [CHR 0x0A] else '','') (dump_entries pretty step new_indent m)
              @ (if pretty then [CHR 0x0A] else []) @ replicate indent CHR '' '' @ ''}'')"
| "dump pretty step indent (Array xs) =
     (if xs = [] then ''[]''
      else let new_indent = (if pretty then indent + step else indent)
           in ''['' @ (if pretty then [CHR 0x0A] else [])
              @ separated (if pretty then '','' @ [CHR 0x0A] else '','') (dump_elements pretty step new_indent xs)
              @ (if pretty then [CHR 0x0A] else []) @ replicate indent CHR '' '' @ '']'')"
| "dump pretty step indent (String s) = [CHR 0x22] @ escape_string s @ [CHR 0x22]"
| "dump pretty step indent (Boolean b) = (if b then ''true'' else ''false'')"
| "dump pretty step indent (Number_integer i) =
     (if sint i < 0 then ''-'' @ decimal (nat (- sint i)) else decimal (nat (sint i)))"
| "dump pretty step indent (Number_unsigned n) = decimal (unat n)"
| "dump pretty step indent (Number_float d) =
     (if d_eq d 0 then (if d_sign d then ''-0.0'' else ''0.0'') else put_double d)"
| "dump pretty step indent Discarded = ''<discarded>''"
| "dump pretty step indent Null = ''null''"
| "dump_entries pretty step indent [] = []"
| "dump_entries pretty step indent ((k, v) # m) =
     (replicate indent CHR '' '' @ [CHR 0x22] @ escape_string k @ [CHR 0x22, CHR '':''] @ (if pretty then '' '' else [])
        @ dump pretty step indent v) # dump_entries pretty step indent m"
| "dump_elements pretty step indent [] = []"
| "dump_elements pretty step indent (v # vs) =
     (replicate indent CHR '' '' @ dump pretty step indent v) # dump_elements pretty step indent vs"


text \<open>The member function \<open>dump(indent)\<close>.\<close>

definition dump_json :: "int \<Rightarrow> json \<Rightarrow> string" where
  "dump_json indent j = (if indent \<ge> 0 then dump True (nat indent) 0 j else dump False 0 0 j)"

section \<open>Facts\<close>

lemma emplace_last: "\<forall>k' \<in> set (map fst m). k' < k \<Longrightarrow> emplace k v m = m @ [(k, v)] \<and> map_of m k = None"
proof (induction m)
  case (Cons kv m)
  then show ?case by (cases kv) (auto dest: less_asym)
qed simp

lemma json_init_pair [simp]: "json_init [String k, v] = Array [String k, v]"
  by (simp add: json_init_def)

text \<open>The text of a character in a JSON string.\<close>

definition esc :: "char \<Rightarrow> string" where
  "esc c = (if c = CHR 0x22 then [CHR 0x5C, CHR 0x22] else if c = CHR 0x5C then [CHR 0x5C, CHR 0x5C]
     else if c = CHR 0x08 then [CHR 0x5C, CHR ''b''] else if c = CHR 0x0C then [CHR 0x5C, CHR ''f'']
     else if c = CHR 0x0A then [CHR 0x5C, CHR ''n''] else if c = CHR 0x0D then [CHR 0x5C, CHR ''r'']
     else if c = CHR 0x09 then [CHR 0x5C, CHR ''t'']
     else if of_char c \<le> (0x1F :: nat)
       then [CHR 0x5C, CHR ''u'', CHR ''0'', CHR ''0'', hexify ! (of_char c div 16), hexify ! (of_char c mod 16)]
     else [c])"

lemma length_esc: "length (esc c) = 1 + extra_space_char c"
  by (simp add: esc_def)

lemma extra_space_esc: "length s + extra_space s = length (concat (map esc s))"
proof -
  have "length s + foldl (\<lambda>res c. res + extra_space_char c) a s = a + length (concat (map esc s))" for a
  proof (induction s arbitrary: a)
    case (Cons c s)
    from Cons.IH [of "a + extra_space_char c"] show ?case by (simp add: length_esc del: extra_space_char.simps)
  qed simp
  then show ?thesis by (simp add: extra_space_def)
qed

lemma esc_one: "length (esc c) = 1 \<Longrightarrow> esc c = [c]"
  by (simp add: esc_def split: if_splits)

lemma fill:
  "length ms \<le> length r \<Longrightarrow>
   foldl (\<lambda>(result, pos) m. (result[pos + 1 := m], pos + 1)) (p @ b # r, length p) ms
     = (p @ b # ms @ drop (length ms) r, length p + length ms)"
proof (induction ms arbitrary: p b r)
  case (Cons m ms)
  then obtain x r' where r: "r = x # r'" by (cases r) auto
  have "(p @ b # r)[length p + 1 := m] = (p @ [b]) @ m # r'"
    by (simp add: list_update_append r)
  with Cons.IH [of r' "p @ [b]" m] Cons.prems show ?case by (simp add: r)
qed simp

lemma escape_char_esc:
  assumes "length p = pos"
  shows "escape_char c (p @ replicate (Suc (extra_space_char c + n)) (CHR 0x5C), pos)
    = ((p @ esc c) @ replicate n (CHR 0x5C), pos + length (esc c))"
proof -
  have two: "(p @ replicate (Suc (Suc m)) (CHR 0x5C))[pos + 1 := x] = (p @ [CHR 0x5C, x]) @ replicate m (CHR 0x5C)" for m x
    using assms by (simp add: list_update_append)
  have "extra_space_char c = 1 \<or> extra_space_char c = 5 \<or> extra_space_char c = 0" by simp
  then consider "extra_space_char c = 1" | "extra_space_char c = 5" "\<not> extra_space_char c = 1" | "extra_space_char c = 0"
    by linarith
  then show ?thesis
  proof cases
    case 1
    then have "c \<in> {CHR 0x22, CHR 0x5C, CHR 0x08, CHR 0x0C, CHR 0x0A, CHR 0x0D, CHR 0x09}"
      by (simp split: if_splits)
    then show ?thesis using two [of n] 1 assms
      by (elim insertE) (simp_all add: esc_def)
  next
    case 2
    then have c: "c \<notin> {CHR 0x22, CHR 0x5C, CHR 0x08, CHR 0x0C, CHR 0x0A, CHR 0x0D, CHR 0x09}" "of_char c \<le> (0x1F :: nat)"
      by (simp_all split: if_splits)
    let ?ms = "[CHR ''u'', CHR ''0'', CHR ''0'', hexify ! (of_char c div 16), hexify ! (of_char c mod 16)]"
    have "replicate (Suc (extra_space_char c + n)) (CHR 0x5C) = CHR 0x5C # replicate (5 + n) (CHR 0x5C)"
      unfolding 2(1) replicate.simps ..
    then have "escape_char c (p @ replicate (Suc (extra_space_char c + n)) (CHR 0x5C), pos)
      = (case foldl (\<lambda>(result, pos) m. (result[pos + 1 := m], pos + 1)) (p @ CHR 0x5C # replicate (5 + n) (CHR 0x5C), length p) ?ms of
           (result, pos) \<Rightarrow> (result, pos + 1))"
      using c assms by (simp only: escape_char.simps) simp
    also have "\<dots> = (p @ CHR 0x5C # ?ms @ replicate n (CHR 0x5C), length p + 6)"
      by (subst fill) simp_all
    finally have f: "escape_char c (p @ replicate (Suc (extra_space_char c + n)) (CHR 0x5C), pos)
      = (p @ CHR 0x5C # ?ms @ replicate n (CHR 0x5C), length p + 6)" .
    have e: "esc c = CHR 0x5C # ?ms" using c by (simp add: esc_def)
    show ?thesis unfolding f e using assms by simp
  next
    case 3
    then have "c \<notin> {CHR 0x22, CHR 0x5C, CHR 0x08, CHR 0x0C, CHR 0x0A, CHR 0x0D, CHR 0x09}" "\<not> of_char c \<le> (0x1F :: nat)"
      by (simp_all split: if_splits)
    then show ?thesis using 3 assms by (simp add: esc_def list_update_append)
  qed
qed

lemma escape_loop:
  assumes "length p = pos" "n = length (concat (map esc s))"
  shows "fst (foldl (\<lambda>st c. escape_char c st) (p @ replicate n (CHR 0x5C), pos) s) = p @ concat (map esc s)"
  using assms
proof (induction s arbitrary: p pos n)
  case (Cons c s)
  let ?m = "length (concat (map esc s))"
  have n: "n = Suc (extra_space_char c + ?m)" using Cons.prems(2) by (simp add: length_esc del: extra_space_char.simps)
  have step: "escape_char c (p @ replicate n (CHR 0x5C), pos) = ((p @ esc c) @ replicate ?m (CHR 0x5C), pos + length (esc c))"
    unfolding n by (rule escape_char_esc [OF Cons.prems(1)])
  have "foldl (\<lambda>st c. escape_char c st) (p @ replicate n (CHR 0x5C), pos) (c # s)
      = foldl (\<lambda>st c. escape_char c st) ((p @ esc c) @ replicate ?m (CHR 0x5C), pos + length (esc c)) s"
    by (simp only: foldl_Cons step)
  then show ?case using Cons.IH [of "p @ esc c" "pos + length (esc c)" ?m] Cons.prems(1) by simp
qed simp

lemma escape_string_esc: "escape_string s = concat (map esc s)"
proof (cases "extra_space s = 0")
  case True
  with extra_space_esc [of s] have len: "length (concat (map esc s)) = length s" by simp
  have ge: "length (concat (map esc t)) \<ge> length t" for t
    by (induction t) (simp_all add: length_esc del: extra_space_char.simps)
  from len have "concat (map esc s) = s"
  proof (induction s)
    case (Cons c s)
    then have "length (esc c) + length (concat (map esc s)) = Suc (length s)" by simp
    moreover have "length (esc c) \<ge> 1" "length (concat (map esc s)) \<ge> length s"
      by (simp_all only: length_esc ge)
    ultimately have "length (esc c) = 1" "length (concat (map esc s)) = length s" by linarith+
    then show ?case using Cons.IH esc_one [of c] by simp
  qed simp
  with True show ?thesis by (simp add: escape_string_def)
next
  case False
  then show ?thesis
    using escape_loop [of "[]" 0 "length s + extra_space s" s] extra_space_esc [of s]
    by (simp add: escape_string_def Let_def)
qed

end
