(* ===== verification/JsonCodec.thy ===== *)
theory JsonCodec
  imports Json Keys
begin

text \<open>
  The JSON form of transactions and blocks (\<open>json_serializer\<close> in
  \<open>iotchain/src/serialization.cpp\<close>). \<open>junk n\<close> stands for the previous contents of \<open>n\<close>
  uninitialised bytes: the code reads into members of a local \<open>TX\<close>, \<open>Block\<close> or \<open>public_key\<close>
  that it does not initialise.
\<close>

section \<open>Hexadecimal buffers\<close>

definition hex2 :: "u8 \<Rightarrow> string" where
  "hex2 b = hex_width 2 (unat b)"

definition hex_buffer :: "bytes \<Rightarrow> string res" where
  "hex_buffer data =
     (if length data \<ge> 2 ^ 31 then Inl (Undefined Signed_overflow)
      else Inr ((if length data > 0 then ''0x'' else []) @ concat (map hex2 data)))"

text \<open>
  The loop of \<open>integer_buffer\<close> on the characters from position \<open>i\<close> on. The 32-bit index wraps
  around for longer texts and then points before the buffer.
\<close>

fun integer_loop :: "nat \<Rightarrow> string \<Rightarrow> bytes \<Rightarrow> bytes res" where
  "integer_loop i [] out = Inr out"
| "integer_loop i (c # s) out =
     (let byte = word_of_int (strtol16 (takeWhile (\<lambda>x. x \<noteq> CHR 0x00) (c # take 1 s)))
      in if i div 2 - 1 < length out then integer_loop (i + 2) (drop 1 s) (out[i div 2 - 1 := byte])
         else Inl (Undefined Out_of_bounds))"

definition integer_buffer :: "string \<Rightarrow> bytes \<Rightarrow> bytes res" where
  "integer_buffer data out =
     (if data = [] then Inr out
      else if length data > 2 ^ 32 - 2 then Inl (Undefined Out_of_bounds)
      else integer_loop 2 (drop 2 data) out)"

text \<open>\<open>resize(text.length() / 2 - 1)\<close> on an empty vector.\<close>

definition resize_for :: "string \<Rightarrow> bytes res" where
  "resize_for data =
     (if size_sub (length data div 2) 1 > vec_max then Inl Length_error
      else Inr (replicate (size_sub (length data div 2) 1) 0))"

section \<open>Serializing\<close>

fun push_each :: "('x \<Rightarrow> json res) \<Rightarrow> 'x list \<Rightarrow> json \<Rightarrow> json res" where
  "push_each f [] j = Inr j"
| "push_each f (x # xs) j = rbind (f x) (\<lambda>v. rbind (push_back v j) (push_each f xs))"

definition json_of_input :: "TXInput \<Rightarrow> json res" where
  "json_of_input inp =
     rbind (hex_buffer (in_data inp)) (\<lambda>data.
       Inr (json_init [json_init [String ''amount'', Number_unsigned (in_amount inp)],
                       json_init [String ''data'', String data]]))"

definition json_of_output :: "TXOutput \<Rightarrow> json res" where
  "json_of_output out =
     (let to_pubkey = public_key_of (out_to out)
      in rbind (pub_encoded to_pubkey) (\<lambda>to.
           Inr (json_init [json_init [String ''amount'', Number_unsigned (out_amount out)],
                           json_init [String ''to'', String to]])))"

definition json_of_tx :: "digest \<Rightarrow> TX \<Rightarrow> json res" where
  "json_of_tx sha tx =
     (let from_pubkey = public_key_of (tx_from tx)
      in rbind (push_each json_of_input (tx_inputs tx) Null) (\<lambda>inputs.
         rbind (push_each json_of_output (tx_outputs tx) Null) (\<lambda>outputs.
         rbind (hex_buffer (TXHash sha tx)) (\<lambda>hash.
         rbind (pub_encoded from_pubkey) (\<lambda>from_text.
         rbind (hex_buffer (tx_signature tx)) (\<lambda>sign.
         rbind (hex_buffer (tx_extra tx)) (\<lambda>extra.
           Inr (json_init
             [json_init [String ''hash'', String hash],
              json_init [String ''from'', String from_text],
              json_init [String ''sign'', String sign],
              json_init [String ''time'', Number_unsigned (tx_time tx)],
              json_init [String ''inputs'', inputs],
              json_init [String ''outputs'', outputs],
              json_init [String ''extra'', String extra]]))))))))"

definition json_of_block :: "digest \<Rightarrow> bytes \<Rightarrow> Block \<Rightarrow> json res" where
  "json_of_block sha pad bl =
     rbind (push_each (json_of_tx sha) (tx_list bl) Null) (\<lambda>txes.
     rbind (hex_buffer (BlockHash sha pad bl)) (\<lambda>hash.
     rbind (hex_buffer (prev_block_hash bl)) (\<lambda>prev.
     rbind (json_of_tx sha (coinbase bl)) (\<lambda>cb.
       Inr (json_init
         [json_init [String ''hash'', String hash],
          json_init [String ''nonce'', Number_unsigned (ucast (nonce bl))],
          json_init [String ''timestamp'', Number_unsigned (timestamp bl)],
          json_init [String ''prev_block_hash'', String prev],
          json_init [String ''coinbase'', cb],
          json_init [String ''transactions'', txes]])))))"

section \<open>Deserializing\<close>

text \<open>\<open>j[key].get<T>()\<close>\<close>

definition string_at :: "string \<Rightarrow> json \<Rightarrow> (string \<times> json) res" where
  "string_at k j = rbind (index_key k j) (\<lambda>(v, j). rbind (get_string v) (\<lambda>s. Inr (s, j)))"

definition number_at :: "string \<Rightarrow> json \<Rightarrow> ('a::len word \<times> json) res" where
  "number_at k j = rbind (index_key k j) (\<lambda>(v, j). rbind (get_number v) (\<lambda>n. Inr (n, j)))"

definition input_of_json :: "json \<Rightarrow> TXInput res" where
  "input_of_json it =
     rbind (number_at ''amount'' it) (\<lambda>(amount, it).
     rbind (string_at ''data'' it) (\<lambda>(data, it).
     rbind (resize_for data) (\<lambda>buf.
     rbind (string_at ''data'' it) (\<lambda>(data, it).
     rbind (integer_buffer data buf) (\<lambda>buf.
       Inr \<lparr>in_amount = amount, in_data = buf\<rparr>)))))"

definition output_of_json :: "digest \<Rightarrow> (nat \<Rightarrow> bytes) \<Rightarrow> json \<Rightarrow> TXOutput res" where
  "output_of_json sha junk it =
     rbind (string_at ''to'' it) (\<lambda>(to, it).
     rbind (public_key_of_string sha (junk 25) to) (\<lambda>to_pubkey.
     rbind (number_at ''amount'' it) (\<lambda>(amount, it).
       Inr \<lparr>out_amount = amount, out_to = pub_data to_pubkey\<rparr>)))"

definition tx_of_json :: "digest \<Rightarrow> (nat \<Rightarrow> bytes) \<Rightarrow> json \<Rightarrow> TX res" where
  "tx_of_json sha junk j =
     rbind (string_at ''from'' j) (\<lambda>(from_text, j).
     rbind (public_key_of_string sha (junk 25) from_text) (\<lambda>from_pubkey.
     rbind (string_at ''sign'' j) (\<lambda>(sign, j).
     rbind (integer_buffer sign (junk 65)) (\<lambda>signature.
     rbind (number_at ''time'' j) (\<lambda>(time, j).
     rbind (string_at ''extra'' j) (\<lambda>(extra, j).
     rbind (resize_for extra) (\<lambda>buf.
     rbind (integer_buffer extra buf) (\<lambda>extra.
     rbind (index_key ''inputs'' j) (\<lambda>(inputs, j).
     rbind (map_res input_of_json (elements inputs)) (\<lambda>inputs.
     rbind (index_key ''outputs'' j) (\<lambda>(outputs, j).
     rbind (map_res (output_of_json sha junk) (elements outputs)) (\<lambda>outputs.
       Inr \<lparr>tx_time = time, tx_inputs = inputs, tx_outputs = outputs, tx_extra = extra,
            tx_from = pub_data from_pubkey, tx_signature = signature\<rparr>))))))))))))"

definition block_of_json :: "digest \<Rightarrow> (nat \<Rightarrow> bytes) \<Rightarrow> json \<Rightarrow> Block res" where
  "block_of_json sha junk j =
     rbind (number_at ''nonce'' j) (\<lambda>(non, j).
     rbind (number_at ''timestamp'' j) (\<lambda>(time, j).
     rbind (string_at ''prev_block_hash'' j) (\<lambda>(prev, j).
     rbind (integer_buffer prev (junk 32)) (\<lambda>prev.
     rbind (index_key ''coinbase'' j) (\<lambda>(cb, j).
     rbind (tx_of_json sha junk cb) (\<lambda>cb.
     rbind (index_key ''transactions'' j) (\<lambda>(txes, j).
     rbind (map_res (tx_of_json sha junk) (elements txes)) (\<lambda>txs.
       Inr \<lparr>nonce = non, timestamp = time, prev_block_hash = prev, coinbase = cb, tx_list = txs\<rparr>))))))))"

section \<open>Hexadecimal buffers are read back\<close>

lemma hex2_digits: "hex2 b = [hexify ! (unat b div 16), hexify ! (unat b mod 16)]"
proof (cases "unat b < 16")
  case True
  then show ?thesis by (simp add: hex2_def hex_width_def hex_text.simps hexify_def)
next
  case False
  have "unat b div 16 < 16" using unat_byte_less [of b] by linarith
  with False show ?thesis by (simp add: hex2_def hex_width_def hex_text.simps [of "unat b"] hex_text.simps [of "unat b div 16"])
qed

lemma strtol_two:
  assumes "hex_val x = Some d" "hex_val y = Some e" "\<not> isspace x" "x \<noteq> CHR ''-''" "x \<noteq> CHR ''+''"
  shows "strtol16 [x, y] = int (16 * d + e)"
  using assms by (simp add: strtol16_def)

lemma strtol_hex2: "strtol16 (hex2 b) = int (unat b)"
proof -
  have d: "unat b div 16 < 16" "unat b mod 16 < 16" using unat_byte_less [of b] by linarith+
  have "strtol16 (hex2 b) = int (16 * (unat b div 16) + unat b mod 16)"
    unfolding hex2_digits using hexify_val [OF d(1)] hexify_val [OF d(2)] by (intro strtol_two) blast+
  then show ?thesis by (simp only: mult_div_mod_eq)
qed

lemma hex2_plain: "takeWhile (\<lambda>x. x \<noteq> CHR 0x00) (hex2 b) = hex2 b"
proof -
  have d: "unat b div 16 < 16" "unat b mod 16 < 16" using unat_byte_less [of b] by linarith+
  show ?thesis using hexify_val [OF d(1)] hexify_val [OF d(2)] by (simp add: hex2_digits)
qed

lemma integer_loop_hex:
  assumes "length out = k + length bs" "i = 2 * (k + 1)"
  shows "integer_loop i (concat (map hex2 bs)) out = Inr (take k out @ bs)"
  using assms
proof (induction bs arbitrary: k i out)
  case (Cons b bs)
  have i: "i div 2 - 1 = k" "k < length out" using Cons.prems by simp_all
  obtain x y where h: "hex2 b = [x, y]" by (simp add: hex2_digits)
  have v: "strtol16 (takeWhile (\<lambda>x. x \<noteq> CHR 0x00) [x, y]) = int (unat b)"
    using strtol_hex2 [of b] hex2_plain [of b] by (simp add: h)
  have "integer_loop i (concat (map hex2 (b # bs))) out = integer_loop (i + 2) (concat (map hex2 bs)) (out[k := b])"
    using i v by (simp add: h del: takeWhile.simps)
  also have "\<dots> = Inr (take (Suc k) (out[k := b]) @ bs)"
    using Cons.prems by (intro Cons.IH) simp_all
  also have "take (Suc k) (out[k := b]) = take k out @ [b]"
    using i(2) by (simp add: take_Suc_conv_app_nth)
  finally show ?case by simp
qed simp

lemma length_concat_hex2 [simp]: "length (concat (map hex2 bs)) = 2 * length bs"
  by (induction bs) (simp_all add: hex2_digits)

lemma hex_buffer_read:
  assumes "length bs < 2 ^ 31 - 1"
  shows "\<exists>s. hex_buffer bs = Inr s \<and> (\<forall>out. length out = length bs \<longrightarrow> integer_buffer s out = Inr bs)
    \<and> (bs \<noteq> [] \<longrightarrow> resize_for s = Inr (replicate (length bs) 0))
    \<and> (bs = [] \<longrightarrow> s = [])"
proof (cases "bs = []")
  case True
  then show ?thesis by (simp add: hex_buffer_def integer_buffer_def)
next
  case False
  let ?s = "''0x'' @ concat (map hex2 bs)"
  have "hex_buffer bs = Inr ?s" using assms False by (simp add: hex_buffer_def)
  moreover have "integer_buffer ?s out = Inr bs" if "length out = length bs" for out
    using integer_loop_hex [of out 0 bs 2] that assms by (simp add: integer_buffer_def)
  moreover have "resize_for ?s = Inr (replicate (length bs) 0)"
    using assms by (simp add: resize_for_def size_sub_le vec_max_def)
  ultimately show ?thesis using False by blast
qed


section \<open>Round trips\<close>

lemma push_each_all:
  assumes "\<And>x. x \<in> set xs \<Longrightarrow> f x = Inr (g x)"
  shows "push_each f xs Null = Inr (if xs = [] then Null else Array (map g xs))"
proof -
  have arr: "push_each f ys (Array zs) = Inr (Array (zs @ map g ys))" if "\<And>x. x \<in> set ys \<Longrightarrow> f x = Inr (g x)" for ys zs
    using that by (induction ys arbitrary: zs) simp_all
  show ?thesis
  proof (cases xs)
    case (Cons x ys)
    with assms arr [of ys "[g x]"] show ?thesis by simp
  qed simp
qed

text \<open>What \<open>push_each\<close> builds, and what an iteration over it gives back.\<close>

definition array_of :: "('x \<Rightarrow> json) \<Rightarrow> 'x list \<Rightarrow> json" where
  "array_of g xs = (if xs = [] then Null else Array (map g xs))"

lemma elements_array_of [simp]: "elements (array_of g xs) = map g xs"
  by (simp add: array_of_def)

definition hex_of_bytes :: "bytes \<Rightarrow> string" where
  "hex_of_bytes bs = (if bs = [] then [] else ''0x'' @ concat (map hex2 bs))"

lemma hex_buffer_text: "length bs < 2 ^ 31 - 1 \<Longrightarrow> hex_buffer bs = Inr (hex_of_bytes bs)"
  by (simp add: hex_buffer_def hex_of_bytes_def)

lemma hex_of_bytes_read:
  assumes "length bs < 2 ^ 31 - 1"
  shows "length out = length bs \<Longrightarrow> integer_buffer (hex_of_bytes bs) out = Inr bs"
    and "bs \<noteq> [] \<Longrightarrow> resize_for (hex_of_bytes bs) = Inr (replicate (length bs) 0)"
  using hex_buffer_read [OF assms] hex_buffer_text [OF assms] by auto

lemma resize_for_Nil: "resize_for [] = Inl Length_error"
  by (simp add: resize_for_def size_sub_def vec_max_def)

text \<open>The texts and members of the JSON values, given the texts of the addresses.\<close>

definition input_json :: "TXInput \<Rightarrow> json" where
  "input_json i = Object [(''amount'', Number_unsigned (in_amount i)), (''data'', String (hex_of_bytes (in_data i)))]"

lemma json_of_input_eq:
  assumes "length (in_data i) < 2 ^ 31 - 1"
  shows "json_of_input i = Inr (input_json i)"
  using assms by (simp add: json_of_input_def input_json_def hex_buffer_text) (simp add: json_init_def)

lemma input_of_json_eq:
  assumes "length (in_data i) < 2 ^ 31 - 1"
  shows "input_of_json (input_json i) = (if in_data i \<noteq> [] then Inr i else Inl Length_error)"
proof (cases "in_data i = []")
  case True
  then show ?thesis
    by (simp add: input_of_json_def input_json_def number_at_def string_at_def hex_of_bytes_def resize_for_Nil)
next
  case False
  with hex_of_bytes_read [OF assms] show ?thesis
    by (cases i) (simp add: input_of_json_def input_json_def number_at_def string_at_def)
qed

definition good_address :: "digest \<Rightarrow> bytes \<Rightarrow> bool" where
  "good_address sha a \<longleftrightarrow> (\<exists>t h. t \<in> {account_public_key, smart_contract_public_key} \<and> length h = 20
     \<and> a = key_payload sha t h)"

definition address_text :: "bytes \<Rightarrow> string" where
  "address_text a = (case base58_encode a of Inr s \<Rightarrow> s | Inl e \<Rightarrow> [])"

lemma good_address_text:
  assumes "good_address sha a" "length mem = 25"
  shows "pub_encoded (public_key_of a) = Inr (address_text a)"
    and "\<exists>k. public_key_of_string sha mem (address_text a) = Inr k \<and> pub_data k = a"
proof -
  from assms(1) obtain t h where "t \<in> {account_public_key, smart_contract_public_key}" "length h = 20"
    "a = key_payload sha t h" by (auto simp: good_address_def)
  with public_key_parse [of h t mem sha] assms(2)
  show "pub_encoded (public_key_of a) = Inr (address_text a)"
    "\<exists>k. public_key_of_string sha mem (address_text a) = Inr k \<and> pub_data k = a"
    by (auto simp: pub_encoded_def public_key_of_def address_text_def)
qed

definition output_json :: "TXOutput \<Rightarrow> json" where
  "output_json out = Object [(''amount'', Number_unsigned (out_amount out)), (''to'', String (address_text (out_to out)))]"

lemma output_json_eq:
  assumes "good_address sha (out_to out)" "\<And>n. length (junk n) = n"
  shows "json_of_output out = Inr (output_json out)"
    and "output_of_json sha junk (output_json out) = Inr out"
proof -
  note t = good_address_text [OF assms(1) assms(2)]
  show "json_of_output out = Inr (output_json out)"
    using t(1) by (simp add: json_of_output_def output_json_def Let_def) (simp add: json_init_def)
  from t(2) show "output_of_json sha junk (output_json out) = Inr out"
    by (cases out) (auto simp: output_of_json_def output_json_def number_at_def string_at_def)
qed

definition json_ready :: "digest \<Rightarrow> TX \<Rightarrow> bool" where
  "json_ready sha tx \<longleftrightarrow> good_address sha (tx_from tx) \<and> length (tx_signature tx) = 65
     \<and> length (tx_extra tx) < 2 ^ 31 - 1 \<and> list_all (\<lambda>i. length (in_data i) < 2 ^ 31 - 1) (tx_inputs tx)
     \<and> list_all (\<lambda>out. good_address sha (out_to out)) (tx_outputs tx)"

definition readable :: "TX \<Rightarrow> bool" where
  "readable tx \<longleftrightarrow> tx_extra tx \<noteq> [] \<and> list_all (\<lambda>i. in_data i \<noteq> []) (tx_inputs tx)"

definition tx_json :: "digest \<Rightarrow> TX \<Rightarrow> json" where
  "tx_json sha tx = Object
     [(''extra'', String (hex_of_bytes (tx_extra tx))), (''from'', String (address_text (tx_from tx))),
      (''hash'', String (hex_of_bytes (TXHash sha tx))), (''inputs'', array_of input_json (tx_inputs tx)),
      (''outputs'', array_of output_json (tx_outputs tx)), (''sign'', String (hex_of_bytes (tx_signature tx))),
      (''time'', Number_unsigned (tx_time tx))]"

lemma tx_json_eq:
  assumes "json_ready sha tx" "\<And>n. length (junk n) = n" "\<And>x. length (sha x) < 2 ^ 31 - 1"
  shows "json_of_tx sha tx = Inr (tx_json sha tx)"
    and "tx_of_json sha junk (tx_json sha tx) = (if readable tx then Inr tx else Inl Length_error)"
proof -
  have ready: "good_address sha (tx_from tx)" "length (tx_signature tx) = 65" "length (tx_extra tx) < 2 ^ 31 - 1"
    "\<And>i. i \<in> set (tx_inputs tx) \<Longrightarrow> length (in_data i) < 2 ^ 31 - 1"
    "\<And>out. out \<in> set (tx_outputs tx) \<Longrightarrow> good_address sha (out_to out)"
    using assms(1) by (auto simp: json_ready_def list_all_iff)
  have "push_each json_of_input (tx_inputs tx) Null = Inr (array_of input_json (tx_inputs tx))"
    unfolding array_of_def by (rule push_each_all) (rule json_of_input_eq [OF ready(4)])
  moreover have "push_each json_of_output (tx_outputs tx) Null = Inr (array_of output_json (tx_outputs tx))"
    unfolding array_of_def by (rule push_each_all) (rule output_json_eq(1) [OF ready(5) assms(2)])
  moreover have "hex_buffer (TXHash sha tx) = Inr (hex_of_bytes (TXHash sha tx))"
    using assms(3) by (intro hex_buffer_text) (simp add: TXHash_image)
  ultimately show "json_of_tx sha tx = Inr (tx_json sha tx)"
    using good_address_text(1) [OF ready(1), of "junk 25"] assms(2) hex_buffer_text [OF ready(3)]
      hex_buffer_text [of "tx_signature tx"] ready(2)
    by (simp add: json_of_tx_def Let_def) (simp add: json_init_def tx_json_def)
  from good_address_text(2) [OF ready(1), of "junk 25"] assms(2) obtain k where
    k: "public_key_of_string sha (junk 25) (address_text (tx_from tx)) = Inr k" "pub_data k = tx_from tx" by auto
  have sign: "integer_buffer (hex_of_bytes (tx_signature tx)) (junk 65) = Inr (tx_signature tx)"
    using hex_of_bytes_read(1) [of "tx_signature tx" "junk 65"] ready(2) assms(2) by simp
  have ins: "map_res input_of_json (map input_json (tx_inputs tx))
      = (if list_all (\<lambda>i. in_data i \<noteq> []) (tx_inputs tx) then Inr (tx_inputs tx) else Inl Length_error)"
    by (rule map_res_all) (rule input_of_json_eq [OF ready(4)])
  have outs: "map_res (output_of_json sha junk) (map output_json (tx_outputs tx)) = Inr (tx_outputs tx)"
    using map_res_all [of "tx_outputs tx" "output_of_json sha junk" output_json "\<lambda>_. True"]
      output_json_eq(2) [OF ready(5) assms(2)] by (simp add: list_all_iff)
  show "tx_of_json sha junk (tx_json sha tx) = (if readable tx then Inr tx else Inl Length_error)"
  proof (cases "tx_extra tx = []")
    case True
    then show ?thesis using k sign
      by (simp add: tx_of_json_def tx_json_def string_at_def number_at_def readable_def hex_of_bytes_def [of "[]"] resize_for_Nil)
  next
    case False
    with hex_of_bytes_read [OF ready(3)] k sign ins outs show ?thesis
      by (cases tx) (auto simp: tx_of_json_def tx_json_def string_at_def number_at_def readable_def)
  qed
qed


definition block_json :: "digest \<Rightarrow> bytes \<Rightarrow> Block \<Rightarrow> json" where
  "block_json sha pad bl = Object
     [(''coinbase'', tx_json sha (coinbase bl)), (''hash'', String (hex_of_bytes (BlockHash sha pad bl))),
      (''nonce'', Number_unsigned (ucast (nonce bl))),
      (''prev_block_hash'', String (hex_of_bytes (prev_block_hash bl))),
      (''timestamp'', Number_unsigned (timestamp bl)), (''transactions'', array_of (tx_json sha) (tx_list bl))]"

lemma block_json_eq:
  assumes "length (prev_block_hash bl) = 32" "json_ready sha (coinbase bl)" "list_all (json_ready sha) (tx_list bl)"
    and "\<And>n. length (junk n) = n" "\<And>x. length (sha x) < 2 ^ 31 - 1"
  shows "json_of_block sha pad bl = Inr (block_json sha pad bl)"
    and "block_of_json sha junk (block_json sha pad bl)
      = (if readable (coinbase bl) \<and> list_all readable (tx_list bl) then Inr bl else Inl Length_error)"
proof -
  have ready: "\<And>tx. tx \<in> set (tx_list bl) \<Longrightarrow> json_ready sha tx" using assms(3) by (simp add: list_all_iff)
  note cb = tx_json_eq [OF assms(2,4,5)] and tx = tx_json_eq [OF ready assms(4,5)]
  have "push_each (json_of_tx sha) (tx_list bl) Null = Inr (array_of (tx_json sha) (tx_list bl))"
    unfolding array_of_def by (rule push_each_all) (rule tx(1))
  moreover have "hex_buffer (BlockHash sha pad bl) = Inr (hex_of_bytes (BlockHash sha pad bl))"
    using assms(5) by (intro hex_buffer_text) (simp add: BlockHash_image)
  ultimately show "json_of_block sha pad bl = Inr (block_json sha pad bl)"
    using cb(1) hex_buffer_text [of "prev_block_hash bl"] assms(1)
    by (simp add: json_of_block_def) (simp add: json_init_def block_json_def)
  have prev: "integer_buffer (hex_of_bytes (prev_block_hash bl)) (junk 32) = Inr (prev_block_hash bl)"
    using hex_of_bytes_read(1) [of "prev_block_hash bl" "junk 32"] assms(1,4) by simp
  have txs: "map_res (tx_of_json sha junk) (map (tx_json sha) (tx_list bl))
      = (if list_all readable (tx_list bl) then Inr (tx_list bl) else Inl Length_error)"
    by (rule map_res_all) (rule tx(2))
  have nonce64: "(ucast (ucast n :: u64) :: u32) = n" for n :: u32
    by (rule ucast_up_ucast_id) (simp add: is_up)
  show "block_of_json sha junk (block_json sha pad bl)
      = (if readable (coinbase bl) \<and> list_all readable (tx_list bl) then Inr bl else Inl Length_error)"
    using prev txs cb(2) nonce64
    by (cases bl) (auto simp: block_of_json_def block_json_def string_at_def number_at_def)
qed

text \<open>
  A transaction with valid addresses is written as JSON without an error, and reading the
  JSON gives back the transaction, provided its extra field and the data of each input are not
  empty; if one is empty, reading throws a length error, since the text of an empty buffer is
  empty and is taken for one of \<open>0 / 2 - 1\<close> bytes.
\<close>

theorem json_tx_roundtrip:
  assumes "json_ready sha tx" "\<And>n. length (junk n) = n" "\<And>x. length (sha x) < 2 ^ 31 - 1"
  shows "\<exists>j. json_of_tx sha tx = Inr j \<and> tx_of_json sha junk j =
    (if tx_extra tx \<noteq> [] \<and> (\<forall>i \<in> set (tx_inputs tx). in_data i \<noteq> []) then Inr tx else Inl Length_error)"
  using tx_json_eq [OF assms] by (simp add: readable_def list_all_iff)

definition ready_tx :: "bytes \<Rightarrow> TX" where
  "ready_tx extra = \<lparr>tx_time = 3, tx_inputs = [\<lparr>in_amount = 5, in_data = [1]\<rparr>], tx_outputs = [], tx_extra = extra,
     tx_from = key_payload (\<lambda>_. [9]) 0 (replicate 20 7), tx_signature = replicate 65 1\<rparr>"

lemma ready_tx_ready: "length extra < 100 \<Longrightarrow> json_ready (\<lambda>_. [9]) (ready_tx extra)"
  by (auto simp: json_ready_def ready_tx_def good_address_def key_types intro!: exI [of _ "0 :: u8"] exI [of _ "replicate 20 7 :: bytes"])

theorem json_tx_roundtrip_witness:
  "(\<exists>j. json_of_tx (\<lambda>_. [9]) (ready_tx [2]) = Inr j \<and> tx_of_json (\<lambda>_. [9]) (\<lambda>n. replicate n 0) j = Inr (ready_tx [2]))
   \<and> (\<exists>j. json_of_tx (\<lambda>_. [9]) (ready_tx []) = Inr j \<and> tx_of_json (\<lambda>_. [9]) (\<lambda>n. replicate n 0) j = Inl Length_error)"
  using json_tx_roundtrip [OF ready_tx_ready [of "[2]"], of "\<lambda>n. replicate n 0"]
    json_tx_roundtrip [OF ready_tx_ready [of "[]"], of "\<lambda>n. replicate n 0"]
  by (simp add: ready_tx_def)



end
