(* ===== verification/MsgHandler.thy ===== *)
theory MsgHandler
  imports Node StreamCodec JsonCodec
begin

text \<open>
  What a node of the chain does with the messages its peer class does not handle itself
  (\<open>iotchain/src/P2P/msg_handler.cpp\<close>, \<open>p2p_node.cpp\<close>) and how it announces a transaction
  (\<open>blockchain::send_tx\<close> in \<open>iotchain/src/Core/Blockchain.cpp\<close>). The state of the application is
  its log.
\<close>

type_synonym app_log = "(log_level \<times> string) list"

definition MSG_TYPE_NEW_TX :: u8 where "MSG_TYPE_NEW_TX = 3"
definition MSG_TYPE_NEW_BLOCK :: u8 where "MSG_TYPE_NEW_BLOCK = 4"

lemmas chain_msg_types = MSG_TYPE_NEW_TX_def MSG_TYPE_NEW_BLOCK_def

text \<open>The functions of the vendored and linked libraries that verification needs.\<close>

record crypto =
  sha256 :: digest
  ripemd :: digest
  secp_recover :: "bytes \<Rightarrow> nat \<Rightarrow> bytes \<Rightarrow> bytes"
  network_id :: u8

definition OnNewTransaction :: "crypto \<Rightarrow> app_log process" where
  "OnNewTransaction c msg lg =
     (case deserialize_tx bs_read msg of
        Inl e \<Rightarrow> (Inl e, lg)
      | Inr (tx, msg) \<Rightarrow>
          (let pub_key = public_key_of (tx_from tx);
               verified = pub_verify (sha256 c) (ripemd c) (secp_recover c) (network_id c) pub_key
                            (TXHash (sha256 c) tx) (tx_signature tx)
           in case json_of_tx (sha256 c) tx of
                Inl e \<Rightarrow> (Inl e, lg)
              | Inr jtx \<Rightarrow>
                  (if \<not> verified then
                     (case rbind (string_at ''hash'' jtx) (\<lambda>(hash, jtx). rbind (string_at ''sign'' jtx) (\<lambda>(sign, jtx).
                             Inr (''invalid TX signature hash:'' @ hash @ '', sign:'' @ sign))) of
                        Inl e \<Rightarrow> (Inl e, lg)
                      | Inr text \<Rightarrow> (Inr (verified, msg), lg @ [(Log_err, text)]))
                   else (Inr (verified, msg), lg @ [(Log_info, dump_json 4 jtx)]))))"

definition OnNewBlock :: "app_log process" where
  "OnNewBlock msg lg =
     (case deserialize_block bs_read msg of
        Inl e \<Rightarrow> (Inl e, lg)
      | Inr (bl, msg) \<Rightarrow> (Inr (True, msg), lg))"

text \<open>\<open>m_handlers\<close>, and the lookup in it.\<close>

definition m_handlers :: "crypto \<Rightarrow> u8 \<Rightarrow> app_log process option" where
  "m_handlers c = [MSG_TYPE_NEW_TX \<mapsto> OnNewTransaction c, MSG_TYPE_NEW_BLOCK \<mapsto> OnNewBlock]"

definition handle_message :: "crypto \<Rightarrow> app_log process" where
  "handle_message c msg lg =
     (case m_handlers c (hdr_type (header msg)) of
        Some handler \<Rightarrow> handler msg lg
      | None \<Rightarrow> (Inr (False, msg), lg))"

definition p2p_node_process_msg :: "crypto \<Rightarrow> app_log process" where
  "p2p_node_process_msg c msg lg = handle_message c msg lg"

definition send_tx :: "u32 \<Rightarrow> TX \<Rightarrow> 'app node \<Rightarrow> (bool \<times> 'app node) res" where
  "send_tx junk tx n =
     rbind (serialize_tx bs_write tx (message_new junk MSG_TYPE_NEW_TX 45)) (\<lambda>msg.
     rbind (broadcast msg None n) (\<lambda>n. Inr (True, n)))"

section \<open>Properties\<close>

lemma read_word_eof:
  assumes "bs_inv s" "snd (cursor s) = []"
  shows "(read_word bs_read s :: (u64 \<times> _) res) = Inl end_of_stream"
    and "(read_word bs_read s :: (u32 \<times> _) res) = Inl end_of_stream"
  using assms by (simp_all add: read_word_def bs_read_eof)

lemma received_at_end:
  assumes "message_recv hdr buf = Inr m"
  shows "bs_inv m" "snd (cursor m) = []"
  using assms
  by (auto simp: message_recv_def Let_def message_ext bs_write_def bs_size_def insert_at_def vec_max_def
      bs_inv_def cursor_def split: if_splits option.splits)

lemma hop_stream: "bs_inv (hop m) = bs_inv m" "cursor (hop m) = cursor m" "hdr_type (header (hop m)) = hdr_type (header m)"
  by (simp_all add: hop_def stream_defs)


definition no_crypto :: crypto where
  "no_crypto = \<lparr>sha256 = (\<lambda>bs. replicate 32 0), ripemd = (\<lambda>bs. replicate 20 0),
     secp_recover = (\<lambda>sig r h. []), network_id = MAIN_NETWORK_ID\<rparr>"

definition log_node :: "app_log node" where
  "log_node = do_accept (replicate 16 1) (node_new 0 [])"


text \<open>
  Had the cursor been moved back to the start of the payload, the handler would decide as
  intended: on the serialized form of a transaction without inputs and outputs it verifies the
  signature over the hash of exactly that transaction with the sender's address, and returns the
  verdict.
\<close>

theorem rewound_transaction_verified:
  assumes "small_tx tx" "tx_inputs tx = []" "tx_outputs tx = []" "good_address (sha256 c) (tx_from tx)"
    and "length (tx_extra tx) < 2 ^ 31 - 1" "\<And>x. length (sha256 c x) < 2 ^ 31 - 1"
    and "bs_buf m = tx_wire tx" "bs_pos m = length (tx_wire tx)" "length (tx_wire tx) \<le> vec_max"
  shows "\<exists>m' entry. rbind (bs_move_to 0 m) (\<lambda>m. fst (OnNewTransaction c m lg)) = Inr (pub_verify (sha256 c) (ripemd c)
      (secp_recover c) (network_id c) (public_key_of (tx_from tx)) (TXHash (sha256 c) tx) (tx_signature tx), m')
    \<and> rmap (\<lambda>m. snd (OnNewTransaction c m lg)) (bs_move_to 0 m) = Inr (lg @ [entry])"
proof -
  let ?m = "m\<lparr>bs_pos := 0\<rparr>"
  have inv: "bs_inv ?m" "snd (cursor ?m) = tx_wire tx @ []"
    using assms(7,9) by (simp_all add: stream_defs)
  have "bs_reader.parses (deserialize_tx bs_read :: message \<Rightarrow> _) (tx_wire tx) (padded_tx tx)"
    by (rule bs_reader.parses_tx [OF assms(1)])
  moreover have "padded_tx tx = tx" using assms(2,3) by (simp add: padded_tx_id)
  ultimately have "bs_reader.reads (deserialize_tx bs_read :: message \<Rightarrow> _) (tx_wire tx) tx"
    by (simp add: bs_reader.parses_def)
  from bs_reader.readsD [OF this inv] obtain m' where m': "deserialize_tx bs_read ?m = Inr (tx, m')" by blast
  have "json_ready (sha256 c) tx"
    using assms by (simp add: json_ready_def small_tx_def wf_TX_def)
  from tx_json_eq(1) [OF this _ assms(6), of "\<lambda>n. replicate n 0"]
  have j: "json_of_tx (sha256 c) tx = Inr (tx_json (sha256 c) tx)" by simp
  have "\<exists>h s. string_at ''hash'' (tx_json (sha256 c) tx) = Inr (h, tx_json (sha256 c) tx)
      \<and> string_at ''sign'' (tx_json (sha256 c) tx) = Inr (s, tx_json (sha256 c) tx)"
    by (simp add: tx_json_def string_at_def)
  with m' j have "\<exists>entry. OnNewTransaction c ?m lg = (Inr (pub_verify (sha256 c) (ripemd c) (secp_recover c)
      (network_id c) (public_key_of (tx_from tx)) (TXHash (sha256 c) tx) (tx_signature tx), m'), lg @ [entry])"
    by (auto simp: OnNewTransaction_def Let_def)
  moreover have "bs_move_to 0 m = Inr ?m" by (simp add: bs_move_to_def)
  ultimately show ?thesis by auto
qed

theorem rewound_transaction_verified_witness:
  "\<exists>m' entry. rbind (bs_move_to 0 \<lparr>bs_buf = tx_wire (ready_tx [2]\<lparr>tx_inputs := []\<rparr>),
         bs_pos = length (tx_wire (ready_tx [2]\<lparr>tx_inputs := []\<rparr>)), header = \<lparr>hdr_size = 0, hdr_type = 3, hdr_ttl = 44\<rparr>\<rparr>)
       (\<lambda>m. fst (OnNewTransaction (no_crypto\<lparr>sha256 := \<lambda>_. [9]\<rparr>) m [])) = Inr (False, m')"
proof -
  let ?tx = "ready_tx [2]\<lparr>tx_inputs := []\<rparr>" and ?c = "no_crypto\<lparr>sha256 := \<lambda>_. [9]\<rparr>"
  let ?m = "\<lparr>bs_buf = tx_wire ?tx, bs_pos = length (tx_wire ?tx), header = \<lparr>hdr_size = 0, hdr_type = 3, hdr_ttl = 44\<rparr>\<rparr>"
  have "small_tx ?tx" by (simp add: small_tx_def wf_TX_def ready_tx_def)
  moreover have "good_address (sha256 ?c) (tx_from ?tx)"
    using ready_tx_ready [of "[2]"] by (simp add: json_ready_def no_crypto_def ready_tx_def)
  moreover have "length (tx_wire ?tx) \<le> vec_max"
    by (simp add: tx_wire_def ready_tx_def size_bytes_def vec_max_def)
  moreover have "slice (Suc 0) 20 (key_payload (\<lambda>_. [9]) 0 (replicate 20 7)) = replicate 20 7"
    using key_payload_parts(3) [of "replicate 20 7" "\<lambda>_. [9]" 0] by simp
  then have "\<not> pub_verify (sha256 ?c) (ripemd ?c) (secp_recover ?c) (network_id ?c) (public_key_of (tx_from ?tx))
      (TXHash (sha256 ?c) ?tx) (tx_signature ?tx)"
    by (simp add: pub_verify_def public_key_of_def ready_tx_def no_crypto_def hash160_def Let_def)
  ultimately show ?thesis
    using rewound_transaction_verified [of ?tx ?c ?m "[]"] by (auto simp: ready_tx_def no_crypto_def)
qed

text \<open>
  Announcing a transaction reports success and sends nothing: the broadcast has no sender to
  leave out, and the condition that leaves the sender out then leaves out everybody.
\<close>

theorem send_tx_reaches_nobody:
  assumes "length (tx_wire tx) \<le> vec_max"
  shows "send_tx junk tx n = Inr (True, n)"
proof -
  have "bs_inv (message_new junk MSG_TYPE_NEW_TX 45)" "bs_size (message_new junk MSG_TYPE_NEW_TX 45) = 0"
    by (simp_all add: message_new_def message_ext bs_inv_def bs_size_def)
  with bs_writer.writesD [OF bs_writer.writes_tx this(1), of tx] assms show ?thesis
    by (auto simp: send_tx_def broadcast_null)
qed

theorem send_tx_reaches_nobody_witness:
  "send_tx 0 (sample_tx 1) two_peers = Inr (True, two_peers)"
proof -
  have "length (tx_wire (sample_tx 1)) \<le> vec_max"
    by (simp add: tx_wire_def size_bytes_def sample_tx_def input_wire_def output_wire_def vec_max_def)
  then show ?thesis by (rule send_tx_reaches_nobody)
qed

end
