(* ===== verification/JsonLexer.thy ===== *)
theory JsonLexer
  imports Json
begin

unbundle bit_operations_syntax

text \<open>
  The scanner of \<open>json.hpp\<close> (class \<open>lexer\<close>) for a buffer in memory: the automaton that re2c
  generated, label by label, and the values of string and number tokens. A pointer into the
  buffer is the rest of the buffer from there, including the zero byte behind the last character,
  so that \<open>[]\<close> is the pointer behind that byte, which must not be read. \<open>m_limit\<close> points to the
  zero byte. Without a stream \<open>yyfill\<close> does nothing, and its calls are left out.
\<close>

section \<open>Tokens\<close>

datatype token_type =
    uninitialized
  | literal_true
  | literal_false
  | literal_null
  | value_string
  | value_number
  | begin_array
  | begin_object
  | end_array
  | end_object
  | name_separator
  | value_separator
  | parse_error
  | end_of_input

fun token_type_name :: "token_type \<Rightarrow> string" where
  "token_type_name uninitialized = ''<uninitialized>''"
| "token_type_name literal_true = ''true literal''"
| "token_type_name literal_false = ''false literal''"
| "token_type_name literal_null = ''null literal''"
| "token_type_name value_string = ''string literal''"
| "token_type_name value_number = ''number literal''"
| "token_type_name begin_array = [CHR 0x27, CHR ''['', CHR 0x27]"
| "token_type_name begin_object = [CHR 0x27, CHR ''{'', CHR 0x27]"
| "token_type_name end_array = [CHR 0x27, CHR '']'', CHR 0x27]"
| "token_type_name end_object = [CHR 0x27, CHR ''}'', CHR 0x27]"
| "token_type_name name_separator = [CHR 0x27, CHR '':'', CHR 0x27]"
| "token_type_name value_separator = [CHR 0x27, CHR '','', CHR 0x27]"
| "token_type_name parse_error = ''<parse error>''"
| "token_type_name end_of_input = ''end of input''"

record lexer =
  m_start :: string
  m_marker :: "string option"
  m_cursor :: string
  last_token_type :: token_type

definition lexer_of :: "string \<Rightarrow> lexer" where
  "lexer_of s = \<lparr>m_start = s @ [CHR 0x00], m_marker = None, m_cursor = s @ [CHR 0x00], last_token_type = end_of_input\<rparr>"

definition get_token_string :: "lexer \<Rightarrow> string" where
  "get_token_string lx = take (length (m_start lx) - length (m_cursor lx)) (m_start lx)"

section \<open>The automaton\<close>

text \<open>The scanner with the local variables of the generated code.\<close>

record scanner = lexer +
  yyaccept :: nat
  yych :: char

text \<open>\<open>basic_json_parser_n\<close> is the label \<open>n\<close>; label 1 is the beginning of the loop.\<close>

datatype jump = Goto nat | Again | Leave

type_synonym block = "scanner \<Rightarrow> (jump \<times> scanner) res"

definition yybm :: "nat list" where
  "yybm = replicate 9 0 @ [32, 32, 0, 0, 32] @ replicate 18 0
     @ [160, 128, 0, 128, 128, 128, 128, 128] @ replicate 8 128
     @ replicate 10 192 @ replicate 34 128 @ [0] @ replicate 163 128"

definition in_class :: "nat \<Rightarrow> char \<Rightarrow> bool" where
  "in_class bits c \<longleftrightarrow> (yybm ! of_char c) AND bits \<noteq> 0"

definition goto :: "nat \<Rightarrow> block" where
  "goto l s = Inr (Goto l, s)"

definition accept :: "token_type \<Rightarrow> block" where
  "accept t s = Inr (Leave, s\<lparr>last_token_type := t\<rparr>)"

text \<open>\<open>++m_cursor\<close> and \<open>yych = *m_cursor\<close>\<close>

definition inc :: "scanner \<Rightarrow> scanner res" where
  "inc s = (case m_cursor s of [] \<Rightarrow> Inl (Undefined Out_of_bounds) | c # r \<Rightarrow> Inr (s\<lparr>m_cursor := r\<rparr>))"

definition load :: "scanner \<Rightarrow> scanner res" where
  "load s = (case m_cursor s of [] \<Rightarrow> Inl (Undefined Out_of_bounds) | c # r \<Rightarrow> Inr (s\<lparr>yych := c\<rparr>))"

definition next_char :: "(scanner \<Rightarrow> nat) \<Rightarrow> block" where
  "next_char f s = rbind (inc s) (\<lambda>s. rbind (load s) (\<lambda>s. goto (f s) s))"

definition next_mark :: "nat \<Rightarrow> (scanner \<Rightarrow> nat) \<Rightarrow> block" where
  "next_mark a f s =
     rbind (inc (s\<lparr>yyaccept := a\<rparr>)) (\<lambda>s. rbind (load (s\<lparr>m_marker := Some (m_cursor s)\<rparr>)) (\<lambda>s. goto (f s) s))"

definition take_token :: "token_type \<Rightarrow> block" where
  "take_token t s = rbind (inc s) (accept t)"

text \<open>The first character of a token.\<close>

definition basic_json_parser_1 :: block where
  "basic_json_parser_1 s =
     rbind (load (s\<lparr>m_marker := None, m_start := m_cursor s, yyaccept := 0\<rparr>)) (\<lambda>s.
       let c = yych s in
       goto (if in_class 32 c then 6
         else if c \<le> CHR 0x5C then
           (if c \<le> CHR ''-'' then
              (if c \<le> CHR 0x22 then (if c \<le> CHR 0x00 then 2 else if c \<le> CHR ''!'' then 4 else 9)
               else if c \<le> CHR ''+'' then 4 else if c \<le> CHR '','' then 10 else 12)
            else if c \<le> CHR ''9'' then (if c \<le> CHR ''/'' then 4 else if c \<le> CHR ''0'' then 13 else 15)
            else if c \<le> CHR '':'' then 17 else if c = CHR ''['' then 19 else 4)
         else if c \<le> CHR ''t'' then
           (if c \<le> CHR ''f'' then (if c \<le> CHR '']'' then 21 else if c \<le> CHR ''e'' then 4 else 23)
            else if c = CHR ''n'' then 24 else if c \<le> CHR ''s'' then 4 else 25)
         else if c \<le> CHR ''|'' then (if c = CHR ''{'' then 26 else 4)
         else if c \<le> CHR ''}'' then 28 else if c = CHR 0xEF then 30 else 4) s)"

definition basic_json_parser_2 :: block where
  "basic_json_parser_2 = take_token end_of_input"

definition basic_json_parser_4 :: block where
  "basic_json_parser_4 s = rbind (inc s) (goto 5)"

definition basic_json_parser_5 :: block where
  "basic_json_parser_5 = accept parse_error"

definition basic_json_parser_6 :: block where
  "basic_json_parser_6 s = rbind (inc s) (\<lambda>s. rbind (load s) (\<lambda>s. if in_class 32 (yych s) then goto 6 s else Inr (Again, s)))"

definition basic_json_parser_9 :: block where
  "basic_json_parser_9 = next_mark 0 (\<lambda>s. let c = yych s in if c \<le> CHR 0x1F then 5 else 32)"

definition basic_json_parser_10 :: block where
  "basic_json_parser_10 = take_token value_separator"

definition basic_json_parser_12 :: block where
  "basic_json_parser_12 = next_char (\<lambda>s. let c = yych s in if c \<le> CHR ''/'' then 5 else if c \<le> CHR ''0'' then 13 else if c \<le> CHR ''9'' then 15 else 5)"

definition basic_json_parser_13 :: block where
  "basic_json_parser_13 = next_mark 1 (\<lambda>s. let c = yych s in 
     if c \<le> CHR ''D'' then if c = CHR ''.'' then 37 else 14
     else if c \<le> CHR ''E'' then 38 else if c = CHR ''e'' then 38 else 14)"

definition basic_json_parser_14 :: block where
  "basic_json_parser_14 = accept value_number"

definition basic_json_parser_15 :: block where
  "basic_json_parser_15 = next_mark 1 (\<lambda>s. let c = yych s in 
     if in_class 64 c then 15
     else if c \<le> CHR ''D'' then if c = CHR ''.'' then 37 else 14
     else if c \<le> CHR ''E'' then 38 else if c = CHR ''e'' then 38 else 14)"

definition basic_json_parser_17 :: block where
  "basic_json_parser_17 = take_token name_separator"

definition basic_json_parser_19 :: block where
  "basic_json_parser_19 = take_token begin_array"

definition basic_json_parser_21 :: block where
  "basic_json_parser_21 = take_token end_array"

definition basic_json_parser_23 :: block where
  "basic_json_parser_23 = next_mark 0 (\<lambda>s. let c = yych s in if c = CHR ''a'' then 39 else 5)"

definition basic_json_parser_24 :: block where
  "basic_json_parser_24 = next_mark 0 (\<lambda>s. let c = yych s in if c = CHR ''u'' then 40 else 5)"

definition basic_json_parser_25 :: block where
  "basic_json_parser_25 = next_mark 0 (\<lambda>s. let c = yych s in if c = CHR ''r'' then 41 else 5)"

definition basic_json_parser_26 :: block where
  "basic_json_parser_26 = take_token begin_object"

definition basic_json_parser_28 :: block where
  "basic_json_parser_28 = take_token end_object"

definition basic_json_parser_30 :: block where
  "basic_json_parser_30 = next_mark 0 (\<lambda>s. let c = yych s in if c = CHR 0xBB then 42 else 5)"

definition basic_json_parser_31 :: block where
  "basic_json_parser_31 s = rbind (inc s) (\<lambda>s. rbind (load s) (goto 32))"

definition basic_json_parser_32 :: block where
  "basic_json_parser_32 s =
     (let c = yych s in
      if in_class 128 c then goto 31 s else if c \<le> CHR 0x1F then goto 33 s else if c \<le> CHR 0x22 then goto 34 s else goto 36 s)"

text \<open>Back to the last marker.\<close>

definition basic_json_parser_33 :: block where
  "basic_json_parser_33 s =
     (case m_marker s of
        None \<Rightarrow> Inl (Undefined Dangling_reference)
      | Some p \<Rightarrow> goto (if yyaccept s = 0 then 5 else 14) (s\<lparr>m_cursor := p\<rparr>))"

definition basic_json_parser_34 :: block where
  "basic_json_parser_34 = take_token value_string"

definition basic_json_parser_36 :: block where
  "basic_json_parser_36 = next_char (\<lambda>s. let c = yych s in 
     if c \<le> CHR ''e'' then
       (if c \<le> CHR ''/'' then if c = CHR 0x22 then 31 else if c \<le> CHR ''.'' then 33 else 31
        else if c \<le> CHR 0x5C then if c \<le> CHR ''['' then 33 else 31
        else if c = CHR ''b'' then 31 else 33)
     else if c \<le> CHR ''q'' then if c \<le> CHR ''f'' then 31 else if c = CHR ''n'' then 31 else 33
     else if c \<le> CHR ''s'' then if c \<le> CHR ''r'' then 31 else 33
     else if c \<le> CHR ''t'' then 31 else if c \<le> CHR ''u'' then 43 else 33)"

definition basic_json_parser_37 :: block where
  "basic_json_parser_37 = next_char (\<lambda>s. let c = yych s in if c \<le> CHR ''/'' then 33 else if c \<le> CHR ''9'' then 44 else 33)"

definition basic_json_parser_38 :: block where
  "basic_json_parser_38 = next_char (\<lambda>s. let c = yych s in 
     if c \<le> CHR '','' then if c = CHR ''+'' then 46 else 33
     else if c \<le> CHR ''-'' then 46 else if c \<le> CHR ''/'' then 33 else if c \<le> CHR ''9'' then 47 else 33)"

definition basic_json_parser_39 :: block where
  "basic_json_parser_39 = next_char (\<lambda>s. let c = yych s in if c = CHR ''l'' then 49 else 33)"

definition basic_json_parser_40 :: block where
  "basic_json_parser_40 = next_char (\<lambda>s. let c = yych s in if c = CHR ''l'' then 50 else 33)"

definition basic_json_parser_41 :: block where
  "basic_json_parser_41 = next_char (\<lambda>s. let c = yych s in if c = CHR ''u'' then 51 else 33)"

definition basic_json_parser_42 :: block where
  "basic_json_parser_42 = next_char (\<lambda>s. let c = yych s in if c = CHR 0xBF then 52 else 33)"

definition basic_json_parser_43 :: block where
  "basic_json_parser_43 = next_char (\<lambda>s. let c = yych s in 
     if c \<le> CHR ''@'' then if c \<le> CHR ''/'' then 33 else if c \<le> CHR ''9'' then 54 else 33
     else if c \<le> CHR ''F'' then 54 else if c \<le> CHR 0x60 then 33 else if c \<le> CHR ''f'' then 54 else 33)"

definition basic_json_parser_44 :: block where
  "basic_json_parser_44 = next_mark 1 (\<lambda>s. let c = yych s in 
     if c \<le> CHR ''D'' then if c \<le> CHR ''/'' then 14 else if c \<le> CHR ''9'' then 44 else 14
     else if c \<le> CHR ''E'' then 38 else if c = CHR ''e'' then 38 else 14)"

definition basic_json_parser_46 :: block where
  "basic_json_parser_46 = next_char (\<lambda>s. let c = yych s in if c \<le> CHR ''/'' then 33 else if c \<ge> CHR '':'' then 33 else 47)"

definition basic_json_parser_47 :: block where
  "basic_json_parser_47 = next_char (\<lambda>s. let c = yych s in if c \<le> CHR ''/'' then 14 else if c \<le> CHR ''9'' then 47 else 14)"

definition basic_json_parser_49 :: block where
  "basic_json_parser_49 = next_char (\<lambda>s. let c = yych s in if c = CHR ''s'' then 55 else 33)"

definition basic_json_parser_50 :: block where
  "basic_json_parser_50 = next_char (\<lambda>s. let c = yych s in if c = CHR ''l'' then 56 else 33)"

definition basic_json_parser_51 :: block where
  "basic_json_parser_51 = next_char (\<lambda>s. let c = yych s in if c = CHR ''e'' then 58 else 33)"

definition basic_json_parser_52 :: block where
  "basic_json_parser_52 s = rbind (inc s) (\<lambda>s. Inr (Again, s))"

definition basic_json_parser_54 :: block where
  "basic_json_parser_54 = next_char (\<lambda>s. let c = yych s in 
     if c \<le> CHR ''@'' then if c \<le> CHR ''/'' then 33 else if c \<le> CHR ''9'' then 60 else 33
     else if c \<le> CHR ''F'' then 60 else if c \<le> CHR 0x60 then 33 else if c \<le> CHR ''f'' then 60 else 33)"

definition basic_json_parser_55 :: block where
  "basic_json_parser_55 = next_char (\<lambda>s. let c = yych s in if c = CHR ''e'' then 61 else 33)"

definition basic_json_parser_56 :: block where
  "basic_json_parser_56 = take_token literal_null"

definition basic_json_parser_58 :: block where
  "basic_json_parser_58 = take_token literal_true"

definition basic_json_parser_60 :: block where
  "basic_json_parser_60 = next_char (\<lambda>s. let c = yych s in 
     if c \<le> CHR ''@'' then if c \<le> CHR ''/'' then 33 else if c \<le> CHR ''9'' then 63 else 33
     else if c \<le> CHR ''F'' then 63 else if c \<le> CHR 0x60 then 33 else if c \<le> CHR ''f'' then 63 else 33)"

definition basic_json_parser_61 :: block where
  "basic_json_parser_61 = take_token literal_false"

definition basic_json_parser_63 :: block where
  "basic_json_parser_63 = next_char (\<lambda>s. let c = yych s in 
     if c \<le> CHR ''@'' then if c \<le> CHR ''/'' then 33 else if c \<le> CHR ''9'' then 31 else 33
     else if c \<le> CHR ''F'' then 31 else if c \<le> CHR 0x60 then 33 else if c \<le> CHR ''f'' then 31 else 33)"

text \<open>The code behind a label.\<close>

definition dfa :: "nat \<Rightarrow> block" where
  "dfa l =
     (if l = 1 then basic_json_parser_1
      else if l = 2 then basic_json_parser_2 else if l = 4 then basic_json_parser_4
      else if l = 5 then basic_json_parser_5 else if l = 6 then basic_json_parser_6
      else if l = 9 then basic_json_parser_9 else if l = 10 then basic_json_parser_10
      else if l = 12 then basic_json_parser_12 else if l = 13 then basic_json_parser_13
      else if l = 14 then basic_json_parser_14 else if l = 15 then basic_json_parser_15
      else if l = 17 then basic_json_parser_17 else if l = 19 then basic_json_parser_19
      else if l = 21 then basic_json_parser_21 else if l = 23 then basic_json_parser_23
      else if l = 24 then basic_json_parser_24 else if l = 25 then basic_json_parser_25
      else if l = 26 then basic_json_parser_26 else if l = 28 then basic_json_parser_28
      else if l = 30 then basic_json_parser_30 else if l = 31 then basic_json_parser_31
      else if l = 32 then basic_json_parser_32 else if l = 33 then basic_json_parser_33
      else if l = 34 then basic_json_parser_34 else if l = 36 then basic_json_parser_36
      else if l = 37 then basic_json_parser_37 else if l = 38 then basic_json_parser_38
      else if l = 39 then basic_json_parser_39 else if l = 40 then basic_json_parser_40
      else if l = 41 then basic_json_parser_41 else if l = 42 then basic_json_parser_42
      else if l = 43 then basic_json_parser_43 else if l = 44 then basic_json_parser_44
      else if l = 46 then basic_json_parser_46 else if l = 47 then basic_json_parser_47
      else if l = 49 then basic_json_parser_49 else if l = 50 then basic_json_parser_50
      else if l = 51 then basic_json_parser_51 else if l = 52 then basic_json_parser_52
      else if l = 54 then basic_json_parser_54 else if l = 55 then basic_json_parser_55
      else if l = 56 then basic_json_parser_56 else if l = 58 then basic_json_parser_58
      else if l = 60 then basic_json_parser_60 else if l = 61 then basic_json_parser_61
      else basic_json_parser_63)"

lemma dfa_labels:
  "dfa 1 = basic_json_parser_1"
  "dfa 2 = basic_json_parser_2"
  "dfa 4 = basic_json_parser_4"
  "dfa 5 = basic_json_parser_5"
  "dfa 6 = basic_json_parser_6"
  "dfa 9 = basic_json_parser_9"
  "dfa 10 = basic_json_parser_10"
  "dfa 12 = basic_json_parser_12"
  "dfa 13 = basic_json_parser_13"
  "dfa 14 = basic_json_parser_14"
  "dfa 15 = basic_json_parser_15"
  "dfa 17 = basic_json_parser_17"
  "dfa 19 = basic_json_parser_19"
  "dfa 21 = basic_json_parser_21"
  "dfa 23 = basic_json_parser_23"
  "dfa 24 = basic_json_parser_24"
  "dfa 25 = basic_json_parser_25"
  "dfa 26 = basic_json_parser_26"
  "dfa 28 = basic_json_parser_28"
  "dfa 30 = basic_json_parser_30"
  "dfa 31 = basic_json_parser_31"
  "dfa 32 = basic_json_parser_32"
  "dfa 33 = basic_json_parser_33"
  "dfa 34 = basic_json_parser_34"
  "dfa 36 = basic_json_parser_36"
  "dfa 37 = basic_json_parser_37"
  "dfa 38 = basic_json_parser_38"
  "dfa 39 = basic_json_parser_39"
  "dfa 40 = basic_json_parser_40"
  "dfa 41 = basic_json_parser_41"
  "dfa 42 = basic_json_parser_42"
  "dfa 43 = basic_json_parser_43"
  "dfa 44 = basic_json_parser_44"
  "dfa 46 = basic_json_parser_46"
  "dfa 47 = basic_json_parser_47"
  "dfa 49 = basic_json_parser_49"
  "dfa 50 = basic_json_parser_50"
  "dfa 51 = basic_json_parser_51"
  "dfa 52 = basic_json_parser_52"
  "dfa 54 = basic_json_parser_54"
  "dfa 55 = basic_json_parser_55"
  "dfa 56 = basic_json_parser_56"
  "dfa 58 = basic_json_parser_58"
  "dfa 60 = basic_json_parser_60"
  "dfa 61 = basic_json_parser_61"
  "dfa 63 = basic_json_parser_63"
  by (simp_all add: dfa_def)

lemmas block_defs =
  basic_json_parser_1_def
  basic_json_parser_2_def
  basic_json_parser_4_def
  basic_json_parser_5_def
  basic_json_parser_6_def
  basic_json_parser_9_def
  basic_json_parser_10_def
  basic_json_parser_12_def
  basic_json_parser_13_def
  basic_json_parser_14_def
  basic_json_parser_15_def
  basic_json_parser_17_def
  basic_json_parser_19_def
  basic_json_parser_21_def
  basic_json_parser_23_def
  basic_json_parser_24_def
  basic_json_parser_25_def
  basic_json_parser_26_def
  basic_json_parser_28_def
  basic_json_parser_30_def
  basic_json_parser_31_def
  basic_json_parser_32_def
  basic_json_parser_33_def
  basic_json_parser_34_def
  basic_json_parser_36_def
  basic_json_parser_37_def
  basic_json_parser_38_def
  basic_json_parser_39_def
  basic_json_parser_40_def
  basic_json_parser_41_def
  basic_json_parser_42_def
  basic_json_parser_43_def
  basic_json_parser_44_def
  basic_json_parser_46_def
  basic_json_parser_47_def
  basic_json_parser_49_def
  basic_json_parser_50_def
  basic_json_parser_51_def
  basic_json_parser_52_def
  basic_json_parser_54_def
  basic_json_parser_55_def
  basic_json_parser_56_def
  basic_json_parser_58_def
  basic_json_parser_60_def
  basic_json_parser_61_def
  basic_json_parser_63_def

lemmas block_prims = goto_def accept_def inc_def load_def next_char_def next_mark_def take_token_def Let_def

text \<open>
  Every jump goes on with a shorter rest, or to a later label; label 33 goes back to the marker,
  and then only to the end of the token.
\<close>

definition jump_rank :: "nat \<Rightarrow> nat \<Rightarrow> nat" where
  "jump_rank l n =
     (if l \<in> {5, 14} then 0 else if l = 33 then 1 else 4 * n + (if l = 1 then 4 else if l = 32 then 3 else 2))"

definition jumps_down :: "nat \<Rightarrow> block \<Rightarrow> bool" where
  "jumps_down l b \<longleftrightarrow> (\<forall>s j s'. b s = Inr (j, s') \<longrightarrow>
     (case j of
        Goto l' \<Rightarrow> jump_rank l' (length (m_cursor s')) < jump_rank l (length (m_cursor s))
      | Again \<Rightarrow> length (m_cursor s') < length (m_cursor s)
      | Leave \<Rightarrow> True))"

lemma jump_rank_advance: "m < n \<Longrightarrow> l \<notin> {5, 14, 33} \<Longrightarrow> jump_rank l' m < jump_rank l n"
  by (auto simp: jump_rank_def)

lemma inc_length: "inc s = Inr s' \<Longrightarrow> length (m_cursor s') < length (m_cursor s)"
  by (auto simp: inc_def split: list.splits)

lemma load_cursor: "load s = Inr s' \<Longrightarrow> m_cursor s' = m_cursor s"
  by (auto simp: load_def split: list.splits)

lemma jumps_down_blocks:
  "l \<notin> {5, 14, 33} \<Longrightarrow> jumps_down l (next_char f)"
  "l \<notin> {5, 14, 33} \<Longrightarrow> jumps_down l (next_mark a f)"
  "jumps_down l (take_token t)"
  "jumps_down l (accept t)"
proof -
  assume l: "l \<notin> {5, 14, 33}"
  show "jumps_down l (next_char f)"
    unfolding jumps_down_def next_char_def goto_def using l
    by (auto simp: rbind_eq_Inr jump_rank_advance dest!: inc_length load_cursor)
  show "jumps_down l (next_mark a f)"
    unfolding jumps_down_def next_mark_def goto_def using l
    by (auto simp: rbind_eq_Inr jump_rank_advance dest!: inc_length load_cursor)
qed (auto simp: jumps_down_def take_token_def accept_def rbind_eq_Inr)

lemma dfa_jumps_down: "jumps_down l (dfa l)"
proof -
  have one: "jumps_down (Suc 0) basic_json_parser_1"
    by (auto simp: jumps_down_def basic_json_parser_1_def rbind_eq_Inr Let_def goto_def jump_rank_def
        dest!: load_cursor)
  have here: "jumps_down 32 basic_json_parser_32" "jumps_down 33 basic_json_parser_33"
    by (auto simp: jumps_down_def basic_json_parser_32_def basic_json_parser_33_def Let_def goto_def jump_rank_def
        split: option.splits)
  have on: "jumps_down 4 basic_json_parser_4" "jumps_down 6 basic_json_parser_6"
    "jumps_down 31 basic_json_parser_31" "jumps_down 52 basic_json_parser_52"
    unfolding jumps_down_def basic_json_parser_4_def basic_json_parser_6_def basic_json_parser_31_def
      basic_json_parser_52_def goto_def
    by (auto simp: rbind_eq_Inr jump_rank_advance split: if_splits dest!: inc_length load_cursor)
  show ?thesis
    unfolding dfa_def
    by (auto simp: one here on) (simp_all add: block_defs jumps_down_blocks)
qed

text \<open>The loop of \<open>scan\<close>; \<open>continue\<close> starts the next token.\<close>

function scan_loop :: "nat \<Rightarrow> scanner \<Rightarrow> scanner res" where
  "scan_loop l s =
     (case dfa l s of
        Inl e \<Rightarrow> Inl e
      | Inr (Goto l', s') \<Rightarrow> scan_loop l' s'
      | Inr (Again, s') \<Rightarrow> scan_loop 1 s'
      | Inr (Leave, s') \<Rightarrow> Inr s')"
  by auto
termination
proof (relation "measure (\<lambda>(l, s). jump_rank l (length (m_cursor s)))", goal_cases)
  case (3 l s y j s')
  with dfa_jumps_down [of l] have "length (m_cursor s') < length (m_cursor s)" by (force simp: jumps_down_def)
  moreover from 3 have "l \<notin> {5, 14, 33}"
    by (auto simp: dfa_def basic_json_parser_5_def basic_json_parser_14_def basic_json_parser_33_def accept_def
        goto_def split: option.splits)
  ultimately show ?case by (simp add: jump_rank_advance)
qed (use dfa_jumps_down in \<open>force simp: jumps_down_def\<close>)+

declare scan_loop.simps [simp del]

text \<open>The first token type and the local variables are overwritten before they are used.\<close>

definition scan :: "lexer \<Rightarrow> (token_type \<times> lexer) res" where
  "scan lx =
     rmap (\<lambda>s. (last_token_type s, lexer.truncate s))
       (scan_loop 1 (lexer.extend lx \<lparr>yyaccept = 0, yych = CHR 0x00\<rparr>))"

section \<open>The values of tokens\<close>

text \<open>A code point, or a pair of UTF-16 surrogates, in UTF-8.\<close>

definition to_unicode :: "nat \<Rightarrow> nat \<Rightarrow> string res" where
  "to_unicode codepoint1 codepoint2 =
     rbind (if codepoint1 \<ge> 0xD800 \<and> codepoint1 \<le> 0xDBFF
            then if codepoint2 \<ge> 0xDC00 \<and> codepoint2 \<le> 0xDFFF
              then Inr (size_sub (push_bit 10 codepoint1 + codepoint2) 0x35FDC00)
              else Inl (Invalid_argument ''missing or wrong low surrogate'')
            else Inr codepoint1)
       (\<lambda>codepoint.
          if codepoint < 0x80 then Inr [char_of codepoint]
          else if codepoint \<le> 0x7ff then
            Inr [char_of (0xC0 OR (drop_bit 6 codepoint AND 0x1F)), char_of (0x80 OR (codepoint AND 0x3F))]
          else if codepoint \<le> 0xffff then
            Inr [char_of (0xE0 OR (drop_bit 12 codepoint AND 0x0F)),
                 char_of (0x80 OR (drop_bit 6 codepoint AND 0x3F)), char_of (0x80 OR (codepoint AND 0x3F))]
          else if codepoint \<le> 0x10ffff then
            Inr [char_of (0xF0 OR (drop_bit 18 codepoint AND 0x07)),
                 char_of (0x80 OR (drop_bit 12 codepoint AND 0x3F)),
                 char_of (0x80 OR (drop_bit 6 codepoint AND 0x3F)), char_of (0x80 OR (codepoint AND 0x3F))]
          else Inl (Out_of_range ''code points above 0x10FFFF are invalid''))"

text \<open>\<open>std::strtoul(std::string(p, 4).c_str(), nullptr, 16)\<close>\<close>

definition four_hex :: "string \<Rightarrow> nat res" where
  "four_hex p =
     (if length p < 4 then Inl (Undefined Out_of_bounds)
      else Inr (strtoul16 (takeWhile (\<lambda>c. c \<noteq> CHR 0x00) (take 4 p))))"

text \<open>
  The loop of \<open>get_string\<close> with its pointer \<open>i\<close>, \<open>m_cursor\<close> and the result so far; \<open>after\<close> is the
  number of characters from \<open>m_limit\<close> on. A pointer is
  less than another one if its rest is longer.
\<close>

function get_string_loop :: "nat \<Rightarrow> string \<Rightarrow> string \<Rightarrow> string \<Rightarrow> string res" where
  "get_string_loop after cursor i result =
     (if length i \<le> length cursor + 1 then Inr result
      else if hd i = CHR 0x5C then
        (let i = tl i; c = hd i in
         if c = CHR ''t'' then get_string_loop after cursor (tl i) (result @ [CHR 0x09])
         else if c = CHR ''b'' then get_string_loop after cursor (tl i) (result @ [CHR 0x08])
         else if c = CHR ''f'' then get_string_loop after cursor (tl i) (result @ [CHR 0x0C])
         else if c = CHR ''n'' then get_string_loop after cursor (tl i) (result @ [CHR 0x0A])
         else if c = CHR ''r'' then get_string_loop after cursor (tl i) (result @ [CHR 0x0D])
         else if c = CHR 0x5C then get_string_loop after cursor (tl i) (result @ [CHR 0x5C])
         else if c = CHR ''/'' then get_string_loop after cursor (tl i) (result @ [CHR ''/''])
         else if c = CHR 0x22 then get_string_loop after cursor (tl i) (result @ [CHR 0x22])
         else if c = CHR ''u'' then
           rbind (four_hex (tl i)) (\<lambda>codepoint.
             if codepoint \<ge> 0xD800 \<and> codepoint \<le> 0xDBFF then
               if length i \<le> 6 + after \<or> i ! 5 \<noteq> CHR 0x5C \<or> i ! 6 \<noteq> CHR ''u''
               then Inl (Invalid_argument ''missing low surrogate'')
               else rbind (four_hex (drop 7 i)) (\<lambda>codepoint2.
                    rbind (to_unicode codepoint codepoint2) (\<lambda>u.
                      get_string_loop after cursor (drop 11 i) (result @ u)))
             else rbind (to_unicode codepoint 0) (\<lambda>u. get_string_loop after cursor (drop 5 i) (result @ u)))
         else get_string_loop after cursor (tl i) result)
      else get_string_loop after cursor (tl i) (result @ [hd i]))"
  by pat_completeness auto
termination by (relation "measure (\<lambda>(after, cursor, i, result). length i)") auto

declare get_string_loop.simps [simp del]

definition get_string_token :: "lexer \<Rightarrow> string res" where
  "get_string_token lx =
     (if length (m_start lx) < length (m_cursor lx) + 2 then Inl (Assertion ''m_cursor - m_start >= 2'')
      else get_string_loop 1 (m_cursor lx) (tl (m_start lx)) [])"

text \<open>The loop of \<open>get_number\<close> over the characters of the token.\<close>

fun number_loop :: "u64 \<Rightarrow> string \<Rightarrow> value_t \<Rightarrow> u64 \<Rightarrow> value_t \<times> u64" where
  "number_loop limit [] type value = (type, value)"
| "number_loop limit (c # s) type value =
     (if c < CHR ''0'' \<or> c > CHR ''9'' then
        if c = CHR ''.'' then number_loop limit s T_number_float value else (T_number_float, value)
      else if type \<noteq> T_number_float then
        (let temp = value * 10 + of_char c - 48 in
         if temp < value \<or> temp > limit then number_loop limit s T_number_float value
         else number_loop limit s type temp)
      else number_loop limit s type value)"

definition get_number_token :: "lexer \<Rightarrow> json res" where
  "get_number_token lx =
     (let token = get_token_string lx;
          neg = (hd (m_start lx) = CHR ''-'');
          (type, value) = (if neg then number_loop (2 ^ 63) (tl token) T_number_integer 0
                           else number_loop (- 1) token T_number_unsigned 0)
      in if type = T_number_unsigned then Inr (Number_unsigned value)
         else if type = T_number_integer then
           (if value = 2 ^ 63 then Inl (Undefined Signed_overflow) else Inr (Number_integer (- value)))
         else Inr (Number_float (strtod (m_start lx))))"

end
