(* ===== verification/JsonScan.thy ===== *)
theory JsonScan
  imports JsonLexer
begin

text \<open>
  What the scanner of \<open>json.hpp\<close> recognises: the automaton computes a short recursive
  specification (\<open>skip_blanks\<close>, \<open>token_at\<close>), and this finds the longest token of the grammar
  (\<open>token_text\<close>).
\<close>

section \<open>Characters\<close>

lemma char_eq_code: "c = d \<longleftrightarrow> of_char c = (of_char d :: nat)"
  by simp

lemmas char_arith = less_eq_char_def less_char_def char_eq_code isdigit_def

lemma isdigit_Char:
  "isdigit (Char b0 b1 b2 b3 b4 b5 b6 b7) \<longleftrightarrow>
     48 \<le> (of_char (Char b0 b1 b2 b3 b4 b5 b6 b7) :: nat) \<and> of_char (Char b0 b1 b2 b3 b4 b5 b6 b7) \<le> (57 :: nat)"
  by (simp only: isdigit_def)

lemma of_char_less [simp]: "of_char c < (256 :: nat)"
  by (simp add: of_char_def)

definition is_blank :: "char \<Rightarrow> bool" where
  "is_blank c \<longleftrightarrow> c \<in> {CHR '' '', CHR 0x09, CHR 0x0A, CHR 0x0D}"

definition is_hex :: "char \<Rightarrow> bool" where
  "is_hex c \<longleftrightarrow> isdigit c \<or> CHR ''A'' \<le> c \<and> c \<le> CHR ''F'' \<or> CHR ''a'' \<le> c \<and> c \<le> CHR ''f''"

definition is_simple_escape :: "char \<Rightarrow> bool" where
  "is_simple_escape c \<longleftrightarrow>
     c \<in> {CHR 0x22, CHR 0x5C, CHR ''/'', CHR ''b'', CHR ''f'', CHR ''n'', CHR ''r'', CHR ''t''}"

lemma in_class_blank: "in_class 32 c \<longleftrightarrow> is_blank c"
proof -
  have "\<forall>n<256. (yybm ! n AND 32 \<noteq> 0) = (n \<in> {32, 9, 10, 13})"
    by (auto simp: yybm_def nth_append nth_Cons')
  then have "(yybm ! of_char c AND 32 \<noteq> 0) = (of_char c \<in> {32, 9, 10, 13 :: nat})"
    using of_char_less [of c] by blast
  then show ?thesis unfolding in_class_def is_blank_def by (auto simp: char_eq_code)
qed

lemma in_class_digit: "in_class 64 c \<longleftrightarrow> isdigit c"
proof -
  have "\<forall>n<256. (yybm ! n AND 64 \<noteq> 0) = (48 \<le> n \<and> n \<le> 57)"
    by (auto simp: yybm_def nth_append nth_Cons')
  then show ?thesis unfolding in_class_def isdigit_def using of_char_less [of c] by blast
qed

lemma in_class_plain: "in_class 128 c \<longleftrightarrow> CHR 0x20 \<le> c \<and> c \<noteq> CHR 0x22 \<and> c \<noteq> CHR 0x5C"
proof -
  have "\<forall>n<256. (yybm ! n AND 128 \<noteq> 0) = (32 \<le> n \<and> n \<noteq> 34 \<and> n \<noteq> 92)"
    by (auto simp: yybm_def nth_append nth_Cons')
  then show ?thesis unfolding in_class_def using of_char_less [of c] by (simp add: char_arith)
qed

section \<open>The specification\<close>

function str_end :: "string \<Rightarrow> string option" where
  "str_end s =
     (case s of
        [] \<Rightarrow> None
      | c # t \<Rightarrow>
          if c = CHR 0x22 then Some t
          else if c = CHR 0x5C then
            (case t of
               [] \<Rightarrow> None
             | e # u \<Rightarrow>
                 if is_simple_escape e then str_end u
                 else if e = CHR ''u'' \<and> length u \<ge> 4 \<and> list_all is_hex (take 4 u) then str_end (drop 4 u)
                 else None)
          else if CHR 0x20 \<le> c then str_end t
          else None)"
  by pat_completeness auto
termination by (relation "measure length") auto

declare str_end.simps [simp del]

definition exp_end :: "string \<Rightarrow> string" where
  "exp_end s =
     (if take 1 s = ''e'' \<or> take 1 s = ''E'' then
        (let t = drop 1 s; t = (if take 1 t = ''+'' \<or> take 1 t = ''-'' then drop 1 t else t)
         in if t \<noteq> [] \<and> isdigit (hd t) then dropWhile isdigit t else s)
      else s)"

definition frac_end :: "string \<Rightarrow> string" where
  "frac_end s =
     exp_end (if take 1 s = ''.'' \<and> drop 1 s \<noteq> [] \<and> isdigit (hd (drop 1 s)) then dropWhile isdigit (drop 1 s) else s)"

definition num_end :: "string \<Rightarrow> string" where
  "num_end s = frac_end (if take 1 s = ''0'' then drop 1 s else dropWhile isdigit s)"

definition literal_at :: "string \<Rightarrow> token_type \<Rightarrow> string \<Rightarrow> token_type \<times> string" where
  "literal_at w ty t = (if take (length w) t = w then (ty, drop (length w) t) else (parse_error, t))"

fun punctuation :: "char \<Rightarrow> token_type option" where
  "punctuation c =
     (if c = CHR '','' then Some value_separator else if c = CHR '':'' then Some name_separator
      else if c = CHR ''['' then Some begin_array else if c = CHR '']'' then Some end_array
      else if c = CHR ''{'' then Some begin_object else if c = CHR ''}'' then Some end_object
      else if c = CHR 0x00 then Some end_of_input else None)"

declare punctuation.simps [simp del]

text \<open>The token at the beginning of a text, and the rest.\<close>

definition token_at :: "string \<Rightarrow> token_type \<times> string" where
  "token_at s =
     (case s of
        [] \<Rightarrow> (parse_error, [])
      | c # t \<Rightarrow>
          (case punctuation c of
             Some ty \<Rightarrow> (ty, t)
           | None \<Rightarrow>
               if c = CHR 0x22 then (case str_end t of Some r \<Rightarrow> (value_string, r) | None \<Rightarrow> (parse_error, t))
               else if c = CHR ''-'' then
                 if t \<noteq> [] \<and> isdigit (hd t) then (value_number, num_end t) else (parse_error, t)
               else if isdigit c then (value_number, num_end s)
               else if c = CHR ''t'' then literal_at ''rue'' literal_true t
               else if c = CHR ''f'' then literal_at ''alse'' literal_false t
               else if c = CHR ''n'' then literal_at ''ull'' literal_null t
               else (parse_error, t)))"

definition bom :: string where
  "bom = [CHR 0xEF, CHR 0xBB, CHR 0xBF]"

fun skip_blanks :: "string \<Rightarrow> string" where
  "skip_blanks [] = []"
| "skip_blanks (c # s) =
     (if is_blank c then skip_blanks s
      else if take 3 (c # s) = bom then skip_blanks (drop 2 s) else c # s)"

section \<open>The automaton computes the specification\<close>

text \<open>
  \<open>scans l cur mk acc st (t, st', r)\<close>: from label \<open>l\<close>, with the cursor at \<open>cur\<close> and the
  marker \<open>mk\<close>, the scanner leaves with the token type \<open>t\<close>, the token beginning at \<open>st'\<close> and the
  cursor at \<open>r\<close>.
\<close>

definition scans ::
    "nat \<Rightarrow> string \<Rightarrow> string option \<Rightarrow> nat \<Rightarrow> string \<Rightarrow> token_type \<times> string \<times> string \<Rightarrow> bool" where
  "scans l cur mk acc st out \<longleftrightarrow>
     (\<forall>s. m_cursor s = cur \<and> m_marker s = mk \<and> yyaccept s = acc \<and> m_start s = st \<and> (l = 32 \<longrightarrow> yych s = hd cur) \<longrightarrow>
       (\<exists>s'. scan_loop l s = Inr s' \<and> (last_token_type s', m_start s', m_cursor s') = out))"

lemma scansI:
  assumes "\<And>s. m_cursor s = cur \<Longrightarrow> m_marker s = mk \<Longrightarrow> yyaccept s = acc \<Longrightarrow> m_start s = st
      \<Longrightarrow> (l = 32 \<Longrightarrow> yych s = hd cur)
      \<Longrightarrow> (\<exists>s'. scan_loop l s = Inr s' \<and> (last_token_type s', m_start s', m_cursor s') = out)"
  shows "scans l cur mk acc st out"
  using assms unfolding scans_def by blast

lemma scansD:
  "scans l cur mk acc st out \<Longrightarrow> m_cursor s = cur \<Longrightarrow> m_marker s = mk \<Longrightarrow> yyaccept s = acc \<Longrightarrow> m_start s = st
    \<Longrightarrow> (l = 32 \<Longrightarrow> yych s = hd cur)
    \<Longrightarrow> (\<exists>s'. scan_loop l s = Inr s' \<and> (last_token_type s', m_start s', m_cursor s') = out)"
  unfolding scans_def by blast

lemma scans_next:
  assumes "dfa l = next_char (\<lambda>s. g (yych s))" "scans (g d) (d # r) mk acc st out"
  shows "scans l (c # d # r) mk acc st out"
proof (rule scansI)
  fix s :: scanner assume s: "m_cursor s = c # d # r" "m_marker s = mk" "yyaccept s = acc" "m_start s = st"
  then have "scan_loop l s = scan_loop (g d) (s\<lparr>m_cursor := d # r, yych := d\<rparr>)"
    by (subst scan_loop.simps) (simp add: assms(1) block_prims)
  with s scansD [OF assms(2), of "s\<lparr>m_cursor := d # r, yych := d\<rparr>"]
  show "\<exists>s'. scan_loop l s = Inr s' \<and> (last_token_type s', m_start s', m_cursor s') = out" by simp
qed

lemma scans_mark:
  assumes "dfa l = next_mark a (\<lambda>s. g (yych s))" "scans (g d) (d # r) (Some (d # r)) a st out"
  shows "scans l (c # d # r) mk acc st out"
proof (rule scansI)
  fix s :: scanner assume s: "m_cursor s = c # d # r" "m_marker s = mk" "yyaccept s = acc" "m_start s = st"
  then have "scan_loop l s
      = scan_loop (g d) (s\<lparr>yyaccept := a, m_cursor := d # r, m_marker := Some (d # r), yych := d\<rparr>)"
    by (subst scan_loop.simps) (simp add: assms(1) block_prims)
  with s scansD [OF assms(2), of "s\<lparr>yyaccept := a, m_cursor := d # r, m_marker := Some (d # r), yych := d\<rparr>"]
  show "\<exists>s'. scan_loop l s = Inr s' \<and> (last_token_type s', m_start s', m_cursor s') = out" by simp
qed

lemma scans_take: "dfa l = take_token t \<Longrightarrow> scans l (c # r) mk acc st (t, st, r)"
  by (rule scansI) (subst scan_loop.simps, simp add: block_prims)

lemma scans_accept:
  "scans 5 cur mk acc st (parse_error, st, cur)"
  "scans 14 cur mk acc st (value_number, st, cur)"
  by (rule scansI, subst scan_loop.simps,
      simp add: block_prims dfa_labels basic_json_parser_5_def basic_json_parser_14_def)+

lemma scans_4: "scans 4 (c # r) mk acc st (parse_error, st, r)"
proof (rule scansI)
  fix s :: scanner assume s: "m_cursor s = c # r" "m_marker s = mk" "yyaccept s = acc" "m_start s = st"
  then have "scan_loop 4 s = scan_loop 5 (s\<lparr>m_cursor := r\<rparr>)"
    by (subst scan_loop.simps) (simp add: block_prims dfa_labels basic_json_parser_4_def)
  with s scansD [OF scans_accept(1), of "s\<lparr>m_cursor := r\<rparr>"]
  show "\<exists>s'. scan_loop 4 s = Inr s' \<and> (last_token_type s', m_start s', m_cursor s') = (parse_error, st, r)" by simp
qed

lemma scans_33:
  "scans 33 cur (Some p) 0 st (parse_error, st, p)"
  "scans 33 cur (Some p) 1 st (value_number, st, p)"
proof -
  have step: "scan_loop 33 s = scan_loop (if yyaccept s = 0 then 5 else 14) (s\<lparr>m_cursor := p\<rparr>)"
    if "m_marker s = Some p" for s :: scanner
    using that by (subst scan_loop.simps) (simp add: block_prims dfa_labels basic_json_parser_33_def)
  show "scans 33 cur (Some p) 0 st (parse_error, st, p)"
  proof (rule scansI)
    fix s :: scanner assume "m_marker s = Some p" "yyaccept s = 0" "m_start s = st"
    with scansD [OF scans_accept(1), of "s\<lparr>m_cursor := p\<rparr>"] step [of s]
    show "\<exists>s'. scan_loop 33 s = Inr s' \<and> (last_token_type s', m_start s', m_cursor s') = (parse_error, st, p)" by simp
  qed
  show "scans 33 cur (Some p) 1 st (value_number, st, p)"
  proof (rule scansI)
    fix s :: scanner assume "m_marker s = Some p" "yyaccept s = 1" "m_start s = st"
    with scansD [OF scans_accept(2), of "s\<lparr>m_cursor := p\<rparr>"] step [of s]
    show "\<exists>s'. scan_loop 33 s = Inr s' \<and> (last_token_type s', m_start s', m_cursor s') = (value_number, st, p)" by simp
  qed
qed

lemma scans_31:
  assumes "scans 32 (d # r) mk acc st out"
  shows "scans 31 (c # d # r) mk acc st out"
proof (rule scansI)
  fix s :: scanner assume s: "m_cursor s = c # d # r" "m_marker s = mk" "yyaccept s = acc" "m_start s = st"
  then have "scan_loop 31 s = scan_loop 32 (s\<lparr>m_cursor := d # r, yych := d\<rparr>)"
    by (subst scan_loop.simps) (simp add: block_prims dfa_labels basic_json_parser_31_def)
  with s scansD [OF assms, of "s\<lparr>m_cursor := d # r, yych := d\<rparr>"]
  show "\<exists>s'. scan_loop 31 s = Inr s' \<and> (last_token_type s', m_start s', m_cursor s') = out" by simp
qed

lemma scans_32:
  assumes "scans (if CHR 0x20 \<le> c \<and> c \<noteq> CHR 0x22 \<and> c \<noteq> CHR 0x5C then 31
      else if c \<le> CHR 0x1F then 33 else if c = CHR 0x22 then 34 else 36) (c # r) mk acc st out"
  shows "scans 32 (c # r) mk acc st out"
proof (rule scansI)
  fix s :: scanner
  assume s: "m_cursor s = c # r" "m_marker s = mk" "yyaccept s = acc" "m_start s = st" "32 = (32 :: nat) \<Longrightarrow> yych s = hd (c # r)"
  let ?l = "if CHR 0x20 \<le> c \<and> c \<noteq> CHR 0x22 \<and> c \<noteq> CHR 0x5C then 31
      else if c \<le> CHR 0x1F then 33 else if c = CHR 0x22 then 34 else 36 :: nat"
  have ch: "(if CHR 0x20 \<le> c \<and> c \<noteq> CHR 0x22 \<and> c \<noteq> CHR 0x5C then 31
      else if c \<le> CHR 0x1F then 33 else if c \<le> CHR 0x22 then 34 else 36 :: nat) = ?l"
    by (auto simp: char_arith)
  from s have "scan_loop 32 s = scan_loop ?l s"
    unfolding ch [symmetric]
    by (subst scan_loop.simps) (simp add: block_prims dfa_labels basic_json_parser_32_def in_class_plain)
  moreover have "?l \<noteq> 32" by simp
  ultimately show "\<exists>s'. scan_loop 32 s = Inr s' \<and> (last_token_type s', m_start s', m_cursor s') = out"
    using s scansD [OF assms, of s] by simp
qed

lemma scans_6:
  assumes "scans (if is_blank d then 6 else 1) (d # r) mk acc st out"
  shows "scans 6 (c # d # r) mk acc st out"
proof (rule scansI)
  fix s :: scanner assume s: "m_cursor s = c # d # r" "m_marker s = mk" "yyaccept s = acc" "m_start s = st"
  then have "scan_loop 6 s = scan_loop (if is_blank d then 6 else 1) (s\<lparr>m_cursor := d # r, yych := d\<rparr>)"
    by (subst scan_loop.simps) (simp add: block_prims dfa_labels basic_json_parser_6_def in_class_blank)
  with s scansD [OF assms, of "s\<lparr>m_cursor := d # r, yych := d\<rparr>"]
  show "\<exists>s'. scan_loop 6 s = Inr s' \<and> (last_token_type s', m_start s', m_cursor s') = out" by simp
qed

lemma scans_52:
  assumes "scans 1 r mk acc st out"
  shows "scans 52 (c # r) mk acc st out"
proof (rule scansI)
  fix s :: scanner assume s: "m_cursor s = c # r" "m_marker s = mk" "yyaccept s = acc" "m_start s = st"
  then have "scan_loop 52 s = scan_loop 1 (s\<lparr>m_cursor := r\<rparr>)"
    by (subst scan_loop.simps) (simp add: block_prims dfa_labels basic_json_parser_52_def)
  with s scansD [OF assms, of "s\<lparr>m_cursor := r\<rparr>"]
  show "\<exists>s'. scan_loop 52 s = Inr s' \<and> (last_token_type s', m_start s', m_cursor s') = out" by simp
qed

text \<open>
  With a zero byte ahead there is a next character, as long as the current one is not it.
\<close>

lemma zero_ahead:
  assumes "CHR 0x00 \<in> set (c # s)" "c \<noteq> CHR 0x00"
  obtains d r where "s = d # r" "CHR 0x00 \<in> set s"
  using assms by (cases s) auto

text \<open>Strings.\<close>

lemma hex_target:
  "(if c \<le> CHR ''@'' then if c \<le> CHR ''/'' then 33 else if c \<le> CHR ''9'' then n else 33
     else if c \<le> CHR ''F'' then n else if c \<le> CHR 0x60 then 33 else if c \<le> CHR ''f'' then n else 33)
   = (if is_hex c then n else 33 :: nat)"
  by (auto simp: is_hex_def char_arith)

lemma escape_target:
  "(if c \<le> CHR ''e'' then
       (if c \<le> CHR ''/'' then if c = CHR 0x22 then 31 else if c \<le> CHR ''.'' then 33 else 31
        else if c \<le> CHR 0x5C then if c \<le> CHR ''['' then 33 else 31
        else if c = CHR ''b'' then 31 else 33)
     else if c \<le> CHR ''q'' then if c \<le> CHR ''f'' then 31 else if c = CHR ''n'' then 31 else 33
     else if c \<le> CHR ''s'' then if c \<le> CHR ''r'' then 31 else 33
     else if c \<le> CHR ''t'' then 31 else if c \<le> CHR ''u'' then 43 else 33)
   = (if is_simple_escape c then 31 else if c = CHR ''u'' then 43 else 33 :: nat)"
  by (auto simp: is_simple_escape_def char_arith)

lemma hex_labels:
  "dfa 43 = next_char (\<lambda>s. if is_hex (yych s) then 54 else 33)"
  "dfa 54 = next_char (\<lambda>s. if is_hex (yych s) then 60 else 33)"
  "dfa 60 = next_char (\<lambda>s. if is_hex (yych s) then 63 else 33)"
  "dfa 63 = next_char (\<lambda>s. if is_hex (yych s) then 31 else 33)"
  "dfa 36 = next_char (\<lambda>s. if is_simple_escape (yych s) then 31 else if yych s = CHR ''u'' then 43 else 33)"
  by (simp_all only: dfa_labels block_defs Let_def hex_target escape_target)

lemma is_hex_zero [simp]: "\<not> is_hex (CHR 0x00)" "\<not> is_simple_escape (CHR 0x00)" "\<not> isdigit (CHR 0x00)"
  by (simp_all add: is_hex_def is_simple_escape_def char_arith)

lemma scans_four_hex:
  assumes zero: "CHR 0x00 \<in> set u"
    and go: "length u \<ge> 4 \<Longrightarrow> list_all is_hex (take 4 u) \<Longrightarrow> CHR 0x00 \<in> set (drop 4 u)
      \<Longrightarrow> scans 32 (drop 4 u) (Some m) 0 st out"
    and stop: "\<not> (length u \<ge> 4 \<and> list_all is_hex (take 4 u)) \<Longrightarrow> out = (parse_error, st, m)"
  shows "scans 43 (c # u) (Some m) 0 st out"
proof -
  from zero obtain d1 r1 where 1: "u = d1 # r1" by (cases u) auto
  show ?thesis
  proof (cases "is_hex d1")
    case False
    then show ?thesis using stop 1 scans_33(1) by (auto intro!: scans_next hex_labels)
  next
    case h1: True
    with zero 1 obtain d2 r2 where 2: "r1 = d2 # r2" by (cases r1) auto
    show ?thesis
    proof (cases "is_hex d2")
      case False
      then show ?thesis using stop 1 2 h1 scans_33(1) by (auto intro!: scans_next hex_labels)
    next
      case h2: True
      with zero 1 2 h1 obtain d3 r3 where 3: "r2 = d3 # r3" by (cases r2) auto
      show ?thesis
      proof (cases "is_hex d3")
        case False
        then show ?thesis using stop 1 2 3 h1 h2 scans_33(1) by (auto intro!: scans_next hex_labels)
      next
        case h3: True
        with zero 1 2 3 h1 h2 obtain d4 r4 where 4: "r3 = d4 # r4" by (cases r3) auto
        show ?thesis
        proof (cases "is_hex d4")
          case False
          then show ?thesis using stop 1 2 3 4 h1 h2 h3 scans_33(1) by (auto intro!: scans_next hex_labels)
        next
          case h4: True
          with zero 1 2 3 4 h1 h2 h3 obtain d5 r5 where 5: "r4 = d5 # r5" by (cases r4) auto
          have last: "scans 31 (d4 # d5 # r5) (Some m) 0 st out"
            using go zero 1 2 3 4 5 h1 h2 h3 h4 by (intro scans_31) auto
          show ?thesis unfolding 1 2 3 4 5
            by (rule scans_next [OF hex_labels(1)], unfold if_P [OF h1], rule scans_next [OF hex_labels(2)],
                unfold if_P [OF h2], rule scans_next [OF hex_labels(3)], unfold if_P [OF h3],
                rule scans_next [OF hex_labels(4)], unfold if_P [OF h4], rule last)
        qed
      qed
    qed
  qed
qed

lemma scans_string:
  assumes "CHR 0x00 \<in> set s"
  shows "scans 32 s (Some m) 0 st
    (case str_end s of Some r \<Rightarrow> (value_string, st, r) | None \<Rightarrow> (parse_error, st, m))"
  using assms
proof (induction s rule: str_end.induct)
  case (1 s)
  then obtain c t where s: "s = c # t" by (cases s) auto
  consider "c = CHR 0x22" | "c = CHR 0x5C" | "c \<noteq> CHR 0x22" "c \<noteq> CHR 0x5C" "CHR 0x20 \<le> c" | "\<not> CHR 0x20 \<le> c"
    by blast
  then show ?case
  proof cases
    case 1
    have "scans 34 (CHR 0x22 # t) (Some m) 0 st (value_string, st, t)"
      by (rule scans_take) (simp add: dfa_labels basic_json_parser_34_def)
    with s 1 show ?thesis by (auto simp: str_end.simps less_eq_char_def intro!: scans_32)
  next
    case 2
    with s "1.prems" obtain e u where t: "t = e # u" by (cases t) auto
    have z: "CHR 0x00 \<in> set (e # u)" using "1.prems" s 2 t by auto
    have lab: "(if CHR 0x20 \<le> c \<and> c \<noteq> CHR 0x22 \<and> c \<noteq> CHR 0x5C then 31
      else if c \<le> CHR 0x1F then 33 else if c = CHR 0x22 then 34 else 36) = (36 :: nat)" using 2 by (simp add: less_eq_char_def)
    consider "is_simple_escape e" | "\<not> is_simple_escape e" "e = CHR ''u''" | "\<not> is_simple_escape e" "e \<noteq> CHR ''u''" by blast
    then have "scans 36 (c # e # u) (Some m) 0 st
        (case str_end s of Some r \<Rightarrow> (value_string, st, r) | None \<Rightarrow> (parse_error, st, m))"
    proof cases
      case esc: 1
      with z obtain d r where u: "u = d # r" by (cases u) auto
      have "CHR 0x00 \<in> set u" using z esc by auto
      from "1.IH"(1) [OF s _ _ t esc this] 2 have "scans 32 u (Some m) 0 st
          (case str_end u of Some r \<Rightarrow> (value_string, st, r) | None \<Rightarrow> (parse_error, st, m))" by simp
      moreover have "str_end s = str_end u" using s 2 t esc by (subst str_end.simps) simp
      ultimately have "scans 31 (e # d # r) (Some m) 0 st
          (case str_end s of Some r \<Rightarrow> (value_string, st, r) | None \<Rightarrow> (parse_error, st, m))"
        using u by (intro scans_31) simp
      then show ?thesis unfolding u by (intro scans_next [OF hex_labels(5)]) (simp only: esc if_True)
    next
      case uni: 2
      have zu: "CHR 0x00 \<in> set u" using z uni(2) by simp
      have "scans 43 (e # u) (Some m) 0 st
          (case str_end s of Some r \<Rightarrow> (value_string, st, r) | None \<Rightarrow> (parse_error, st, m))"
      proof (rule scans_four_hex [OF zu])
        assume h: "length u \<ge> 4" "list_all is_hex (take 4 u)" "CHR 0x00 \<in> set (drop 4 u)"
        from "1.IH"(2) [OF s _ _ t uni(1) _ h(3)] 2 uni(2) h have "scans 32 (drop 4 u) (Some m) 0 st
          (case str_end (drop 4 u) of Some r \<Rightarrow> (value_string, st, r) | None \<Rightarrow> (parse_error, st, m))" by simp
        moreover have "str_end s = str_end (drop 4 u)" using s 2 t uni h by (subst str_end.simps) simp
        ultimately show "scans 32 (drop 4 u) (Some m) 0 st
          (case str_end s of Some r \<Rightarrow> (value_string, st, r) | None \<Rightarrow> (parse_error, st, m))" by simp
      next
        assume "\<not> (length u \<ge> 4 \<and> list_all is_hex (take 4 u))"
        then have "str_end s = None" using s 2 t uni by (subst str_end.simps) auto
        then show "(case str_end s of Some r \<Rightarrow> (value_string, st, r) | None \<Rightarrow> (parse_error, st, m)) = (parse_error, st, m)"
          by simp
      qed
      then show ?thesis using uni by (auto intro!: scans_next hex_labels)
    next
      case 3
      then have "str_end s = None" using s 2 t by (subst str_end.simps) auto
      then show ?thesis using 3 scans_33(1) by (auto intro!: scans_next hex_labels)
    qed
    then show ?thesis unfolding s t by (intro scans_32) (simp only: lab)
  next
    case 3
    with s "1.prems" obtain d r where t: "t = d # r" "CHR 0x00 \<in> set t"
      by (cases t) (auto simp: less_eq_char_def)
    from "1.IH"(3) [OF s 3(1,2,3) t(2)] have "scans 32 (d # r) (Some m) 0 st
      (case str_end t of Some r \<Rightarrow> (value_string, st, r) | None \<Rightarrow> (parse_error, st, m))" unfolding t(1) .
    moreover have "str_end s = str_end t" using s 3 by (subst str_end.simps) simp
    ultimately show ?thesis using s t 3 by (auto intro!: scans_32 scans_31)
  next
    case 4
    then have "c \<le> CHR 0x1F" "c \<noteq> CHR 0x22" "c \<noteq> CHR 0x5C" by (auto simp: char_arith)
    moreover from this have "str_end s = None" using s 4 by (subst str_end.simps) simp
    ultimately show ?thesis using s 4 scans_33(1) by (auto intro!: scans_32)
  qed
qed

text \<open>Numbers.\<close>

lemma digit_targets:
  "(if c \<le> CHR ''/'' then n else if c \<le> CHR ''9'' then m else n) = (if isdigit c then m else n :: nat)"
  "(if c \<le> CHR ''/'' then n else if c \<ge> CHR '':'' then n else m) = (if isdigit c then m else n :: nat)"
  by (auto simp: char_arith)

lemma exp_target:
  "(if c \<le> CHR '','' then if c = CHR ''+'' then 46 else 33
     else if c \<le> CHR ''-'' then 46 else if isdigit c then 47 else 33)
   = (if c = CHR ''+'' \<or> c = CHR ''-'' then 46 else if isdigit c then 47 else 33 :: nat)"
  by (auto simp: char_arith)

lemma tail_targets:
  "(if c \<le> CHR ''D'' then if c = CHR ''.'' then 37 else 14
     else if c \<le> CHR ''E'' then 38 else if c = CHR ''e'' then 38 else 14)
   = (if c = CHR ''.'' then 37 else if c = CHR ''e'' \<or> c = CHR ''E'' then 38 else 14 :: nat)"
  "(if c \<le> CHR ''D'' then if isdigit c then 44 else 14
     else if c \<le> CHR ''E'' then 38 else if c = CHR ''e'' then 38 else 14)
   = (if isdigit c then 44 else if c = CHR ''e'' \<or> c = CHR ''E'' then 38 else 14 :: nat)"
  by (auto simp: char_arith)

lemma number_labels:
  "dfa 13 = next_mark 1 (\<lambda>s. if yych s = CHR ''.'' then 37 else if yych s = CHR ''e'' \<or> yych s = CHR ''E'' then 38 else 14)"
  "dfa 15 = next_mark 1 (\<lambda>s. if isdigit (yych s) then 15 else if yych s = CHR ''.'' then 37
     else if yych s = CHR ''e'' \<or> yych s = CHR ''E'' then 38 else 14)"
  "dfa 37 = next_char (\<lambda>s. if isdigit (yych s) then 44 else 33)"
  "dfa 38 = next_char (\<lambda>s. if yych s = CHR ''+'' \<or> yych s = CHR ''-'' then 46 else if isdigit (yych s) then 47 else 33)"
  "dfa 44 = next_mark 1 (\<lambda>s. if isdigit (yych s) then 44 else if yych s = CHR ''e'' \<or> yych s = CHR ''E'' then 38 else 14)"
  "dfa 46 = next_char (\<lambda>s. if isdigit (yych s) then 47 else 33)"
  "dfa 47 = next_char (\<lambda>s. if isdigit (yych s) then 47 else 14)"
  by (simp_all only: dfa_labels block_defs Let_def digit_targets exp_target tail_targets in_class_digit)

lemma zero_char [simp]: "CHR 0x00 \<in> set s \<Longrightarrow> s \<noteq> []"
  by auto

lemma zero_dropWhile: "CHR 0x00 \<in> set s \<Longrightarrow> CHR 0x00 \<in> set (dropWhile isdigit s)"
  by (induction s) auto

lemma scans_47:
  assumes "CHR 0x00 \<in> set t"
  shows "scans 47 (c # t) mk acc st (value_number, st, dropWhile isdigit t)"
  using assms
proof (induction t arbitrary: c)
  case (Cons d t)
  show ?case
  proof (rule scans_next [OF number_labels(7)], cases "isdigit d")
    case True
    with Cons show "scans (if isdigit d then 47 else 14) (d # t) mk acc st (value_number, st, dropWhile isdigit (d # t))"
      by auto
  qed (simp add: scans_accept)
qed simp

lemma scans_38:
  assumes "CHR 0x00 \<in> set t" "c = CHR ''e'' \<or> c = CHR ''E''"
  shows "scans 38 (c # t) (Some (c # t)) 1 st (value_number, st, exp_end (c # t))"
proof -
  from assms(1) obtain d r where t: "t = d # r" by (cases t) auto
  consider "d = CHR ''+'' \<or> d = CHR ''-''" | "d \<noteq> CHR ''+''" "d \<noteq> CHR ''-''" by blast
  then show ?thesis
  proof cases
    case 1
    with assms t obtain e q where r: "r = e # q" "CHR 0x00 \<in> set (e # q)" by (cases r) auto
    have "scans 46 (d # r) (Some (c # t)) 1 st (value_number, st, exp_end (c # t))"
      unfolding r(1)
    proof (rule scans_next [OF number_labels(6)], cases "isdigit e")
      case True
      moreover from this r have "CHR 0x00 \<in> set q" by auto
      ultimately show "scans (if isdigit e then 47 else 33) (e # q) (Some (c # t)) 1 st (value_number, st, exp_end (c # t))"
        using scans_47 [of q e] assms(2) 1 t r by (auto simp: exp_end_def)
    qed (use assms(2) 1 t r scans_33(2) in \<open>auto simp: exp_end_def\<close>)
    then show ?thesis using 1 unfolding t by (intro scans_next [OF number_labels(4)]) simp
  next
    case 2
    show ?thesis unfolding t
    proof (rule scans_next [OF number_labels(4)], cases "isdigit d")
      case True
      moreover from this assms t have "CHR 0x00 \<in> set r" by auto
      ultimately show "scans (if d = CHR ''+'' \<or> d = CHR ''-'' then 46 else if isdigit d then 47 else 33)
          (d # r) (Some (c # d # r)) 1 st (value_number, st, exp_end (c # d # r))"
        using scans_47 [of r d] assms(2) 2 by (auto simp: exp_end_def)
    qed (use assms(2) 2 scans_33(2) in \<open>auto simp: exp_end_def\<close>)
  qed
qed

lemma scans_tail:
  assumes "CHR 0x00 \<in> set s"
  shows "scans (if hd s = CHR ''e'' \<or> hd s = CHR ''E'' then 38 else 14) s (Some s) 1 st (value_number, st, exp_end s)"
proof (cases s)
  case (Cons c t)
  show ?thesis
  proof (cases "c = CHR ''e'' \<or> c = CHR ''E''")
    case True
    moreover from this assms Cons have "CHR 0x00 \<in> set t" by auto
    ultimately show ?thesis using scans_38 [of t c st] Cons by simp
  next
    case False
    then have "exp_end s = s" using Cons by (simp add: exp_end_def)
    with False show ?thesis using Cons scans_accept(2) by simp
  qed
qed (use assms in simp)

lemma scans_44:
  assumes "CHR 0x00 \<in> set t"
  shows "scans 44 (c # t) mk acc st (value_number, st, exp_end (dropWhile isdigit t))"
  using assms
proof (induction t arbitrary: c mk acc)
  case (Cons d t)
  show ?case
  proof (rule scans_mark [OF number_labels(5)], cases "isdigit d")
    case True
    with Cons show "scans (if isdigit d then 44 else if d = CHR ''e'' \<or> d = CHR ''E'' then 38 else 14) (d # t)
        (Some (d # t)) 1 st (value_number, st, exp_end (dropWhile isdigit (d # t)))"
      by auto
  next
    case False
    then show "scans (if isdigit d then 44 else if d = CHR ''e'' \<or> d = CHR ''E'' then 38 else 14) (d # t)
        (Some (d # t)) 1 st (value_number, st, exp_end (dropWhile isdigit (d # t)))"
      using scans_tail [OF Cons.prems] by simp
  qed
qed simp

lemma scans_frac:
  assumes "CHR 0x00 \<in> set s"
  shows "scans (if hd s = CHR ''.'' then 37 else if hd s = CHR ''e'' \<or> hd s = CHR ''E'' then 38 else 14)
    s (Some s) 1 st (value_number, st, frac_end s)"
proof (cases s)
  case (Cons c t)
  show ?thesis
  proof (cases "c = CHR ''.''")
    case True
    with assms Cons obtain d r where t: "t = d # r" "CHR 0x00 \<in> set (d # r)" by (cases t) auto
    have "scans 37 (c # d # r) (Some s) 1 st (value_number, st, frac_end s)"
    proof (rule scans_next [OF number_labels(3)], cases "isdigit d")
      case d: True
      moreover from this t have "CHR 0x00 \<in> set r" by auto
      ultimately show "scans (if isdigit d then 44 else 33) (d # r) (Some s) 1 st (value_number, st, frac_end s)"
        using scans_44 [of r d] True Cons t by (simp add: frac_end_def)
    next
      case False
      then have "frac_end s = s" using True Cons t by (simp add: frac_end_def exp_end_def)
      with False show "scans (if isdigit d then 44 else 33) (d # r) (Some s) 1 st (value_number, st, frac_end s)"
        using scans_33(2) by simp
    qed
    with True Cons t show ?thesis by simp
  next
    case False
    then have "frac_end s = exp_end s" using Cons by (simp add: frac_end_def)
    with False show ?thesis using scans_tail [OF assms] Cons by simp
  qed
qed (use assms in simp)

lemma scans_13:
  assumes "CHR 0x00 \<in> set t"
  shows "scans 13 (c # t) mk acc st (value_number, st, frac_end t)"
proof -
  from assms obtain d r where t: "t = d # r" by (cases t) auto
  show ?thesis using scans_frac [OF assms] unfolding t list.sel by (rule scans_mark [OF number_labels(1)])
qed

lemma scans_15:
  assumes "CHR 0x00 \<in> set t"
  shows "scans 15 (c # t) mk acc st (value_number, st, frac_end (dropWhile isdigit t))"
  using assms
proof (induction t arbitrary: c mk acc)
  case (Cons d t)
  show ?case
  proof (rule scans_mark [OF number_labels(2)], cases "isdigit d")
    case True
    with Cons show "scans (if isdigit d then 15 else if d = CHR ''.'' then 37
        else if d = CHR ''e'' \<or> d = CHR ''E'' then 38 else 14) (d # t)
        (Some (d # t)) 1 st (value_number, st, frac_end (dropWhile isdigit (d # t)))"
      by auto
  next
    case False
    then show "scans (if isdigit d then 15 else if d = CHR ''.'' then 37
        else if d = CHR ''e'' \<or> d = CHR ''E'' then 38 else 14) (d # t)
        (Some (d # t)) 1 st (value_number, st, frac_end (dropWhile isdigit (d # t)))"
      using scans_frac [OF Cons.prems, of st, unfolded list.sel] by (simp only: if_False dropWhile.simps)
  qed
qed simp

text \<open>Literals.\<close>

lemma literal_labels:
  "dfa 23 = next_mark 0 (\<lambda>s. if yych s = CHR ''a'' then 39 else 5)"
  "dfa 24 = next_mark 0 (\<lambda>s. if yych s = CHR ''u'' then 40 else 5)"
  "dfa 25 = next_mark 0 (\<lambda>s. if yych s = CHR ''r'' then 41 else 5)"
  "dfa 30 = next_mark 0 (\<lambda>s. if yych s = CHR 0xBB then 42 else 5)"
  "dfa 39 = next_char (\<lambda>s. if yych s = CHR ''l'' then 49 else 33)"
  "dfa 40 = next_char (\<lambda>s. if yych s = CHR ''l'' then 50 else 33)"
  "dfa 41 = next_char (\<lambda>s. if yych s = CHR ''u'' then 51 else 33)"
  "dfa 42 = next_char (\<lambda>s. if yych s = CHR 0xBF then 52 else 33)"
  "dfa 49 = next_char (\<lambda>s. if yych s = CHR ''s'' then 55 else 33)"
  "dfa 50 = next_char (\<lambda>s. if yych s = CHR ''l'' then 56 else 33)"
  "dfa 51 = next_char (\<lambda>s. if yych s = CHR ''e'' then 58 else 33)"
  "dfa 55 = next_char (\<lambda>s. if yych s = CHR ''e'' then 61 else 33)"
  "dfa 2 = take_token end_of_input" "dfa 10 = take_token value_separator" "dfa 17 = take_token name_separator"
  "dfa 19 = take_token begin_array" "dfa 21 = take_token end_array" "dfa 26 = take_token begin_object"
  "dfa 28 = take_token end_object"
  "dfa 56 = take_token literal_null" "dfa 58 = take_token literal_true" "dfa 61 = take_token literal_false"
  by (simp_all only: dfa_labels block_defs Let_def)

text \<open>
  The rest of a literal: with each label the next expected character. The marker stays behind the
  first character.
\<close>

fun chain :: "nat \<Rightarrow> string \<Rightarrow> token_type \<Rightarrow> bool" where
  "chain l [] t \<longleftrightarrow> dfa l = take_token t"
| "chain l (w # ws) t \<longleftrightarrow> (\<exists>l'. dfa l = next_char (\<lambda>s. if yych s = w then l' else 33) \<and> l' \<noteq> 32 \<and> chain l' ws t)"

lemma chains:
  "chain 39 ''lse'' literal_false" "chain 40 ''ll'' literal_null" "chain 41 ''ue'' literal_true"
  by (auto simp: literal_labels intro!: exI)

lemma scans_chain:
  assumes "chain l w ty" "CHR 0x00 \<in> set s" "CHR 0x00 \<notin> set w"
  shows "scans l (c # s) (Some m) 0 st
    (if take (length w) s = w then (ty, st, drop (length w) s) else (parse_error, st, m))"
  using assms
proof (induction w arbitrary: l c s)
  case Nil
  then show ?case by (simp add: scans_take)
next
  case (Cons w ws)
  then obtain l' where l': "dfa l = next_char (\<lambda>s. if yych s = w then l' else 33)" "chain l' ws ty" by auto
  from Cons.prems obtain d r where s: "s = d # r" by (cases s) auto
  show ?case unfolding s
  proof (rule scans_next [OF l'(1)], cases "d = w")
    case True
    with Cons.prems s have "CHR 0x00 \<in> set r" by auto
    with Cons.IH [OF l'(2) this, of d] Cons.prems(3) True
    show "scans (if d = w then l' else 33) (d # r) (Some m) 0 st
        (if take (length (w # ws)) (d # r) = w # ws then (ty, st, drop (length (w # ws)) (d # r)) else (parse_error, st, m))"
      by (simp split: if_splits)
  next
    case False
    then show "scans (if d = w then l' else 33) (d # r) (Some m) 0 st
        (if take (length (w # ws)) (d # r) = w # ws then (ty, st, drop (length (w # ws)) (d # r)) else (parse_error, st, m))"
      using scans_33(1) by simp
  qed
qed

lemma scans_literal:
  assumes "dfa l = next_mark 0 (\<lambda>s. if yych s = w then l' else 5)" "chain l' ws ty"
    "CHR 0x00 \<in> set s" "CHR 0x00 \<notin> set (w # ws)"
  shows "scans l (c # s) mk acc st (case literal_at (w # ws) ty s of (t, r) \<Rightarrow> (t, st, r))"
proof -
  from assms(3) obtain d r where s: "s = d # r" by (cases s) auto
  show ?thesis unfolding s
  proof (rule scans_mark [OF assms(1)], cases "d = w")
    case True
    with assms s have "CHR 0x00 \<in> set r" by auto
    from scans_chain [OF assms(2) this, of d "d # r" st] assms(4) True
    show "scans (if d = w then l' else 5) (d # r) (Some (d # r)) 0 st (case literal_at (w # ws) ty (d # r) of (t, r) \<Rightarrow> (t, st, r))"
      by (simp add: literal_at_def split: if_splits)
  next
    case False
    then show "scans (if d = w then l' else 5) (d # r) (Some (d # r)) 0 st (case literal_at (w # ws) ty (d # r) of (t, r) \<Rightarrow> (t, st, r))"
      using scans_accept(1) by (simp add: literal_at_def)
  qed
qed

text \<open>The first character.\<close>

definition first_label :: "char \<Rightarrow> nat" where
  "first_label c =
     (if is_blank c then 6 else if c = CHR 0x00 then 2 else if c = CHR 0x22 then 9 else if c = CHR '','' then 10
      else if c = CHR ''-'' then 12 else if c = CHR ''0'' then 13 else if isdigit c then 15
      else if c = CHR '':'' then 17 else if c = CHR ''['' then 19 else if c = CHR '']'' then 21
      else if c = CHR ''f'' then 23 else if c = CHR ''n'' then 24 else if c = CHR ''t'' then 25
      else if c = CHR ''{'' then 26 else if c = CHR ''}'' then 28 else if c = CHR 0xEF then 30 else 4)"

lemma first_target:
  "(if is_blank c then 6
         else if c \<le> CHR 0x5C then
           (if c \<le> CHR ''-'' then
              (if c \<le> CHR 0x22 then (if c \<le> CHR 0x00 then 2 else if c \<le> CHR ''!'' then 4 else 9)
               else if c \<le> CHR ''+'' then 4 else if c \<le> CHR '','' then 10 else 12)
            else if c \<le> CHR ''9'' then (if c \<le> CHR ''/'' then 4 else if c \<le> CHR ''0'' then 13 else 15)
            else if c \<le> CHR '':'' then 17 else if c = CHR ''['' then 19 else 4)
         else if c \<le> CHR ''t'' then
           (if c \<le> CHR ''f'' then (if c \<le> CHR '']'' then 21 else if c \<le> CHR ''e'' then 4 else 23)
            else if c = CHR ''n'' then 24 else if c \<le> CHR ''s'' then 4 else 25)
         else if c \<le> CHR ''|'' then (if c = CHR ''{'' then 26 else 4)
         else if c \<le> CHR ''}'' then 28 else if c = CHR 0xEF then 30 else 4)
    = first_label c"
proof (cases "c \<le> CHR 0x5C")
  case True
  then show ?thesis unfolding first_label_def
    by (cases "c \<le> CHR ''-''") (simp_all add: is_blank_def char_arith)
next
  case False
  then show ?thesis unfolding first_label_def
    by (cases "c \<le> CHR ''t''") (simp_all add: is_blank_def char_arith)
qed

lemma scans_1:
  assumes "scans (first_label c) (c # r) None 0 (c # r) out"
  shows "scans 1 (c # r) mk acc st out"
proof (rule scansI)
  fix s :: scanner assume s: "m_cursor s = c # r" "m_marker s = mk" "yyaccept s = acc" "m_start s = st"
  let ?s = "s\<lparr>m_marker := None, m_start := c # r, yyaccept := 0, yych := c\<rparr>"
  from s have "scan_loop 1 s = scan_loop (first_label c) ?s"
    by (subst scan_loop.simps)
      (simp add: block_prims dfa_labels(1) basic_json_parser_1_def in_class_blank first_target del: One_nat_def)
  with s scansD [OF assms, of ?s]
  show "\<exists>s'. scan_loop 1 s = Inr s' \<and> (last_token_type s', m_start s', m_cursor s') = out" by simp
qed

definition outcome :: "string \<Rightarrow> token_type \<times> string \<times> string" where
  "outcome s = (case token_at s of (t, r) \<Rightarrow> (t, s, r))"

lemma scans_minus:
  assumes "CHR 0x00 \<in> set t"
  shows "scans 12 (c # t) mk acc st
    (if isdigit (hd t) then (value_number, st, num_end t) else (parse_error, st, t))"
proof -
  from assms obtain d r where t: "t = d # r" by (cases t) auto
  have lab: "dfa 12 = next_char (\<lambda>s. if yych s = CHR ''0'' then 13 else if isdigit (yych s) then 15 else 5)"
    unfolding dfa_labels block_defs Let_def by (rule arg_cong [where f=next_char]) (auto simp: char_arith)
  have "CHR 0x00 \<in> set r" if "isdigit d" using that assms t by auto
  then show ?thesis unfolding t
    by (intro scans_next [OF lab])
      (auto simp: scans_13 scans_15 scans_accept num_end_def char_arith)
qed

lemma scans_token:
  assumes zero: "CHR 0x00 \<in> set (c # t)" and blank: "\<not> is_blank c" and nobom: "c \<noteq> CHR 0xEF"
  shows "scans (first_label c) (c # t) None 0 (c # t) (outcome (c # t))"
proof (cases "c = CHR 0x00")
  case True
  then show ?thesis by (simp add: first_label_def is_blank_def outcome_def token_at_def punctuation.simps
      scans_take literal_labels)
next
  case nz: False
  with zero have z: "CHR 0x00 \<in> set t" by auto
  then obtain d r where t: "t = d # r" by (cases t) auto
  note defs = first_label_def is_blank_def outcome_def token_at_def punctuation.simps
  consider "c \<in> {CHR '','', CHR '':'', CHR ''['', CHR '']'', CHR ''{'', CHR ''}''}"
    | "c = CHR 0x22" | "c = CHR ''-''" | "c = CHR ''0''" | "isdigit c" "c \<noteq> CHR ''0''"
    | "c = CHR ''t''" | "c = CHR ''f''" | "c = CHR ''n''"
    | "c \<notin> {CHR '','', CHR '':'', CHR ''['', CHR '']'', CHR ''{'', CHR ''}'', CHR 0x22, CHR ''-'', CHR ''t'', CHR ''f'', CHR ''n''}"
      "\<not> isdigit c"
    by auto
  then show ?thesis
  proof cases
    case 1
    then show ?thesis by (elim insertE emptyE) (simp_all add: defs isdigit_def scans_take literal_labels)
  next
    case 2
    have "scans 9 (c # d # r) None 0 (c # t) (outcome (c # t))"
    proof (rule scans_mark [where g="\<lambda>c. if c \<le> CHR 0x1F then 5 else 32" and a=0])
      show "dfa 9 = next_mark 0 (\<lambda>s. if yych s \<le> CHR 0x1F then 5 else 32)"
        by (simp add: dfa_labels block_defs)
      show "scans (if d \<le> CHR 0x1F then 5 else 32) (d # r) (Some (d # r)) 0 (c # t) (outcome (c # t))"
      proof (cases "d \<le> CHR 0x1F")
        case True
        then have "\<not> CHR 0x20 \<le> d" "d \<noteq> CHR 0x22" "d \<noteq> CHR 0x5C" by (auto simp: char_arith)
        then have "str_end (d # r) = None" by (simp add: str_end.simps)
        with True 2 t show ?thesis by (simp add: defs scans_accept)
      next
        case False
        with scans_string [OF z, of t "c # t"] 2 t show ?thesis by (simp add: defs split: option.splits)
      qed
    qed
    with 2 t show ?thesis by (simp add: defs)
  next
    case 3
    with scans_minus [OF z, of c None 0 "c # t"] z show ?thesis by (simp add: defs split: if_splits)
  next
    case 4
    with scans_13 [OF z, of c None 0 "c # t"] show ?thesis by (simp add: defs num_end_def isdigit_def)
  next
    case 5
    have ne: "c \<noteq> d" if "\<not> isdigit d" for d using 5(1) that by auto
    have "first_label c = 15" using 5 blank by (simp add: first_label_def ne isdigit_Char)
    moreover have "outcome (c # t) = (value_number, c # t, frac_end (dropWhile isdigit t))"
      using 5 by (simp add: outcome_def token_at_def punctuation.simps num_end_def ne isdigit_Char)
    ultimately show ?thesis using scans_15 [OF z, of c None 0 "c # t"] by simp
  next
    case 6
    with scans_literal [OF literal_labels(3) chains(3) z, of c None 0 "c # t"] show ?thesis
      by (simp add: defs isdigit_def split: prod.splits)
  next
    case 7
    with scans_literal [OF literal_labels(1) chains(1) z, of c None 0 "c # t"] show ?thesis
      by (simp add: defs isdigit_def split: prod.splits)
  next
    case 8
    with scans_literal [OF literal_labels(2) chains(2) z, of c None 0 "c # t"] show ?thesis
      by (simp add: defs isdigit_def split: prod.splits)
  next
    case 9
    then have "outcome (c # t) = (parse_error, c # t, t)"
      using nz by (simp add: outcome_def token_at_def punctuation.simps)
    moreover have "c \<noteq> CHR ''0''" using 9(2) by (clarsimp simp: isdigit_Char)
    then have "first_label c = 4"
      using 9 blank nz nobom by (simp add: first_label_def)
    ultimately show ?thesis by (simp add: scans_4)
  qed
qed

text \<open>Blanks and byte order marks.\<close>

lemma scans_bom:
  assumes "CHR 0x00 \<in> set t"
    and bom: "take 2 t = [CHR 0xBB, CHR 0xBF] \<Longrightarrow> scans 1 (drop 2 t) (Some t) 0 st out"
    and no: "take 2 t \<noteq> [CHR 0xBB, CHR 0xBF] \<Longrightarrow> out = (parse_error, st, t)"
  shows "scans 30 (c # t) mk acc st out"
proof -
  from assms(1) obtain d r where t: "t = d # r" by (cases t) auto
  show ?thesis unfolding t
  proof (rule scans_mark [OF literal_labels(4)], cases "d = CHR 0xBB")
    case True
    with assms(1) t obtain e q where r: "r = e # q" by (cases r) auto
    have "scans 42 (d # e # q) (Some t) 0 st out"
    proof (rule scans_next [OF literal_labels(8)], cases "e = CHR 0xBF")
      case e: True
      with bom True t r have "scans 52 (e # q) (Some t) 0 st out" by (intro scans_52) simp
      with e show "scans (if e = CHR 0xBF then 52 else 33) (e # q) (Some t) 0 st out" by simp
    next
      case False
      with no True t r show "scans (if e = CHR 0xBF then 52 else 33) (e # q) (Some t) 0 st out"
        by (simp add: scans_33)
    qed
    with True t r show "scans (if d = CHR 0xBB then 42 else 5) (d # r) (Some (d # r)) 0 st out" by simp
  next
    case False
    with no t show "scans (if d = CHR 0xBB then 42 else 5) (d # r) (Some (d # r)) 0 st out"
      by (simp add: scans_accept)
  qed
qed

lemma take3_bom: "take 3 (c # t) = bom \<longleftrightarrow> c = CHR 0xEF \<and> take 2 t = [CHR 0xBB, CHR 0xBF]"
  by (auto simp: bom_def numeral_3_eq_3 numeral_2_eq_2)

lemma zero_drop_bom:
  assumes "CHR 0x00 \<in> set t" "take 2 t = [CHR 0xBB, CHR 0xBF]"
  shows "CHR 0x00 \<in> set (drop 2 t)"
proof -
  have "set t = set (take 2 t) \<union> set (drop 2 t)" by (metis append_take_drop_id set_append)
  with assms show ?thesis by auto
qed

lemma scans_blanks:
  assumes "CHR 0x00 \<in> set s"
  shows "(\<forall>mk acc st. scans 1 s mk acc st (outcome (skip_blanks s)))
    \<and> (\<forall>c mk acc st. scans 6 (c # s) mk acc st (outcome (skip_blanks s)))"
  using assms
proof (induction s rule: skip_blanks.induct)
  case (2 d r)
  show ?case
  proof (cases "is_blank d")
    case True
    then have r: "CHR 0x00 \<in> set r" using "2.prems" by (auto simp: is_blank_def)
    note IH = "2.IH"(1) [OF True r]
    have six: "scans 6 (d # r) mk acc st (outcome (skip_blanks r))" for mk acc st using IH by blast
    have "first_label d = 6" using True by (simp add: first_label_def)
    with six have "scans 1 (d # r) mk acc st (outcome (skip_blanks r))" for mk acc st
      by (intro scans_1) simp
    moreover have "scans 6 (c # d # r) mk acc st (outcome (skip_blanks r))" for c mk acc st
      using six True by (intro scans_6) simp
    ultimately show ?thesis using True by simp
  next
    case blank: False
    have one: "scans 1 (d # r) mk acc st (outcome (skip_blanks (d # r)))" for mk acc st
    proof (rule scans_1, cases "d = CHR 0xEF")
      case d: True
      then have r: "CHR 0x00 \<in> set r" using "2.prems" by simp
      have "scans 30 (d # r) None 0 (d # r) (outcome (skip_blanks (d # r)))"
      proof (rule scans_bom [OF r])
        assume b: "take 2 r = [CHR 0xBB, CHR 0xBF]"
        then have t: "take 3 (d # r) = bom" using d by (simp only: take3_bom simp_thms)
        have "CHR 0x00 \<in> set (drop 2 r)" by (rule zero_drop_bom [OF r b])
        from "2.IH"(2) [OF blank t this] show "scans 1 (drop 2 r) (Some r) 0 (d # r) (outcome (skip_blanks (d # r)))"
          by (simp only: skip_blanks.simps blank t if_False if_True simp_thms)
      next
        assume "take 2 r \<noteq> [CHR 0xBB, CHR 0xBF]"
        then have "take 3 (d # r) \<noteq> bom" by (simp only: take3_bom simp_thms)
        then show "outcome (skip_blanks (d # r)) = (parse_error, d # r, r)"
          using blank d by (simp only: skip_blanks.simps if_False) (simp add: outcome_def token_at_def punctuation.simps isdigit_Char)
      qed
      then show "scans (first_label d) (d # r) None 0 (d # r) (outcome (skip_blanks (d # r)))"
        using d by (simp add: first_label_def is_blank_def isdigit_Char)
    next
      case False
      then have "skip_blanks (d # r) = d # r" using blank by (simp only: skip_blanks.simps take3_bom if_False simp_thms)
      with scans_token [OF "2.prems" blank False]
      show "scans (first_label d) (d # r) None 0 (d # r) (outcome (skip_blanks (d # r)))" by simp
    qed
    moreover have "scans 6 (c # d # r) mk acc st (outcome (skip_blanks (d # r)))" for c mk acc st
      using one blank by (intro scans_6) simp
    ultimately show ?thesis by blast
  qed
qed simp

lemma scan_is_token_at:
  assumes "CHR 0x00 \<in> set (m_cursor lx)"
  shows "\<exists>lx'. scan lx = Inr (fst (token_at (skip_blanks (m_cursor lx))), lx')
    \<and> m_start lx' = skip_blanks (m_cursor lx) \<and> m_cursor lx' = snd (token_at (skip_blanks (m_cursor lx)))"
proof -
  let ?s = "lexer.extend lx \<lparr>yyaccept = 0, yych = CHR 0x00\<rparr>"
  have ext: "m_cursor ?s = m_cursor lx" by (simp add: lexer.extend_def)
  from scans_blanks [OF assms] have "scans 1 (m_cursor lx) (m_marker ?s) (yyaccept ?s) (m_start ?s)
    (outcome (skip_blanks (m_cursor lx)))" by blast
  from scansD [OF this ext refl refl refl] obtain s' where "scan_loop 1 ?s = Inr s'"
    "(last_token_type s', m_start s', m_cursor s') = outcome (skip_blanks (m_cursor lx))" by auto
  then show ?thesis
    by (auto simp: scan_def outcome_def lexer.truncate_def simp del: One_nat_def split: prod.splits)
qed

text \<open>
  C26: The automaton of re2c is equivalent to the reference scanner: from a cursor with a zero byte
  ahead it drops blanks and byte order marks and leaves with the token type, the beginning and the
  end that \<open>token_at\<close> computes; it ends and reads nothing behind the zero byte.
\<close>

theorem scan_token:
  assumes "CHR 0x00 \<in> set (m_cursor lx)"
  shows "\<exists>lx'. scan lx = Inr (fst (token_at (skip_blanks (m_cursor lx))), lx')
    \<and> m_start lx' = skip_blanks (m_cursor lx) \<and> m_cursor lx' = snd (token_at (skip_blanks (m_cursor lx)))"
  using assms by (rule scan_is_token_at)

lemma scan_token_witness:
  "\<exists>lx'. scan (lexer_of ''-1.5e,'') = Inr (value_number, lx') \<and> m_cursor lx' = ''e,'' @ [CHR 0x00]"
proof -
  have skip: "skip_blanks (m_cursor (lexer_of ''-1.5e,'')) = ''-1.5e,'' @ [CHR 0x00]" by code_simp
  have tok: "token_at (''-1.5e,'' @ [CHR 0x00]) = (value_number, ''e,'' @ [CHR 0x00])" by code_simp
  have "CHR 0x00 \<in> set (m_cursor (lexer_of ''-1.5e,''))" by (simp add: lexer_of_def)
  from scan_token [OF this] show ?thesis unfolding skip tok by auto
qed

section \<open>The grammar\<close>

function blanks :: "string \<Rightarrow> bool" where
  "blanks s \<longleftrightarrow>
     (case s of
        [] \<Rightarrow> True
      | c # t \<Rightarrow> is_blank c \<and> blanks t \<or> take 3 s = bom \<and> blanks (drop 3 s))"
  by pat_completeness auto
termination by (relation "measure length") auto

declare blanks.simps [simp del]

definition digits1 :: "string \<Rightarrow> bool" where
  "digits1 s \<longleftrightarrow> s \<noteq> [] \<and> list_all isdigit s"

definition int_text :: "string \<Rightarrow> bool" where
  "int_text w \<longleftrightarrow> w = ''0'' \<or> digits1 w \<and> hd w \<noteq> CHR ''0''"

definition frac_text :: "string \<Rightarrow> bool" where
  "frac_text w \<longleftrightarrow> w = [] \<or> (\<exists>ds. w = CHR ''.'' # ds \<and> digits1 ds)"

definition exp_text :: "string \<Rightarrow> bool" where
  "exp_text w \<longleftrightarrow> w = [] \<or>
     (\<exists>e sg ds. w = e # sg @ ds \<and> e \<in> {CHR ''e'', CHR ''E''} \<and> sg \<in> {[], ''+'', ''-''} \<and> digits1 ds)"

definition number_text :: "string \<Rightarrow> bool" where
  "number_text w \<longleftrightarrow>
     (\<exists>sg i f e. w = sg @ i @ f @ e \<and> sg \<in> {[], ''-''} \<and> int_text i \<and> frac_text f \<and> exp_text e)"

inductive string_body :: "string \<Rightarrow> bool" where
  "string_body []"
| "CHR 0x20 \<le> c \<Longrightarrow> c \<noteq> CHR 0x22 \<Longrightarrow> c \<noteq> CHR 0x5C \<Longrightarrow> string_body b \<Longrightarrow> string_body (c # b)"
| "is_simple_escape c \<Longrightarrow> string_body b \<Longrightarrow> string_body (CHR 0x5C # c # b)"
| "length h = 4 \<Longrightarrow> list_all is_hex h \<Longrightarrow> string_body b \<Longrightarrow> string_body (CHR 0x5C # CHR ''u'' # h @ b)"

fun token_text :: "token_type \<Rightarrow> string \<Rightarrow> bool" where
  "token_text literal_true w \<longleftrightarrow> w = ''true''"
| "token_text literal_false w \<longleftrightarrow> w = ''false''"
| "token_text literal_null w \<longleftrightarrow> w = ''null''"
| "token_text value_string w \<longleftrightarrow> (\<exists>b. string_body b \<and> w = CHR 0x22 # b @ [CHR 0x22])"
| "token_text value_number w \<longleftrightarrow> number_text w"
| "token_text begin_array w \<longleftrightarrow> w = ''[''"
| "token_text begin_object w \<longleftrightarrow> w = ''{''"
| "token_text end_array w \<longleftrightarrow> w = '']''"
| "token_text end_object w \<longleftrightarrow> w = ''}''"
| "token_text name_separator w \<longleftrightarrow> w = '':''"
| "token_text value_separator w \<longleftrightarrow> w = '',''"
| "token_text end_of_input w \<longleftrightarrow> w = [CHR 0x00]"
| "token_text uninitialized w \<longleftrightarrow> False"
| "token_text parse_error w \<longleftrightarrow> False"

lemma skip_blanks_split: "\<exists>b. blanks b \<and> s = b @ skip_blanks s"
proof (induction s rule: skip_blanks.induct)
  case (2 c s)
  show ?case
  proof (cases "is_blank c")
    case True
    with "2.IH"(1) obtain b where "blanks b" "s = b @ skip_blanks s" by blast
    with True show ?thesis by (intro exI [of _ "c # b"]) (simp add: blanks.simps [of "c # b"])
  next
    case False
    show ?thesis
    proof (cases "take 3 (c # s) = bom")
      case True
      with "2.IH"(2) [OF False] obtain b where b: "blanks b" "drop 2 s = b @ skip_blanks (drop 2 s)" by blast
      have "c # s = bom @ drop 3 (c # s)" using True by (metis append_take_drop_id)
      then have "c # s = (bom @ b) @ skip_blanks (drop 2 s)" using b(2) by simp
      moreover have "blanks (bom @ b)" using b(1) by (subst blanks.simps) (simp add: bom_def)
      ultimately show ?thesis using False True by (metis skip_blanks.simps(2))
    next
      case no: False
      then have "skip_blanks (c # s) = c # s" using False by (simp only: skip_blanks.simps if_False)
      then show ?thesis by (intro exI [of _ "[]"]) (simp add: blanks.simps)
    qed
  qed
qed (simp add: blanks.simps)

text \<open>Numbers: what is taken is a number, and no longer prefix is one.\<close>

lemma digits1_take: "t \<noteq> [] \<Longrightarrow> isdigit (hd t) \<Longrightarrow> digits1 (takeWhile isdigit t)"
  by (cases t) (auto simp: digits1_def list_all_iff dest: set_takeWhileD)

lemma digits1_drop: "digits1 ds \<Longrightarrow> dropWhile isdigit (ds @ x) = dropWhile isdigit x"
  by (simp add: digits1_def list_all_iff dropWhile_append)

lemma take1_Cons: "take (Suc 0) s = [c] \<Longrightarrow> s = c # drop (Suc 0) s"
  by (cases s) auto

lemma exp_sound: "\<exists>e. exp_text e \<and> s = e @ exp_end s"
proof (cases "exp_end s = s")
  case False
  define t where "t = drop 1 s"
  define sg where "sg = (if take 1 t = ''+'' \<or> take 1 t = ''-'' then take 1 t else [])"
  define u where "u = (if take 1 t = ''+'' \<or> take 1 t = ''-'' then drop 1 t else t)"
  from False have c: "take 1 s = ''e'' \<or> take 1 s = ''E''" and u: "u \<noteq> []" "isdigit (hd u)"
    and ee: "exp_end s = dropWhile isdigit u"
    by (auto simp: exp_end_def Let_def t_def u_def split: if_splits)
  have "s = take 1 s @ t" "u = takeWhile isdigit u @ dropWhile isdigit u" unfolding t_def by simp_all
  moreover have "t = sg @ u" unfolding sg_def u_def by (cases "take 1 t = ''+'' \<or> take 1 t = ''-''") (auto dest: take1_Cons)
  ultimately have "s = (take 1 s @ sg @ takeWhile isdigit u) @ exp_end s" unfolding ee by simp
  moreover have "exp_text (take 1 s @ sg @ takeWhile isdigit u)"
  proof -
    from c obtain e where e: "take 1 s = [e]" "e \<in> {CHR ''e'', CHR ''E''}" by blast
    have "sg \<in> {[], ''+'', ''-''}" unfolding sg_def by auto
    with e digits1_take [OF u] show ?thesis unfolding exp_text_def by (metis append_Cons append_Nil)
  qed
  ultimately show ?thesis by blast
qed (auto simp: exp_text_def)

lemma frac_sound: "\<exists>f e. frac_text f \<and> exp_text e \<and> s = f @ e @ frac_end s"
proof (cases "take 1 s = ''.'' \<and> drop 1 s \<noteq> [] \<and> isdigit (hd (drop 1 s))")
  case True
  then obtain t where s: "s = CHR ''.'' # t" "t \<noteq> []" "isdigit (hd t)" by (cases s) auto
  obtain e where e: "exp_text e" "dropWhile isdigit t = e @ exp_end (dropWhile isdigit t)" using exp_sound by blast
  have "s = (CHR ''.'' # takeWhile isdigit t) @ dropWhile isdigit t" using s by simp
  also have "\<dots> = (CHR ''.'' # takeWhile isdigit t) @ e @ exp_end (dropWhile isdigit t)"
    using e(2) by metis
  also have "exp_end (dropWhile isdigit t) = frac_end s" using s by (simp add: frac_end_def)
  finally show ?thesis using e(1) digits1_take [OF s(2,3)] unfolding frac_text_def by blast
next
  case False
  then have "frac_end s = exp_end s" unfolding frac_end_def by (simp only: if_False)
  with exp_sound [of s] show ?thesis unfolding frac_text_def by force
qed

lemma num_sound:
  assumes "s \<noteq> []" "isdigit (hd s)"
  shows "\<exists>w. number_text w \<and> number_text (CHR ''-'' # w) \<and> s = w @ num_end s"
proof -
  define i where "i = (if take 1 s = ''0'' then take 1 s else takeWhile isdigit s)"
  define u where "u = (if take 1 s = ''0'' then drop 1 s else dropWhile isdigit s)"
  have s: "s = i @ u" unfolding i_def u_def by (cases "take 1 s = ''0''") (auto dest: take1_Cons)
  have i: "int_text i" using assms digits1_take [OF assms] by (cases s) (auto simp: i_def int_text_def)
  obtain f e where f: "frac_text f" "exp_text e" "u = f @ e @ frac_end u" using frac_sound by blast
  have "num_end s = frac_end u" by (simp add: num_end_def u_def)
  then have "s = (i @ f @ e) @ num_end s" using s f(3) by (metis append.assoc)
  moreover have "number_text (i @ f @ e)" "number_text (CHR ''-'' # i @ f @ e)"
    using i f(1,2) unfolding number_text_def
    by (metis append_Nil insertI1, metis append_Cons append_Nil insertI1 insertI2)
  ultimately show ?thesis by blast
qed

lemma exp_max: "exp_text e \<Longrightarrow> length (exp_end (e @ x)) \<le> length x"
proof (cases "e = []")
  case True
  then show ?thesis using exp_sound [of x] by (metis append_Nil le_add2 length_append)
next
  case False
  assume "exp_text e"
  with False obtain c sg ds where e: "e = c # sg @ ds" "c \<in> {CHR ''e'', CHR ''E''}" "sg \<in> {[], ''+'', ''-''}" "digits1 ds"
    by (auto simp: exp_text_def)
  from e(4) obtain d q where ds: "ds = d # q" "isdigit d" by (cases ds) (auto simp: digits1_def)
  then have d: "d \<noteq> CHR ''+''" "d \<noteq> CHR ''-''" by (auto simp: isdigit_Char)
  have "exp_end (e @ x) = dropWhile isdigit (ds @ x)"
    using e(2,3) ds d unfolding e(1) by (auto simp: exp_end_def Let_def)
  also have "\<dots> = dropWhile isdigit x" by (rule digits1_drop [OF e(4)])
  finally show ?thesis by (simp add: length_dropWhile_le)
qed

lemma exp_text_head: "exp_text e \<Longrightarrow> e \<noteq> [] \<Longrightarrow> \<exists>c q. e = c # q \<and> c \<in> {CHR ''e'', CHR ''E''}"
  by (auto simp: exp_text_def)

lemma exp_end_le: "length (exp_end s) \<le> length s"
  using exp_sound [of s] by (metis le_add2 length_append)

lemma frac_end_le: "length (frac_end s) \<le> length s"
  using frac_sound [of s] by (metis le_add2 length_append trans_le_add2)

lemma frac_max:
  assumes "frac_text f" "exp_text e"
  shows "length (frac_end (f @ e @ x)) \<le> length x"
proof (cases "f = []")
  case True
  show ?thesis
  proof (cases "e = []")
    case False
    with assms(2) obtain c q where "e = c # q" "c \<in> {CHR ''e'', CHR ''E''}" by (blast dest: exp_text_head)
    then have "frac_end (e @ x) = exp_end (e @ x)" by (auto simp: frac_end_def)
    then show ?thesis using True exp_max [OF assms(2)] by simp
  qed (use True frac_end_le in simp)
next
  case False
  with assms(1) obtain ds where f: "f = CHR ''.'' # ds" "digits1 ds" by (auto simp: frac_text_def)
  have "frac_end (f @ e @ x) = exp_end (dropWhile isdigit (ds @ e @ x))"
    using f by (cases ds) (auto simp: frac_end_def digits1_def)
  also have "\<dots> = exp_end (dropWhile isdigit (e @ x))" using f(2) by (simp add: digits1_drop)
  finally have eq: "frac_end (f @ e @ x) = exp_end (dropWhile isdigit (e @ x))" .
  show ?thesis
  proof (cases "e = []")
    case True
    then show ?thesis unfolding eq using exp_end_le [of "dropWhile isdigit x"] length_dropWhile_le [of isdigit x] by simp
  next
    case False
    with assms(2) obtain c q where "e = c # q" "c \<in> {CHR ''e'', CHR ''E''}" by (blast dest: exp_text_head)
    then have "dropWhile isdigit (e @ x) = e @ x" by (auto simp: isdigit_Char)
    then show ?thesis unfolding eq using exp_max [OF assms(2)] by simp
  qed
qed

lemma num_max:
  assumes "int_text i" "frac_text f" "exp_text e"
  shows "length (num_end (i @ f @ e @ x)) \<le> length x"
proof (cases "i = ''0''")
  case True
  then show ?thesis using frac_max [OF assms(2,3)] by (simp add: num_end_def)
next
  case False
  with assms(1) have i: "digits1 i" "take 1 (i @ f @ e @ x) \<noteq> ''0''" by (cases i; auto simp: int_text_def digits1_def)+
  then have eq: "num_end (i @ f @ e @ x) = frac_end (dropWhile isdigit (f @ e @ x))"
    unfolding num_end_def by (simp only: if_False digits1_drop)
  show ?thesis
  proof (cases "f @ e = []")
    case True
    then show ?thesis unfolding eq using frac_end_le [of "dropWhile isdigit x"] length_dropWhile_le [of isdigit x] by simp
  next
    case False
    then obtain c q where c: "f @ e = c # q" "c \<in> {CHR ''.'', CHR ''e'', CHR ''E''}"
      using assms(2) exp_text_head [OF assms(3)] by (cases f) (auto simp: frac_text_def)
    then have "\<not> isdigit c" by (auto simp: isdigit_Char)
    then have "dropWhile isdigit ((f @ e) @ x) = (f @ e) @ x" unfolding c(1) by simp
    then have "dropWhile isdigit (f @ e @ x) = f @ e @ x" by simp
    then show ?thesis unfolding eq using frac_max [OF assms(2,3)] by simp
  qed
qed

text \<open>Strings.\<close>

lemma isdigit_plain:
  assumes "isdigit d"
  shows "punctuation d = None \<and> d \<noteq> CHR 0x22 \<and> d \<noteq> CHR ''-''"
proof -
  have ne: "d \<noteq> c" if "\<not> isdigit c" for c using assms that by auto
  show ?thesis by (simp add: punctuation.simps ne isdigit_Char)
qed

lemma str_end_Cons [simp]:
  "str_end [] = None"
  "str_end (CHR 0x22 # t) = Some t"
  "str_end [CHR 0x5C] = None"
  "c \<noteq> CHR 0x22 \<Longrightarrow> c \<noteq> CHR 0x5C \<Longrightarrow> str_end (c # t) = (if CHR 0x20 \<le> c then str_end t else None)"
  "str_end (CHR 0x5C # e # u) =
     (if is_simple_escape e then str_end u
      else if e = CHR ''u'' \<and> length u \<ge> 4 \<and> list_all is_hex (take 4 u) then str_end (drop 4 u)
      else None)"
  by (subst str_end.simps, simp)+

lemma str_end_sound: "str_end s = Some r \<Longrightarrow> \<exists>b. string_body b \<and> s = b @ CHR 0x22 # r"
proof (induction s rule: str_end.induct)
  case (1 s)
  then obtain c t where s: "s = c # t" by (cases s) auto
  consider "c = CHR 0x22" | "c = CHR 0x5C" | "c \<noteq> CHR 0x22" "c \<noteq> CHR 0x5C" by blast
  then show ?case
  proof cases
    case 1
    then show ?thesis using "1.prems" s by (auto intro: string_body.intros)
  next
    case 2
    with "1.prems" s obtain e u where t: "t = e # u" by (cases t) auto
    show ?thesis
    proof (cases "is_simple_escape e")
      case True
      then have "str_end u = Some r" using "1.prems" 2 s t by simp
      with "1.IH"(1) [OF s _ _ t True] 2 obtain b where "string_body b" "u = b @ CHR 0x22 # r" by auto
      then show ?thesis using 2 s t True by (intro exI [of _ "CHR 0x5C # e # b"]) (auto intro: string_body.intros)
    next
      case False
      with "1.prems" 2 s t have h: "e = CHR ''u'' \<and> length u \<ge> 4 \<and> list_all is_hex (take 4 u)" "str_end (drop 4 u) = Some r"
        by (auto split: if_splits)
      with "1.IH"(2) [OF s _ _ t False h(1)] 2 obtain b where b: "string_body b" "drop 4 u = b @ CHR 0x22 # r" by auto
      have "u = take 4 u @ b @ CHR 0x22 # r" using b(2) by (metis append_take_drop_id)
      moreover have "string_body (CHR 0x5C # CHR ''u'' # take 4 u @ b)" using h(1) b(1) by (auto intro: string_body.intros)
      ultimately show ?thesis using 2 s t h(1) by (intro exI [of _ "CHR 0x5C # CHR ''u'' # take 4 u @ b"]) auto
    qed
  next
    case 3
    then have "CHR 0x20 \<le> c" "str_end t = Some r" using "1.prems" s by (auto split: if_splits)
    with "1.IH"(3) [OF s] 3 obtain b where "string_body b" "t = b @ CHR 0x22 # r" by auto
    then show ?thesis using 3 s \<open>CHR 0x20 \<le> c\<close> by (intro exI [of _ "c # b"]) (auto intro: string_body.intros)
  qed
qed

lemma str_end_complete: "string_body b \<Longrightarrow> str_end (b @ CHR 0x22 # r) = Some r"
proof (induction rule: string_body.induct)
  case (4 h b)
  then show ?case by (simp add: is_simple_escape_def)
qed simp_all

lemma literal_cases:
  "literal_at w ty t = (if \<exists>r. t = w @ r then (ty, drop (length w) t) else (parse_error, t))"
  by (auto simp: literal_at_def) (metis append_take_drop_id)+

theorem token_sound:
  assumes "token_at s = (t, r)" "t \<noteq> parse_error"
  shows "\<exists>w. token_text t w \<and> s = w @ r"
proof -
  obtain c q where s: "s = c # q" using assms by (cases s) (auto simp: token_at_def)
  show ?thesis
  proof (cases "punctuation c")
    case (Some ty)
    then have "t = ty" "r = q" using assms(1) by (simp_all add: s token_at_def)
    with Some s show ?thesis by (auto simp: punctuation.simps split: if_splits)
  next
    case None
    note eq = assms(1) [unfolded s token_at_def list.case None option.case]
    consider "c = CHR 0x22" | "c \<noteq> CHR 0x22" "c = CHR ''-''" | "c \<noteq> CHR 0x22" "c \<noteq> CHR ''-''" "isdigit c"
      | "c \<noteq> CHR 0x22" "c \<noteq> CHR ''-''" "\<not> isdigit c" by blast
    then show ?thesis
    proof cases
      case 1
      with eq assms(2) have "t = value_string" "str_end q = Some r" by (auto split: option.splits)
      with str_end_sound [of q r] show ?thesis using s 1 by auto
    next
      case 2
      with eq assms(2) have t: "t = value_number" "q \<noteq> []" "isdigit (hd q)" "r = num_end q"
        by (auto split: if_splits)
      from num_sound [OF t(2,3)] obtain w where "number_text (CHR ''-'' # w)" "q = w @ num_end q" by blast
      then show ?thesis using t s 2 by (intro exI [of _ "CHR ''-'' # w"]) simp
    next
      case 3
      with eq have t: "t = value_number" "r = num_end s" by (auto simp: s)
      from num_sound [of s] 3(3) obtain w where "number_text w" "s = w @ num_end s" by (auto simp: s)
      then show ?thesis using t by (intro exI [of _ w]) simp
    next
      case 4
      with eq assms(2) s show ?thesis by (auto simp: literal_cases split: if_splits)
    qed
  qed
qed

theorem token_longest:
  assumes "token_text t' w'" "s = w' @ x" "token_at s = (t, r)"
  shows "t \<noteq> parse_error \<and> length r \<le> length x"
proof (cases t')
  case value_string
  with assms(1,2) obtain b where b: "string_body b" "s = CHR 0x22 # b @ CHR 0x22 # x" by auto
  with assms(3) show ?thesis by (auto simp: token_at_def punctuation.simps str_end_complete)
next
  case value_number
  with assms(1) obtain sg i f e where w: "w' = sg @ i @ f @ e" "sg \<in> {[], ''-''}" "int_text i" "frac_text f" "exp_text e"
    by (auto simp: number_text_def)
  from w(3) obtain d j where i: "i = d # j" "isdigit d"
    by (cases i) (auto simp: int_text_def digits1_def isdigit_Char)
  have d: "punctuation d = None" "d \<noteq> CHR 0x22" "d \<noteq> CHR ''-''"
    using isdigit_plain [OF i(2)] by blast+
  have "token_at s = (value_number, num_end (i @ f @ e @ x))"
    using w(2) i d unfolding assms(2) w(1) by (auto simp: token_at_def punctuation.simps)
  with assms(3) num_max [OF w(3-5), of x] show ?thesis by simp
qed (use assms in \<open>auto simp: token_at_def punctuation.simps literal_at_def isdigit_Char\<close>)

lemma token_error:
  assumes "token_at (c # s) = (parse_error, r)"
  shows "r = s"
proof (cases "punctuation c")
  case (Some ty)
  then have "ty \<noteq> parse_error" by (auto simp: punctuation.simps split: if_splits)
  with assms Some show ?thesis by (simp add: token_at_def)
next
  case None
  show ?thesis
    using assms unfolding token_at_def list.case None option.case
    by (simp add: literal_at_def split: if_splits option.splits)
qed

end
