(* ===== verification/JsonTokens.thy ===== *)
theory JsonTokens
  imports JsonScan
begin

unbundle bit_operations_syntax

text \<open>
  The tokens of the scanner of \<open>json.hpp\<close> and their values: every scan takes the longest token,
  the value of a string token is read inside the token, and strings and integers that were
  printed are read back.
\<close>

section \<open>Scanning\<close>

lemma digits1_plain: "digits1 ds \<Longrightarrow> CHR 0x00 \<notin> set ds"
  by (auto simp: digits1_def list_all_iff)

lemma number_parts_plain:
  "int_text i \<Longrightarrow> CHR 0x00 \<notin> set i"
  "frac_text f \<Longrightarrow> CHR 0x00 \<notin> set f"
  "exp_text e \<Longrightarrow> CHR 0x00 \<notin> set e"
  by (auto simp: int_text_def frac_text_def exp_text_def dest: digits1_plain)

lemma number_text_plain: "number_text w \<Longrightarrow> CHR 0x00 \<notin> set w"
  by (auto simp: number_text_def dest: number_parts_plain)

lemma string_body_plain: "string_body b \<Longrightarrow> CHR 0x00 \<notin> set b"
proof (induction rule: string_body.induct)
  case (3 c b)
  then show ?case by (auto simp: is_simple_escape_def)
next
  case (4 h b)
  then show ?case by (auto simp: list_all_iff)
qed (auto simp: less_eq_char_def)

lemma token_text_plain: "token_text t w \<Longrightarrow> t \<noteq> end_of_input \<Longrightarrow> CHR 0x00 \<notin> set w"
  by (cases t) (auto dest: number_text_plain string_body_plain)

lemma token_text_nonempty: "token_text t w \<Longrightarrow> w \<noteq> []"
  by (cases t) (auto simp: number_text_def int_text_def digits1_def)

lemma blanks_plain: "blanks b \<Longrightarrow> CHR 0x00 \<notin> set b"
proof (induction b rule: blanks.induct)
  case (1 s)
  show ?case
  proof (cases s)
    case (Cons c t)
    from "1.prems" [unfolded blanks.simps [of s]] Cons
    consider "is_blank c" "blanks t" | "take 3 s = bom" "blanks (drop 3 s)" by auto
    then show ?thesis
    proof cases
      case 1
      then show ?thesis using "1.IH"(1) [OF Cons] Cons by (auto simp: is_blank_def)
    next
      case 2
      then have "CHR 0x00 \<notin> set (drop 3 s)" using "1.IH"(2) [OF Cons] by blast
      moreover have "CHR 0x00 \<notin> set (take 3 s)" unfolding 2 by (simp add: bom_def)
      ultimately show ?thesis by (metis Un_iff append_take_drop_id set_append)
    qed
  qed simp
qed

lemma skip_blanks_zero: "CHR 0x00 \<in> set s \<Longrightarrow> CHR 0x00 \<in> set (skip_blanks s)"
  using skip_blanks_split [of s] blanks_plain by (metis Un_iff set_append)

lemma scan_takes_longest:
  assumes "CHR 0x00 \<in> set (m_cursor lx)"
  shows "\<exists>t lx' ws w. scan lx = Inr (t, lx') \<and> blanks ws
    \<and> m_cursor lx = ws @ m_start lx' \<and> m_start lx' = w @ m_cursor lx' \<and> get_token_string lx' = w
    \<and> (if t = parse_error then length w = 1 \<and> (\<forall>t' w' x. m_start lx' = w' @ x \<longrightarrow> \<not> token_text t' w')
       else token_text t w \<and> (\<forall>t' w' x. m_start lx' = w' @ x \<longrightarrow> token_text t' w' \<longrightarrow> length w' \<le> length w))
    \<and> (t \<noteq> end_of_input \<longrightarrow> CHR 0x00 \<in> set (m_cursor lx'))"
proof -
  let ?s = "skip_blanks (m_cursor lx)"
  obtain t r where tr: "token_at ?s = (t, r)" by (cases "token_at ?s")
  with scan_is_token_at [OF assms] obtain lx' where lx': "scan lx = Inr (t, lx')" "m_start lx' = ?s"
    "token_at ?s = (t, m_cursor lx')" by auto
  obtain ws where ws: "blanks ws" "m_cursor lx = ws @ ?s" using skip_blanks_split by blast
  have z: "CHR 0x00 \<in> set ?s" using assms by (rule skip_blanks_zero)
  obtain w where w: "?s = w @ m_cursor lx'" "if t = parse_error then length w = 1 else token_text t w"
  proof (cases "t = parse_error")
    case True
    from z obtain c s where c: "?s = c # s" by (cases ?s) auto
    with lx'(3) True have "m_cursor lx' = s" by (auto dest: token_error)
    with True c that [of "[c]"] show ?thesis by simp
  next
    case False
    with token_sound [OF lx'(3)] that show ?thesis by auto
  qed
  have longest: "t \<noteq> parse_error \<and> length w' \<le> length w" if "token_text t' w'" "?s = w' @ x" for t' w' x
  proof -
    from token_longest [OF that lx'(3)] have "t \<noteq> parse_error" "length (m_cursor lx') \<le> length x" by blast+
    moreover have "length w + length (m_cursor lx') = length w' + length x"
      using w(1) that(2) by (metis length_append)
    ultimately show ?thesis by linarith
  qed
  have "CHR 0x00 \<in> set (m_cursor lx')" if "t \<noteq> end_of_input"
  proof (cases "t = parse_error")
    case True
    with w obtain c where c: "w = [c]" by (auto simp: length_Suc_conv)
    have "c \<noteq> CHR 0x00"
    proof
      assume "c = CHR 0x00"
      with longest [of end_of_input w "m_cursor lx'"] w(1) c True show False by simp
    qed
    with z w(1) c show ?thesis by auto
  next
    case False
    with w(2) that have "CHR 0x00 \<notin> set w" by (simp add: token_text_plain)
    with z w(1) show ?thesis by (metis Un_iff set_append)
  qed
  moreover have "get_token_string lx' = w" using lx'(2) w(1) by (simp add: get_token_string_def)
  moreover have "if t = parse_error then length w = 1 \<and> (\<forall>t' w' x. m_start lx' = w' @ x \<longrightarrow> \<not> token_text t' w')
       else token_text t w \<and> (\<forall>t' w' x. m_start lx' = w' @ x \<longrightarrow> token_text t' w' \<longrightarrow> length w' \<le> length w)"
    using w(2) longest lx'(2) by auto
  moreover have "m_cursor lx = ws @ m_start lx'" "m_start lx' = w @ m_cursor lx'" using ws(2) w(1) lx'(2) by simp_all
  ultimately show ?thesis using lx'(1) ws(1) by blast
qed



section \<open>Strings\<close>

lemma is_hex_val:
  assumes "is_hex c"
  shows "\<exists>v<16. hex_val c = Some v" "c \<notin> {CHR ''-'', CHR ''+'', CHR ''x'', CHR ''X'', CHR 0x00}" "\<not> isspace c"
proof -
  have code: "48 \<le> (of_char c :: nat) \<and> of_char c \<le> (57 :: nat) \<or> 65 \<le> (of_char c :: nat) \<and> of_char c \<le> (70 :: nat)
      \<or> 97 \<le> (of_char c :: nat) \<and> of_char c \<le> (102 :: nat)"
    using assms by (simp add: is_hex_def isdigit_def less_eq_char_def)
  then show "\<exists>v<16. hex_val c = Some v" by (auto simp: hex_val_def Let_def)
  have ne: "c \<noteq> d" if "\<not> is_hex d" for d using assms that by auto
  show "c \<notin> {CHR ''-'', CHR ''+'', CHR ''x'', CHR ''X'', CHR 0x00}" "\<not> isspace c"
    by (simp_all add: ne isspace_def is_hex_def isdigit_Char less_eq_char_def)
qed

lemma four_hex_value:
  assumes "length h = 4" "list_all is_hex h"
  shows "four_hex (h @ x) = Inr (strtoul16 h) \<and> strtoul16 h < 0x10000"
proof -
  from assms obtain a b c d where h: "h = [a, b, c, d]" by (auto simp: length_Suc_conv eval_nat_numeral)
  with assms(2) have hex: "is_hex a" "is_hex b" "is_hex c" "is_hex d" by simp_all
  obtain va vb vc vd where v: "hex_val a = Some va" "hex_val b = Some vb" "hex_val c = Some vc" "hex_val d = Some vd"
    "va < 16" "vb < 16" "vc < 16" "vd < 16"
    using is_hex_val(1) [OF hex(1)] is_hex_val(1) [OF hex(2)] is_hex_val(1) [OF hex(3)] is_hex_val(1) [OF hex(4)] by blast
  note ne = is_hex_val(2) [OF hex(1)] is_hex_val(2) [OF hex(2)] is_hex_val(2) [OF hex(3)] is_hex_val(2) [OF hex(4)]
  have "strtol16 h = int (16 * (16 * (16 * va + vb) + vc) + vd)"
    using ne v is_hex_val(3) [OF hex(1)] by (simp add: h strtol16_def)
  moreover have "16 * (16 * (16 * va + vb) + vc) + vd < 0x10000" using v by simp
  ultimately have val: "strtoul16 h < 0x10000" by (simp add: strtoul16_def nat_mod_distrib)
  have plain: "takeWhile (\<lambda>c. c \<noteq> CHR 0x00) h = h" using ne by (simp add: h)
  have "take 4 (h @ x) = h" using assms(1) by simp
  then show ?thesis using val assms(1) unfolding four_hex_def by (simp only: plain) simp
qed

definition string_result :: "string res \<Rightarrow> bool" where
  "string_result m \<longleftrightarrow> (case m of Inr s \<Rightarrow> True | Inl e \<Rightarrow> \<exists>s. e = Invalid_argument s)"

lemma string_result_simps [simp]:
  "string_result (Inr s)" "string_result (Inl (Invalid_argument m))"
  by (simp_all add: string_result_def)

lemma string_result_bind: "string_result m \<Longrightarrow> (\<And>s. string_result (f s)) \<Longrightarrow> string_result (rbind m f)"
  by (cases m) (auto simp: string_result_def)

lemma to_unicode_result:
  assumes "c1 < 0x10000" "c2 < 0x10000"
  shows "string_result (to_unicode c1 c2)"
proof -
  have "size_sub (push_bit 10 c1 + c2) 0x35FDC00 \<le> 0x10FFFF"
    if "0xD800 \<le> c1" "c1 \<le> 0xDBFF" "0xDC00 \<le> c2" "c2 \<le> 0xDFFF"
  proof -
    have "size_sub (c1 * 1024 + c2) 0x35FDC00 = c1 * 1024 + c2 - 0x35FDC00"
      using that by (intro size_sub_le) simp_all
    with that show ?thesis by (simp add: push_bit_eq_mult)
  qed
  with assms show ?thesis unfolding to_unicode_def by (auto simp: Let_def)
qed

lemma get_string_loop_end [simp]: "length i \<le> length cur + 1 \<Longrightarrow> get_string_loop after cur i result = Inr result"
  by (subst get_string_loop.simps) simp

lemma get_string_loop_plain [simp]:
  "length t > length cur \<Longrightarrow> c \<noteq> CHR 0x5C \<Longrightarrow>
    get_string_loop after cur (c # t) result = get_string_loop after cur t (result @ [c])"
  by (subst get_string_loop.simps) simp

definition unescape_char :: "char \<Rightarrow> char" where
  "unescape_char c =
     (if c = CHR ''t'' then CHR 0x09 else if c = CHR ''b'' then CHR 0x08 else if c = CHR ''f'' then CHR 0x0C
      else if c = CHR ''n'' then CHR 0x0A else if c = CHR ''r'' then CHR 0x0D else c)"

lemma get_string_loop_escape [simp]:
  "length t > length cur \<Longrightarrow> is_simple_escape c \<Longrightarrow>
    get_string_loop after cur (CHR 0x5C # c # t) result = get_string_loop after cur t (result @ [unescape_char c])"
  unfolding is_simple_escape_def
  by (elim insertE emptyE; subst get_string_loop.simps; simp add: unescape_char_def Let_def)

lemma get_string_loop_u:
  assumes "length t > length cur"
  shows "get_string_loop after cur (CHR 0x5C # CHR ''u'' # t) result =
    rbind (four_hex t) (\<lambda>codepoint.
      if codepoint \<ge> 0xD800 \<and> codepoint \<le> 0xDBFF then
        if length t \<le> 5 + after \<or> t ! 4 \<noteq> CHR 0x5C \<or> t ! 5 \<noteq> CHR ''u'' then Inl (Invalid_argument ''missing low surrogate'')
        else rbind (four_hex (drop 6 t)) (\<lambda>codepoint2.
             rbind (to_unicode codepoint codepoint2) (\<lambda>u. get_string_loop after cur (drop 10 t) (result @ u)))
      else rbind (to_unicode codepoint 0) (\<lambda>u. get_string_loop after cur (drop 4 t) (result @ u)))"
  using assms by (subst get_string_loop.simps) (simp add: Let_def cong: if_cong)

text \<open>The value of a string token is computed within the token; a lone high surrogate is an error.\<close>

lemma get_string_loop_result:
  "string_body b \<Longrightarrow> string_result (get_string_loop after cur (b @ CHR 0x22 # cur) result)"
proof (induction "length b" arbitrary: b result rule: less_induct)
  case less
  note IH = less.hyps
  from less.prems show ?case
  proof (cases rule: string_body.cases)
    case (2 c t)
    with IH [of t] show ?thesis by simp
  next
    case (3 c t)
    with IH [of t] show ?thesis by simp
  next
    case (4 h t)
    let ?r = "t @ CHR 0x22 # cur"
    from four_hex_value [OF 4(2,3)] have h: "four_hex (h @ ?r) = Inr (strtoul16 h)" "strtoul16 h < 0x10000" by blast+
    have rest: "string_result (get_string_loop after cur ?r res)" for res using IH [of t] 4 by simp
    have sur: "string_result (rbind (four_hex (drop 6 (h @ ?r))) (\<lambda>codepoint2.
             rbind (to_unicode (strtoul16 h) codepoint2) (\<lambda>u. get_string_loop after cur (drop 10 (h @ ?r)) (result @ u))))"
      if at: "(h @ ?r) ! 4 = CHR 0x5C" "(h @ ?r) ! 5 = CHR ''u''"
    proof -
      from 4(4) show ?thesis
      proof (cases rule: string_body.cases)
        case 1
        with at(1) 4(2) show ?thesis by (simp add: nth_append)
      next
        case (2 c t')
        with at(1) 4(2) show ?thesis by (simp add: nth_append)
      next
        case (3 c t')
        with at(2) 4(2) show ?thesis by (simp add: nth_append is_simple_escape_def)
      next
        case low: (4 h2 t2)
        have "four_hex (drop 6 (h @ ?r)) = Inr (strtoul16 h2)" "strtoul16 h2 < 0x10000"
          using four_hex_value [OF low(2,3), of "t2 @ CHR 0x22 # cur"] 4(2) low(1) by simp_all
        moreover have "drop 10 (h @ ?r) = t2 @ CHR 0x22 # cur" using 4(2) low(1,2) by simp
        moreover have "string_result (get_string_loop after cur (t2 @ CHR 0x22 # cur) res)" for res
          using IH [of t2] low 4 by simp
        ultimately show ?thesis using h(2) by (auto intro!: string_result_bind to_unicode_result)
      qed
    qed
    have eq: "b @ CHR 0x22 # cur = CHR 0x5C # CHR ''u'' # h @ ?r" using 4 by simp
    have "length (h @ ?r) > length cur" by simp
    from get_string_loop_u [OF this] h rest sur 4(2) show ?thesis unfolding eq
      by (auto intro!: string_result_bind to_unicode_result)
  qed simp
qed

text \<open>It does not depend on what is behind the token.\<close>

lemma get_string_loop_token:
  assumes "after \<le> 5" "after' \<le> 5"
  shows "string_body b \<Longrightarrow>
    get_string_loop after cur (b @ CHR 0x22 # cur) result = get_string_loop after' cur' (b @ CHR 0x22 # cur') result"
proof (induction "length b" arbitrary: b result rule: less_induct)
  case less
  note IH = less.hyps
  from less.prems show ?case
  proof (cases rule: string_body.cases)
    case (2 c t)
    with IH [of t] show ?thesis by simp
  next
    case (3 c t)
    with IH [of t] show ?thesis by simp
  next
    case (4 h t)
    let ?r = "t @ CHR 0x22 # cur" and ?r' = "t @ CHR 0x22 # cur'"
    let ?at = "\<lambda>r. (h @ r) ! 4 = CHR 0x5C \<and> (h @ r) ! 5 = CHR ''u''"
    let ?low = "\<lambda>n x r. rbind (four_hex (drop 6 (h @ r))) (\<lambda>codepoint2.
             rbind (to_unicode (strtoul16 h) codepoint2) (\<lambda>u. get_string_loop n x (drop 10 (h @ r)) (result @ u)))"
    have hex: "four_hex (h @ x) = Inr (strtoul16 h)" for x using four_hex_value [OF 4(2,3)] by blast
    have rest: "get_string_loop after cur ?r res = get_string_loop after' cur' ?r' res" for res using IH [of t] 4 by simp
    have sur: "?at ?r = ?at ?r' \<and> (?at ?r \<longrightarrow> 10 \<le> length t - 1 + 5 \<and> ?low after cur ?r = ?low after' cur' ?r')"
      using 4(4)
    proof (cases rule: string_body.cases)
      case low: (4 h2 t2)
      have "four_hex (drop 6 (h @ ?r)) = Inr (strtoul16 h2)" "four_hex (drop 6 (h @ ?r')) = Inr (strtoul16 h2)"
        using four_hex_value [OF low(2,3)] 4(2) low(1) by simp_all
      moreover have "drop 10 (h @ ?r) = t2 @ CHR 0x22 # cur" "drop 10 (h @ ?r') = t2 @ CHR 0x22 # cur'"
        using 4(2) low(1,2) by simp_all
      moreover have "get_string_loop after cur (t2 @ CHR 0x22 # cur) res = get_string_loop after' cur' (t2 @ CHR 0x22 # cur') res"
        for res using IH [of t2] low 4 by simp
      ultimately show ?thesis using 4(2) low(1,2) by (simp add: nth_append)
    qed (use 4(2) in \<open>auto simp: nth_append is_simple_escape_def\<close>)
    have eq: "b @ CHR 0x22 # x = CHR 0x5C # CHR ''u'' # h @ t @ CHR 0x22 # x" for x using 4 by simp
    have long: "length (h @ ?r) > length cur" "length (h @ ?r') > length cur'" by simp_all
    have drop: "drop 4 (h @ x) = x" for x using 4(2) by simp
    show ?thesis
    proof (cases "?at ?r")
      case True
      with sur assms 4(2) have "\<not> length (h @ ?r) \<le> 5 + after" "\<not> length (h @ ?r') \<le> 5 + after'" "?at ?r'"
        by auto
      with True sur rest show ?thesis
        unfolding eq get_string_loop_u [OF long(1)] get_string_loop_u [OF long(2)] hex rbind_Inr drop by auto
    next
      case False
      with sur have "\<not> ?at ?r'" by blast
      with False rest show ?thesis
        unfolding eq get_string_loop_u [OF long(1)] get_string_loop_u [OF long(2)] hex rbind_Inr drop by auto
    qed
  qed simp
qed

lemma string_token_value:
  assumes "scan lx = Inr (value_string, lx')" "CHR 0x00 \<in> set (m_cursor lx)"
  shows "string_result (get_string_token lx')"
proof -
  from scan_takes_longest [OF assms(2)] assms(1) obtain w where
    w: "m_start lx' = w @ m_cursor lx'" "token_text value_string w" by auto
  from w(2) obtain b where b: "string_body b" "w = CHR 0x22 # b @ [CHR 0x22]" by auto
  have "m_start lx' = CHR 0x22 # b @ CHR 0x22 # m_cursor lx'" using w(1) b(2) by simp
  with get_string_loop_result [OF b(1), of 1 "m_cursor lx'" "[]"] show ?thesis
    by (simp add: get_string_token_def)
qed



lemma string_body_append: "string_body a \<Longrightarrow> string_body b \<Longrightarrow> string_body (a @ b)"
  by (induction rule: string_body.induct) (auto intro: string_body.intros)

lemma hex_val_is_hex: "hex_val c \<noteq> None \<Longrightarrow> is_hex c"
  by (auto simp: hex_val_def is_hex_def isdigit_def less_eq_char_def Let_def split: if_splits)

lemma hexify_is_hex: "n < 16 \<Longrightarrow> is_hex (hexify ! n)"
  using hexify_val [of n] by (intro hex_val_is_hex) simp

lemma strtol_low:
  assumes "a < 16" "b < 16"
  shows "strtol16 [CHR ''0'', CHR ''0'', hexify ! a, hexify ! b] = int (16 * a + b)"
proof -
  have "hex_val (CHR ''0'') = Some 0" "\<not> isspace (CHR ''0'')" by (simp_all add: hex_val_def isspace_def)
  then show ?thesis using hexify_val [OF assms(1)] hexify_val [OF assms(2)] by (simp add: strtol16_def)
qed

lemma control_value:
  assumes "n \<le> 0x1F"
  shows "strtoul16 [CHR ''0'', CHR ''0'', hexify ! (n div 16), hexify ! (n mod 16)] = n"
proof -
  have "n div 16 < 16" "n mod 16 < 16" using assms by (simp_all add: less_mult_imp_div_less)
  from strtol_low [OF this] have "strtol16 [CHR ''0'', CHR ''0'', hexify ! (n div 16), hexify ! (n mod 16)] = int n"
    by simp
  with assms show ?thesis by (simp add: strtoul16_def)
qed

lemma esc_cases:
  obtains (plain) "esc c = [c]" "CHR 0x20 \<le> c" "c \<noteq> CHR 0x22" "c \<noteq> CHR 0x5C"
  | (escape) e where "esc c = [CHR 0x5C, e]" "is_simple_escape e" "unescape_char e = c"
  | (control) "of_char c \<le> (0x1F :: nat)"
      "esc c = CHR 0x5C # CHR ''u'' # [CHR ''0'', CHR ''0'', hexify ! (of_char c div 16), hexify ! (of_char c mod 16)]"
proof -
  consider "c \<in> {CHR 0x22, CHR 0x5C, CHR 0x08, CHR 0x0C, CHR 0x0A, CHR 0x0D, CHR 0x09}"
    | "c \<notin> {CHR 0x22, CHR 0x5C, CHR 0x08, CHR 0x0C, CHR 0x0A, CHR 0x0D, CHR 0x09}" "of_char c \<le> (0x1F :: nat)"
    | "c \<notin> {CHR 0x22, CHR 0x5C, CHR 0x08, CHR 0x0C, CHR 0x0A, CHR 0x0D, CHR 0x09}" "\<not> of_char c \<le> (0x1F :: nat)"
    by blast
  then show ?thesis
  proof cases
    case 1
    then have "\<exists>e. esc c = [CHR 0x5C, e] \<and> is_simple_escape e \<and> unescape_char e = c"
      by (elim insertE emptyE) (simp_all add: esc_def unescape_char_def is_simple_escape_def)
    with escape show ?thesis by blast
  next
    case 2
    then show ?thesis by (intro control) (simp_all add: esc_def)
  next
    case 3
    then show ?thesis by (intro plain) (simp_all add: esc_def less_eq_char_def)
  qed
qed

lemma control_hex: "list_all is_hex [CHR ''0'', CHR ''0'', hexify ! (of_char c div 16), hexify ! (of_char c mod 16)]"
proof -
  have "of_char c div 16 < (16 :: nat)" using of_char_less [of c] by (simp add: less_mult_imp_div_less)
  then show ?thesis by (simp add: hexify_is_hex) (simp add: is_hex_def isdigit_Char)
qed

lemma string_body_esc: "string_body (concat (map esc s))"
proof (induction s)
  case (Cons c s)
  have "string_body (esc c)"
    by (cases c rule: esc_cases)
      (use control_hex [of c] string_body.intros(4) [OF _ control_hex string_body.intros(1)] in \<open>auto intro: string_body.intros\<close>)
  with Cons show ?case by (simp add: string_body_append)
qed (simp add: string_body.intros)

lemma get_string_loop_esc:
  "get_string_loop after cur (concat (map esc s) @ CHR 0x22 # cur) result = Inr (result @ s)"
proof (induction s arbitrary: result)
  case (Cons c s)
  let ?t = "concat (map esc s) @ CHR 0x22 # cur"
  have len: "length ?t > length cur" by simp
  show ?case
  proof (cases c rule: esc_cases)
    case plain
    with Cons len show ?thesis by simp
  next
    case (escape e)
    with Cons len show ?thesis by simp
  next
    case control
    let ?h = "[CHR ''0'', CHR ''0'', hexify ! (of_char c div 16), hexify ! (of_char c mod 16)]"
    have four: "four_hex (?h @ ?t) = Inr (of_char c)"
      using four_hex_value [OF _ control_hex [of c], of ?t] control_value [OF control(1)] by simp
    have "to_unicode (of_char c) 0 = Inr [c]" using control(1) by (simp add: to_unicode_def)
    moreover have "drop 4 (?h @ ?t) = ?t" by simp
    moreover have "length (?h @ ?t) > length cur" by simp
    moreover have "\<not> (of_char c \<ge> (0xD800 :: nat) \<and> of_char c \<le> (0xDBFF :: nat))" using control(1) by linarith
    ultimately have "get_string_loop after cur (CHR 0x5C # CHR ''u'' # ?h @ ?t) result = get_string_loop after cur ?t (result @ [c])"
      by (simp only: get_string_loop_u four rbind_Inr if_False)
    with Cons control(2) show ?thesis by simp
  qed
qed simp

section \<open>Numbers\<close>

lemma digits_val_Cons: "digits_val (c # s) = digit_val c * 10 ^ length s + digits_val s"
proof -
  have acc: "foldl (\<lambda>v c. 10 * v + digit_val c) a s = a * 10 ^ length s + foldl (\<lambda>v c. 10 * v + digit_val c) 0 s" for a
  proof (induction s arbitrary: a)
    case (Cons c s)
    show ?case using Cons [of "10 * a + digit_val c"] Cons [of "digit_val c"] by (simp add: algebra_simps)
  qed simp
  show ?thesis using acc [of "digit_val c"] by (simp add: digits_val_def)
qed

lemma digits_val_Nil [simp]: "digits_val [] = 0"
  by (simp add: digits_val_def)

lemma digits_val_append: "digits_val (s @ t) = digits_val s * 10 ^ length t + digits_val t"
  by (induction s) (simp_all add: digits_val_Cons algebra_simps power_add)

lemma digit_step:
  assumes "isdigit c" "10 * unat v + digit_val c \<le> unat limit"
  shows "unat (v * 10 + of_char c - 48 :: u64) = 10 * unat v + digit_val c"
    and "\<not> v * 10 + of_char c - 48 < v" and "\<not> v * 10 + of_char c - 48 > limit"
proof -
  have c: "of_char c = digit_val c + 48" using assms(1) by (simp add: isdigit_def digit_val_def)
  have lim: "unat limit < 2 ^ 64" using unsigned_less [of limit, where 'a=nat] by simp
  have "v * 10 + of_char c - 48 = (of_nat (10 * unat v + digit_val c) :: u64)"
  proof -
    have "(of_char c :: u64) = of_nat (of_char c)" by (simp add: of_nat_of_char)
    then show ?thesis by (simp add: c)
  qed
  then show val: "unat (v * 10 + of_char c - 48) = 10 * unat v + digit_val c"
    using assms(2) lim by (simp only: unat_of_nat) simp
  then show "\<not> v * 10 + of_char c - 48 < v" "\<not> v * 10 + of_char c - 48 > limit"
    unfolding word_less_nat_alt using assms(2) by linarith+
qed

lemma number_loop_digits:
  assumes "list_all isdigit ds" "unat v * 10 ^ length ds + digits_val ds \<le> unat limit" "ty \<noteq> T_number_float"
  shows "number_loop limit ds ty v = (ty, of_nat (unat v * 10 ^ length ds + digits_val ds))"
  using assms
proof (induction ds arbitrary: v)
  case (Cons c ds)
  let ?t = "v * 10 + of_char c - 48"
  have c: "isdigit c" "list_all isdigit ds" using Cons.prems by simp_all
  have sum: "unat v * 10 ^ length (c # ds) + digits_val (c # ds) = (10 * unat v + digit_val c) * 10 ^ length ds + digits_val ds"
    by (simp add: digits_val_Cons algebra_simps)
  have "10 * unat v + digit_val c \<le> (10 * unat v + digit_val c) * 10 ^ length ds" by simp
  then have le: "10 * unat v + digit_val c \<le> unat limit"
    using Cons.prems(2) unfolding sum by (meson add_leE le_trans)
  note step = digit_step [OF c(1) le]
  have "\<not> (c < CHR ''0'' \<or> c > CHR ''9'')" using c(1) by (simp add: isdigit_def less_char_def)
  then have "number_loop limit (c # ds) ty v = number_loop limit ds ty ?t"
    using step(2,3) Cons.prems(3) by (simp add: Let_def)
  with Cons.IH [OF c(2) _ Cons.prems(3), of ?t] Cons.prems(2) show ?case unfolding sum step(1) by simp
qed simp

lemma number_loop_float: "fst (number_loop limit s T_number_float v) = T_number_float"
  by (induction s) auto

lemma number_loop_fraction:
  assumes "\<not> list_all isdigit s"
  shows "fst (number_loop limit s ty v) = T_number_float"
  using assms
proof (induction s arbitrary: ty v)
  case (Cons c s)
  show ?case
  proof (cases "isdigit c")
    case True
    then have "\<not> (c < CHR ''0'' \<or> c > CHR ''9'')" by (simp add: isdigit_def less_char_def)
    with Cons True show ?thesis by (simp add: number_loop_float Let_def)
  next
    case False
    then have "c < CHR ''0'' \<or> c > CHR ''9''" by (auto simp: isdigit_def less_char_def)
    then show ?thesis by (simp add: number_loop_float)
  qed
qed simp

lemma number_token_value:
  assumes "m_start lx = w @ m_cursor lx" "number_text w"
  shows "(list_all isdigit w \<and> digits_val w < 2 ^ 64 \<longrightarrow>
           get_number_token lx = Inr (Number_unsigned (of_nat (digits_val w))))
    \<and> (\<forall>ds. w = CHR ''-'' # ds \<and> list_all isdigit ds \<and> digits_val ds < 2 ^ 63 \<longrightarrow>
           get_number_token lx = Inr (Number_integer (- of_nat (digits_val ds))))
    \<and> ((\<exists>c \<in> set w. c \<noteq> CHR ''-'' \<and> \<not> isdigit c) \<longrightarrow>
           get_number_token lx = Inr (Number_float (strtod (m_start lx))))"
proof (intro conjI impI allI)
  have tok: "get_token_string lx = w" using assms(1) by (simp add: get_token_string_def)
  from assms(2) have ne: "w \<noteq> []" by (auto simp: number_text_def int_text_def digits1_def)
  then have hd: "hd (m_start lx) = hd w" using assms(1) by simp
  show "get_number_token lx = Inr (Number_unsigned (of_nat (digits_val w)))"
    if w: "list_all isdigit w \<and> digits_val w < 2 ^ 64"
  proof -
    from w ne have "hd w \<noteq> CHR ''-''" by (cases w) (auto simp: isdigit_Char)
    moreover have "unat (- 1 :: u64) = 2 ^ 64 - 1" by (simp add: unsigned_minus_1_eq_mask mask_eq_exp_minus_1)
    then have "number_loop (- 1) w T_number_unsigned 0 = (T_number_unsigned, of_nat (digits_val w))"
      using number_loop_digits [of w 0 "- 1" T_number_unsigned] w by simp
    ultimately show ?thesis by (simp add: get_number_token_def tok hd)
  qed
  show "get_number_token lx = Inr (Number_integer (- of_nat (digits_val ds)))"
    if w: "w = CHR ''-'' # ds \<and> list_all isdigit ds \<and> digits_val ds < 2 ^ 63" for ds
  proof -
    have loop: "number_loop (2 ^ 63) ds T_number_integer 0 = (T_number_integer, of_nat (digits_val ds))"
      using number_loop_digits [of ds 0 "2 ^ 63" T_number_integer] w by simp
    have "unat (of_nat (digits_val ds) :: u64) \<noteq> unat (2 ^ 63 :: u64)"
      using w by (simp add: unat_of_nat)
    then have "(of_nat (digits_val ds) :: u64) \<noteq> 2 ^ 63" by metis
    with loop w show ?thesis by (simp add: get_number_token_def tok hd)
  qed
  show "get_number_token lx = Inr (Number_float (strtod (m_start lx)))"
    if c: "\<exists>c \<in> set w. c \<noteq> CHR ''-'' \<and> \<not> isdigit c"
  proof (cases "hd w = CHR ''-''")
    case True
    from c ne True have "\<not> list_all isdigit (tl w)" by (cases w) (auto simp: list_all_iff)
    then have "fst (number_loop (2 ^ 63) (tl w) T_number_integer 0) = T_number_float" by (rule number_loop_fraction)
    with True show ?thesis by (auto simp: get_number_token_def tok hd split: prod.splits)
  next
    case False
    from c have "\<not> list_all isdigit w" by (auto simp: list_all_iff)
    then have "fst (number_loop (- 1) w T_number_unsigned 0) = T_number_float" by (rule number_loop_fraction)
    with False show ?thesis by (auto simp: get_number_token_def tok hd split: prod.splits)
  qed
qed


definition number_lexer :: "string \<Rightarrow> lexer" where
  "number_lexer w = \<lparr>m_start = w @ [CHR 0x00], m_marker = None, m_cursor = [CHR 0x00], last_token_type = value_number\<rparr>"


text \<open>
  The test for overflow compares the new value with the old one, but a product with ten can wrap
  around to something larger: the token 50000000000000000000 becomes the integer
  13106511852580896768, and the most negative integer is negated with signed overflow.
\<close>

theorem number_overflow:
  "get_number_token (number_lexer ''50000000000000000000'') = Inr (Number_unsigned 13106511852580896768)
    \<and> get_number_token (number_lexer ''-9223372036854775808'') = Inl (Undefined Signed_overflow)"
  by code_simp

end
