(* ===== verification/JsonStream.thy ===== *)
theory JsonStream
  imports JsonTokens
begin

text \<open>
  The scanner of \<open>json.hpp\<close> on an input stream. The buffer holds the text from the current token on;
  at eleven labels of the automaton \<open>yyfill\<close> adds a line when less characters are left than the
  automaton may read up to the next such label. The scanner of the stream is shown to give the tokens
  of the text in memory that the stream contains.
\<close>

section \<open>Lines of a stream\<close>

text \<open>What is left of an input stream, and its state; \<open>badbit\<close> is never set.\<close>

record istream =
  st_rest :: string
  st_eof :: bool
  st_fail :: bool

definition istream_of :: "string \<Rightarrow> istream" where
  "istream_of s = \<lparr>st_rest = s, st_eof = False, st_fail = False\<rparr>"

abbreviation newline :: char where
  "newline \<equiv> CHR 0x0A"

text \<open>\<open>std::getline\<close> with an empty string: the line without its end.\<close>

definition getline :: "istream \<Rightarrow> string \<times> istream" where
  "getline i =
     (if st_eof i \<or> st_fail i then ([], i\<lparr>st_fail := True\<rparr>)
      else let line = takeWhile (\<lambda>c. c \<noteq> newline) (st_rest i);
               rest = dropWhile (\<lambda>c. c \<noteq> newline) (st_rest i)
           in if rest \<noteq> [] then (line, i\<lparr>st_rest := tl rest\<rparr>)
              else (line, i\<lparr>st_rest := [], st_eof := True, st_fail := (line = [])\<rparr>))"

section \<open>The scanner of a stream\<close>

text \<open>
  \<open>sc\<close> has the pointers into the buffer, as the rest of it up to the zero byte; \<open>after_limit\<close> is the
  number of characters from \<open>m_limit\<close> on, the zero byte included.
\<close>

record stream_lexer =
  sc :: scanner
  after_limit :: nat
  m_stream :: istream

definition stream_lexer_of :: "istream \<Rightarrow> stream_lexer" where
  "stream_lexer_of i =
     (let (line, i) = getline i
      in \<lparr>sc = lexer.extend (lexer_of line) \<lparr>yyaccept = 0, yych = CHR 0x00\<rparr>, after_limit = 1, m_stream = i\<rparr>)"

text \<open>
  A pointer after the line was added to the buffer; one behind the zero byte is then in the new line. The
  code also moves a null marker, which is undefined; it is not used before it is set.
\<close>

definition append_line :: "string \<Rightarrow> string \<Rightarrow> string" where
  "append_line line p = (if p = [] then line @ [CHR 0x00] else butlast p @ newline # line @ [CHR 0x00])"

definition map_pointers :: "(string \<Rightarrow> string) \<Rightarrow> scanner \<Rightarrow> scanner" where
  "map_pointers f s = s\<lparr>m_start := f (m_start s), m_marker := map_option f (m_marker s), m_cursor := f (m_cursor s)\<rparr>"

definition yyfill :: "stream_lexer \<Rightarrow> stream_lexer" where
  "yyfill lx =
     (if st_fail (m_stream lx) then lx
      else let (line, i) = getline (m_stream lx)
           in lx\<lparr>sc := map_pointers (append_line line) (sc lx), after_limit := 2, m_stream := i\<rparr>)"

text \<open>
  The labels that call \<open>yyfill\<close>, with the number of characters that they want from the cursor on; all
  but the first do so after they advanced the cursor. (Labels 6, 31, 36, 43, 47, 54, 60 and 63 want one
  character.) \<open>ahead\<close> is \<open>m_limit - m_cursor\<close> at the call.
\<close>

definition need :: "nat \<Rightarrow> nat option" where
  "need l =
     (if l = 1 then Some 5
      else if l \<in> {15, 44} then Some 3
      else if l \<in> {2, 4, 5, 9, 10, 12, 13, 14, 17, 19, 21, 23, 24, 25, 26, 28, 30, 32, 33, 34, 37, 38, 39, 40, 41,
        42, 46, 49, 50, 51, 52, 55, 56, 58, 61} then None
      else Some 1)"

definition ahead :: "nat \<Rightarrow> stream_lexer \<Rightarrow> int" where
  "ahead l lx = int (length (m_cursor (sc lx))) - (if l = 1 then 0 else 1) - int (after_limit lx)"

definition fill_at :: "nat \<Rightarrow> stream_lexer \<Rightarrow> stream_lexer" where
  "fill_at l lx = (case need l of None \<Rightarrow> lx | Some n \<Rightarrow> if ahead l lx < int n then yyfill lx else lx)"

text \<open>
  The code behind a label. Adding a line changes the buffer behind the characters that the label
  passes, so that it makes no difference that it is added first.
\<close>

definition stream_dfa :: "nat \<Rightarrow> stream_lexer \<Rightarrow> (jump \<times> stream_lexer) res" where
  "stream_dfa l lx = (let lx = fill_at l lx in rmap (\<lambda>(j, s). (j, lx\<lparr>sc := s\<rparr>)) (dfa l (sc lx)))"

section \<open>The text of a stream\<close>

text \<open>What \<open>yyfill\<close> will still add.\<close>

definition pending :: "istream \<Rightarrow> string" where
  "pending i =
     (if st_fail i then []
      else if st_eof i then [newline]
      else newline # (if st_rest i = [] \<or> last (st_rest i) = newline then st_rest i else st_rest i @ [newline]))"

definition lines_text :: "string \<Rightarrow> string" where
  "lines_text s = (if s = [] \<or> last s = newline then s else s @ [newline])"

definition stream_ok :: "istream \<Rightarrow> bool" where
  "stream_ok i \<longleftrightarrow> (st_eof i \<longrightarrow> st_rest i = [])"

lemma getline_ok: "stream_ok i \<Longrightarrow> stream_ok (snd (getline i))"
  by (auto simp: stream_ok_def getline_def Let_def)

lemma getline_end:
  "\<not> st_eof i \<Longrightarrow> \<not> st_fail i \<Longrightarrow> newline \<notin> set (st_rest i) \<Longrightarrow>
   getline i = (st_rest i, i\<lparr>st_rest := [], st_eof := True, st_fail := (st_rest i = [])\<rparr>)"
proof -
  assume *: "\<not> st_eof i" "\<not> st_fail i" "newline \<notin> set (st_rest i)"
  then have parts: "takeWhile (\<lambda>c. c \<noteq> newline) (st_rest i) = st_rest i" "dropWhile (\<lambda>c. c \<noteq> newline) (st_rest i) = []"
    unfolding takeWhile_eq_all_conv dropWhile_eq_Nil_conv by blast+
  show ?thesis unfolding getline_def parts Let_def using * by simp
qed

lemma getline_line:
  "\<not> st_eof i \<Longrightarrow> \<not> st_fail i \<Longrightarrow> st_rest i = l @ newline # t \<Longrightarrow> newline \<notin> set l \<Longrightarrow>
   getline i = (l, i\<lparr>st_rest := t\<rparr>)"
proof -
  assume *: "\<not> st_eof i" "\<not> st_fail i" "st_rest i = l @ newline # t" "newline \<notin> set l"
  then have parts: "takeWhile (\<lambda>c. c \<noteq> newline) (st_rest i) = l" "dropWhile (\<lambda>c. c \<noteq> newline) (st_rest i) = newline # t"
    unfolding * by (subst takeWhile_append2 dropWhile_append2; auto)+
  show ?thesis unfolding getline_def parts Let_def using * by simp
qed

lemma getline_text:
  assumes "\<not> st_fail i"
  shows "pending i = newline # fst (getline i) @ pending (snd (getline i))"
proof (cases "st_eof i")
  case eof: False
  show ?thesis
  proof (cases "newline \<in> set (st_rest i)")
    case True
    then obtain l t where "st_rest i = l @ newline # t" "newline \<notin> set l" by (meson split_list_first)
    with getline_line [OF eof assms this] eof assms show ?thesis by (simp add: pending_def)
  next
    case False
    then have "st_rest i \<noteq> [] \<Longrightarrow> last (st_rest i) \<noteq> newline" by (metis last_in_set)
    with getline_end [OF eof assms False] eof assms show ?thesis by (auto simp: pending_def)
  qed
qed (use assms in \<open>simp add: pending_def getline_def\<close>)

lemma first_line_text: "fst (getline (istream_of s)) @ pending (snd (getline (istream_of s))) = lines_text s"
proof -
  have "pending (istream_of s) = newline # lines_text s" by (simp add: pending_def istream_of_def lines_text_def)
  with getline_text [of "istream_of s"] show ?thesis by (simp add: istream_of_def)
qed

section \<open>The loop\<close>

abbreviation left_text :: "stream_lexer \<Rightarrow> string" where
  "left_text lx \<equiv> pending (m_stream lx)"

abbreviation cursor :: "stream_lexer \<Rightarrow> string" where
  "cursor lx \<equiv> m_cursor (sc lx)"

lemma fill_at_cases:
  obtains (same) "fill_at l lx = lx"
  | (filled) n where "need l = Some n" "ahead l lx < int n" "\<not> st_fail (m_stream lx)" "fill_at l lx = yyfill lx"
proof -
  have "fill_at l lx = lx
      \<or> (\<exists>n. need l = Some n \<and> ahead l lx < int n \<and> \<not> st_fail (m_stream lx) \<and> fill_at l lx = yyfill lx)"
    by (cases "need l"; cases "st_fail (m_stream lx)") (simp_all add: fill_at_def yyfill_def)
  with that show thesis by blast
qed

lemma yyfill_simps:
  assumes "\<not> st_fail (m_stream lx)"
  shows "sc (yyfill lx) = map_pointers (append_line (fst (getline (m_stream lx)))) (sc lx)"
    and "after_limit (yyfill lx) = 2" "m_stream (yyfill lx) = snd (getline (m_stream lx))"
  using assms by (simp_all add: yyfill_def split_beta)

lemma yyfill_length:
  "\<not> st_fail (m_stream lx) \<Longrightarrow>
   length (cursor (yyfill lx)) + length (left_text (yyfill lx)) = length (cursor lx) + length (left_text lx)"
  using getline_text [of "m_stream lx"] by (simp add: yyfill_simps map_pointers_def append_line_def)

lemma fill_at_length:
  "length (cursor (fill_at l lx)) + length (left_text (fill_at l lx)) = length (cursor lx) + length (left_text lx)"
  by (cases rule: fill_at_cases [of l lx]) (simp_all add: yyfill_length)

lemma jump_rank_add: "jump_rank l' m < jump_rank l n \<Longrightarrow> jump_rank l' (m + p) < jump_rank l (n + p)"
  by (auto simp: jump_rank_def split: if_splits)

lemma stream_dfa_jumps_down:
  assumes "stream_dfa l lx = Inr (j, lx')"
  defines "size_of \<equiv> \<lambda>lx. length (cursor lx) + length (left_text lx)"
  shows "case j of
      Goto l' \<Rightarrow> jump_rank l' (size_of lx') < jump_rank l (size_of lx)
    | Again \<Rightarrow> size_of lx' < size_of lx
    | Leave \<Rightarrow> True"
proof -
  let ?lx = "fill_at l lx"
  from assms(1) obtain s where s: "dfa l (sc ?lx) = Inr (j, s)" "lx' = ?lx\<lparr>sc := s\<rparr>"
    by (cases "dfa l (sc ?lx)") (auto simp: stream_dfa_def Let_def)
  from dfa_jumps_down [of l] s(1) show ?thesis
    unfolding size_of_def fill_at_length [of l lx, symmetric] s(2)
    by (force simp: jumps_down_def jump_rank_add split: jump.split)
qed

function stream_loop :: "nat \<Rightarrow> stream_lexer \<Rightarrow> stream_lexer res" where
  "stream_loop l lx =
     (case stream_dfa l lx of
        Inl e \<Rightarrow> Inl e
      | Inr (Goto l', lx') \<Rightarrow> stream_loop l' lx'
      | Inr (Again, lx') \<Rightarrow> stream_loop 1 lx'
      | Inr (Leave, lx') \<Rightarrow> Inr lx')"
  by auto
termination
proof (relation "measure (\<lambda>(l, lx). jump_rank l (length (cursor lx) + length (left_text lx)))", goal_cases)
  case (3 l lx y j lx')
  then have dfa: "stream_dfa l lx = Inr (Again, lx')" by simp
  then have "l \<notin> {5, 14, 33}"
    by (auto simp: stream_dfa_def fill_at_def need_def dfa_def basic_json_parser_5_def basic_json_parser_14_def
        basic_json_parser_33_def accept_def goto_def split: option.splits)
  with stream_dfa_jumps_down [OF dfa] show ?case by (simp add: jump_rank_advance)
qed (use stream_dfa_jumps_down in fastforce)+

declare stream_loop.simps [simp del]

definition stream_scan :: "stream_lexer \<Rightarrow> (token_type \<times> stream_lexer) res" where
  "stream_scan lx =
     rmap (\<lambda>lx. (last_token_type (sc lx), lx))
       (stream_loop 1 (lx\<lparr>sc := (sc lx)\<lparr>yyaccept := 0, yych := CHR 0x00\<rparr>\<rparr>))"

definition stream_token_string :: "stream_lexer \<Rightarrow> string" where
  "stream_token_string lx = get_token_string (lexer.truncate (sc lx))"

section \<open>The scanner with the whole text\<close>

text \<open>The scanner whose buffer has what is still to be added, in front of the zero byte.\<close>

definition insert_text :: "string \<Rightarrow> string \<Rightarrow> string" where
  "insert_text t p = (if p = [] then [] else butlast p @ t @ [last p])"

abbreviation whole :: "string \<Rightarrow> scanner \<Rightarrow> scanner" where
  "whole t s \<equiv> map_pointers (insert_text t) s"

lemma map_pointers_simps [simp]:
  "m_cursor (map_pointers f s) = f (m_cursor s)" "m_start (map_pointers f s) = f (m_start s)"
  "m_marker (map_pointers f s) = map_option f (m_marker s)" "yych (map_pointers f s) = yych s"
  "yyaccept (map_pointers f s) = yyaccept s" "last_token_type (map_pointers f s) = last_token_type s"
  by (simp_all add: map_pointers_def)

lemma map_pointers_update [simp]:
  "(map_pointers f s)\<lparr>yych := c\<rparr> = map_pointers f (s\<lparr>yych := c\<rparr>)"
  "(map_pointers f s)\<lparr>yyaccept := a\<rparr> = map_pointers f (s\<lparr>yyaccept := a\<rparr>)"
  "(map_pointers f s)\<lparr>last_token_type := t\<rparr> = map_pointers f (s\<lparr>last_token_type := t\<rparr>)"
  by (simp_all add: map_pointers_def)

lemma insert_nothing [simp]: "insert_text [] p = p"
  by (simp add: insert_text_def)

lemma whole_nothing [simp]: "whole [] s = s"
proof -
  have "insert_text [] = (\<lambda>p. p)" by (simp add: fun_eq_iff)
  then show ?thesis by (simp add: map_pointers_def option.map_ident)
qed

lemma insert_text_Cons [simp]: "insert_text t (c # d # r) = c # insert_text t (d # r)"
  by (simp add: insert_text_def)

text \<open>How many characters the code behind a label reads, without those that \<open>yyfill\<close> is asked for.\<close>

definition reads :: "nat \<Rightarrow> nat" where
  "reads l =
     (if l \<in> {5, 14, 32, 33} then 0
      else if l \<in> {1, 2, 4, 10, 17, 19, 21, 26, 28, 34, 52, 56, 58, 61} then 1
      else 2)"

definition map_jump :: "(scanner \<Rightarrow> scanner) \<Rightarrow> (jump \<times> scanner) res \<Rightarrow> (jump \<times> scanner) res" where
  "map_jump f r = rmap (\<lambda>(j, s). (j, f s)) r"

lemma map_jump_simps [simp]: "map_jump f (Inr (j, s)) = Inr (j, f s)" "map_jump f (Inl e) = Inl e"
  by (simp_all add: map_jump_def)

lemma inc_whole: "1 < length (m_cursor s) \<Longrightarrow> inc (whole t s) = rmap (whole t) (inc s)"
  by (cases "m_cursor s"; cases "tl (m_cursor s)") (simp_all add: inc_def map_pointers_def)

lemma load_whole: "1 < length (m_cursor s) \<Longrightarrow> load (whole t s) = rmap (whole t) (load s)"
  by (cases "m_cursor s"; cases "tl (m_cursor s)") (simp_all add: load_def map_pointers_def)

lemma inc_shorter: "inc s = Inr s' \<Longrightarrow> length (m_cursor s) = Suc (length (m_cursor s'))"
  by (auto simp: inc_def split: list.splits)

lemma rbind_rmap: "rbind (rmap f r) g = rbind r (\<lambda>x. g (f x))"
  by (cases r) simp_all

lemma rbind_map_jump: "(\<And>x. r = Inr x \<Longrightarrow> g x = map_jump f (h x)) \<Longrightarrow> rbind r g = map_jump f (rbind r h)"
  by (cases r) simp_all

lemma goto_whole: "goto l (whole t s) = map_jump (whole t) (goto l s)" "accept k (whole t s) = map_jump (whole t) (accept k s)"
  by (simp_all add: goto_def accept_def)

text \<open>The code of a block commutes with adding text, if enough characters are ahead.\<close>

definition commutes :: "nat \<Rightarrow> block \<Rightarrow> bool" where
  "commutes n b \<longleftrightarrow> (\<forall>s t. n < length (m_cursor s) \<longrightarrow> b (whole t s) = map_jump (whole t) (b s))"

lemma commutes_next_char:
  assumes "\<And>s t. f (whole t s) = f s"
  shows "commutes 2 (next_char f)"
  unfolding commutes_def next_char_def
  by (auto simp: inc_whole load_whole rbind_rmap assms goto_whole dest!: inc_shorter intro!: rbind_map_jump)

lemma commutes_next_mark:
  assumes "\<And>s t. f (whole t s) = f s"
  shows "commutes 2 (next_mark a f)"
proof -
  have mark: "(whole t s)\<lparr>m_marker := Some (insert_text t (m_cursor s))\<rparr> = whole t (s\<lparr>m_marker := Some (m_cursor s)\<rparr>)" for t s
    by (simp add: map_pointers_def)
  show ?thesis
    unfolding commutes_def next_mark_def
    by (auto simp: inc_whole load_whole rbind_rmap assms goto_whole mark dest!: inc_shorter intro!: rbind_map_jump)
qed

lemma commutes_take_token: "commutes 1 (take_token k)"
  unfolding commutes_def take_token_def by (auto simp: inc_whole rbind_rmap goto_whole intro!: rbind_map_jump)

lemma commutes_others:
  "commutes 0 (accept k)"
  "commutes 1 basic_json_parser_1"
  "commutes 1 basic_json_parser_4"
  "commutes 2 basic_json_parser_6"
  "commutes 2 basic_json_parser_31"
  "commutes 0 basic_json_parser_32"
  "commutes 0 basic_json_parser_33"
  "commutes 1 basic_json_parser_52"
proof -
  have start: "(whole t s)\<lparr>m_marker := None, m_start := insert_text t (m_cursor s), yyaccept := 0\<rparr>
      = whole t (s\<lparr>m_marker := None, m_start := m_cursor s, yyaccept := 0\<rparr>)" for t s
    by (simp add: map_pointers_def)
  have return: "(whole t s)\<lparr>m_cursor := insert_text t p\<rparr> = whole t (s\<lparr>m_cursor := p\<rparr>)" for t s p
    by (simp add: map_pointers_def)
  show "commutes 1 basic_json_parser_1"
    unfolding commutes_def basic_json_parser_1_def
    by (auto simp: start load_whole rbind_rmap goto_whole Let_def intro!: rbind_map_jump)
  show "commutes 0 basic_json_parser_33"
    unfolding commutes_def basic_json_parser_33_def
    by (auto simp: return goto_whole split: option.splits)
qed (auto simp: commutes_def basic_json_parser_4_def basic_json_parser_6_def basic_json_parser_31_def
    basic_json_parser_32_def basic_json_parser_52_def Let_def inc_whole load_whole rbind_rmap goto_whole
    dest!: inc_shorter intro!: rbind_map_jump)

lemma dfa_whole: "commutes (reads l) (dfa l)"
  unfolding dfa_def
  by (auto simp: commutes_others reads_def simp del: One_nat_def)
    (simp_all add: block_defs commutes_next_char commutes_next_mark commutes_take_token commutes_others del: One_nat_def)

section \<open>Enough characters are ahead\<close>

text \<open>
  How many characters from the cursor on are read until \<open>yyfill\<close> is asked again; no token goes on
  behind the end of a line, which \<open>yyfill\<close> puts in front of the new one.
\<close>

definition wants :: "nat \<Rightarrow> nat" where
  "wants l =
     (if l \<in> {5, 14, 33} then 0
      else if l \<in> {12, 23} then 5
      else if l \<in> {13, 24, 25, 39} then 4
      else if l \<in> {30, 38, 40, 41, 49} then 3
      else if l \<in> {9, 37, 42, 46, 50, 51, 55} then 2
      else 1)"

definition room :: "nat \<Rightarrow> string \<Rightarrow> bool" where
  "room k p \<longleftrightarrow> k < length p \<or> newline \<in> set (butlast p)"

definition ready :: "nat \<Rightarrow> scanner \<Rightarrow> bool" where
  "ready l s \<longleftrightarrow> l \<in> {1, 5, 14, 33}
     \<or> 1 < length (m_cursor s) \<and> (if l = 6 then True else if l = 32 then yych s = hd (m_cursor s)
          else hd (m_cursor s) \<noteq> newline \<and> room (wants l) (m_cursor s))"

definition budget :: "nat \<Rightarrow> nat" where
  "budget l = (case need l of Some n \<Rightarrow> n | None \<Rightarrow> wants l - 1)"

definition follows :: "nat \<Rightarrow> block \<Rightarrow> bool" where
  "follows k b \<longleftrightarrow> (\<forall>s l' s'. room k (tl (m_cursor s)) \<longrightarrow> b s = Inr (Goto l', s') \<longrightarrow> ready l' s')"

lemma room_length: "room k p \<Longrightarrow> 0 < k \<Longrightarrow> 1 < length p"
  by (cases p; cases "tl p") (auto simp: room_def)

lemma room_mono: "room k p \<Longrightarrow> k' \<le> k \<Longrightarrow> room k' p"
  by (auto simp: room_def)

lemma room_tl: "room k p \<Longrightarrow> 1 < length p \<Longrightarrow> hd p \<noteq> newline \<Longrightarrow> room (k - 1) (tl p)"
  by (cases p) (auto simp: room_def simp flip: length_greater_0_conv split: if_splits)

definition target :: "nat \<Rightarrow> nat \<Rightarrow> char \<Rightarrow> bool" where
  "target k l c \<longleftrightarrow> l \<in> {5, 6, 14, 32, 33} \<or> c \<noteq> newline \<and> wants l \<le> k"

lemma target_ready:
  "target k l (hd (m_cursor s)) \<Longrightarrow> yych s = hd (m_cursor s) \<Longrightarrow> 0 < k \<Longrightarrow> room k (m_cursor s) \<Longrightarrow> ready l s"
  using room_length [of k "m_cursor s"] by (auto simp: target_def ready_def intro: room_mono)

lemma load_result: "load s = Inr s' \<Longrightarrow> m_cursor s' = m_cursor s \<and> yych s' = hd (m_cursor s)"
  by (auto simp: load_def split: list.splits)

lemma inc_result: "inc s = Inr s' \<Longrightarrow> m_cursor s' = tl (m_cursor s)"
  by (auto simp: inc_def split: list.splits)

lemma follows_next_char:
  assumes "0 < k" "\<And>s. target k (f s) (yych s)"
  shows "follows k (next_char f)"
  unfolding follows_def next_char_def goto_def
proof (intro allI impI)
  fix s l' s'
  assume room: "room k (tl (m_cursor s))"
    and step: "rbind (inc s) (\<lambda>s. rbind (load s) (\<lambda>s. Inr (Goto (f s), s))) = Inr (Goto l', s')"
  then have c: "m_cursor s' = tl (m_cursor s)" "yych s' = hd (m_cursor s')" "l' = f s'"
    by (auto simp: rbind_eq_Inr dest!: inc_result load_result)
  then show "ready l' s'" using assms target_ready [of k l' s'] room by metis
qed

lemma follows_next_mark:
  assumes "0 < k" "\<And>s. target k (f s) (yych s)"
  shows "follows k (next_mark a f)"
  unfolding follows_def next_mark_def goto_def
proof (intro allI impI)
  fix s l' s'
  assume room: "room k (tl (m_cursor s))"
    and step: "rbind (inc (s\<lparr>yyaccept := a\<rparr>)) (\<lambda>s. rbind (load (s\<lparr>m_marker := Some (m_cursor s)\<rparr>)) (\<lambda>s. Inr (Goto (f s), s)))
      = Inr (Goto l', s')"
  then have c: "m_cursor s' = tl (m_cursor s)" "yych s' = hd (m_cursor s')" "l' = f s'"
    by (auto simp: rbind_eq_Inr dest!: inc_result load_result)
  then show "ready l' s'" using assms target_ready [of k l' s'] room by metis
qed

lemma follows_take_token: "follows k (take_token t)" "follows k (accept t)"
  by (auto simp: follows_def take_token_def accept_def rbind_eq_Inr)

lemma follows_others:
  "follows k basic_json_parser_4"
  "follows k basic_json_parser_52"
  "0 < k \<Longrightarrow> follows k basic_json_parser_6"
  "0 < k \<Longrightarrow> follows k basic_json_parser_31"
proof -
  show "follows k basic_json_parser_4" "follows k basic_json_parser_52"
    by (auto simp: follows_def basic_json_parser_4_def basic_json_parser_52_def goto_def ready_def rbind_eq_Inr)
  assume "0 < k"
  then show "follows k basic_json_parser_6" "follows k basic_json_parser_31"
    by (auto simp: follows_def basic_json_parser_6_def basic_json_parser_31_def goto_def ready_def rbind_eq_Inr
        split: if_splits dest!: inc_result load_result dest: room_length)
qed

lemmas table = wants_def need_def budget_def target_def

lemma follows_budget: "l \<notin> {1, 32, 33} \<Longrightarrow> follows (budget l) (dfa l)"
  unfolding dfa_def
  by (auto simp: follows_others follows_take_token simp del: One_nat_def)
    (simp_all add: block_defs follows_take_token table, ((rule follows_next_char follows_next_mark, simp, force simp: target_def wants_def Let_def in_class_digit isdigit_def)
       | (rule follows_others, simp))+)

lemma first_label_target: "target 5 (first_label c) c"
  by (auto simp: first_label_def target_def wants_def is_blank_def)

lemma ready_first:
  assumes "room 5 (m_cursor s)" "dfa 1 s = Inr (Goto l', s')"
  shows "ready l' s'"
proof -
  have one: "dfa 1 s = rbind (load (s\<lparr>m_marker := None, m_start := m_cursor s, yyaccept := 0\<rparr>)) (\<lambda>s. goto (first_label (yych s)) s)"
    by (simp only: dfa_labels basic_json_parser_1_def Let_def in_class_blank first_target)
  have "m_cursor s' = m_cursor s \<and> yych s' = hd (m_cursor s) \<and> l' = first_label (yych s')"
    using assms(2) unfolding one goto_def rbind_eq_Inr by (auto dest!: load_result)
  then show ?thesis using assms(1) target_ready [of 5 l' s'] first_label_target by simp
qed

lemma ready_32: "ready 32 s \<Longrightarrow> dfa 32 s = Inr (Goto l', s') \<Longrightarrow> ready l' s'"
  unfolding dfa_labels basic_json_parser_32_def
  by (auto simp: goto_def Let_def ready_def wants_def room_def in_class_plain split: if_splits)

lemma ready_33: "dfa 33 s = Inr (Goto l', s') \<Longrightarrow> ready l' s'"
  unfolding dfa_labels basic_json_parser_33_def
  by (auto simp: goto_def ready_def split: option.splits if_splits)

text \<open>Pointers stay in the buffer.\<close>

definition in_buffer :: "string \<Rightarrow> bool" where
  "in_buffer p \<longleftrightarrow> p \<noteq> [] \<and> last p = CHR 0x00"

definition pointers_ok :: "scanner \<Rightarrow> bool" where
  "pointers_ok s \<longleftrightarrow> in_buffer (m_start s) \<and> in_buffer (m_cursor s) \<and> pred_option in_buffer (m_marker s)"

definition keeps :: "nat \<Rightarrow> block \<Rightarrow> bool" where
  "keeps n b \<longleftrightarrow> (\<forall>s j s'. n < length (m_cursor s) \<longrightarrow> pointers_ok s \<longrightarrow> b s = Inr (j, s') \<longrightarrow> pointers_ok s')"

lemma inc_pointers: "inc s = Inr s' \<Longrightarrow> 1 < length (m_cursor s) \<Longrightarrow> pointers_ok s \<Longrightarrow> pointers_ok s'"
  by (auto simp: inc_def pointers_ok_def in_buffer_def split: list.splits)

lemma load_pointers: "load s = Inr s' \<Longrightarrow> pointers_ok s \<Longrightarrow> pointers_ok s'"
  by (auto simp: load_def pointers_ok_def split: list.splits)

lemma pointers_ok_update [simp]:
  "pointers_ok (s\<lparr>yyaccept := a\<rparr>) = pointers_ok s" "pointers_ok (s\<lparr>last_token_type := t\<rparr>) = pointers_ok s"
  "pointers_ok s \<Longrightarrow> pointers_ok (s\<lparr>m_marker := Some (m_cursor s)\<rparr>)"
  by (simp_all add: pointers_ok_def)

lemma keeps_blocks:
  "keeps 2 (next_char f)" "keeps 2 (next_mark a f)" "keeps 1 (take_token t)" "keeps 0 (accept t)"
  by (auto simp: keeps_def next_char_def next_mark_def take_token_def accept_def goto_def rbind_eq_Inr
      dest!: inc_pointers load_pointers)

lemma keeps_others:
  "keeps 1 basic_json_parser_1" "keeps 1 basic_json_parser_4" "keeps 2 basic_json_parser_6"
  "keeps 2 basic_json_parser_31" "keeps 0 basic_json_parser_32" "keeps 0 basic_json_parser_33"
  "keeps 1 basic_json_parser_52"
proof -
  have "pointers_ok s \<Longrightarrow> pointers_ok (s\<lparr>m_marker := None, m_start := m_cursor s, yyaccept := 0\<rparr>)" for s
    by (simp add: pointers_ok_def)
  then show "keeps 1 basic_json_parser_1"
    by (auto simp: keeps_def basic_json_parser_1_def Let_def goto_def rbind_eq_Inr dest!: load_pointers)
  show "keeps 0 basic_json_parser_33"
    by (auto simp: keeps_def basic_json_parser_33_def goto_def pointers_ok_def split: option.splits)
qed (auto simp: keeps_def basic_json_parser_4_def basic_json_parser_6_def basic_json_parser_31_def
    basic_json_parser_32_def basic_json_parser_52_def goto_def Let_def rbind_eq_Inr
    split: if_splits dest!: inc_pointers load_pointers)

lemma dfa_keeps: "keeps (reads l) (dfa l)"
  unfolding dfa_def
  by (auto simp: keeps_others reads_def simp del: One_nat_def)
    (simp_all add: block_defs keeps_blocks keeps_others del: One_nat_def)

section \<open>Simulation\<close>

definition joined :: "stream_lexer \<Rightarrow> scanner" where
  "joined lx = whole (left_text lx) (sc lx)"

definition stream_inv :: "nat \<Rightarrow> stream_lexer \<Rightarrow> bool" where
  "stream_inv l lx \<longleftrightarrow> 0 < after_limit lx \<and> after_limit lx \<le> 2 \<and> (left_text lx = [] \<or> pointers_ok (sc lx) \<and> ready l (sc lx))"

lemma left_text_fail: "left_text lx = [] \<longleftrightarrow> st_fail (m_stream lx)"
  by (simp add: pending_def)

lemma append_line_simps:
  assumes "in_buffer p"
  shows "in_buffer (append_line line p)" "insert_text t (append_line line p) = insert_text (newline # line @ t) p"
  using assms by (simp_all add: append_line_def in_buffer_def insert_text_def butlast_append)

lemma yyfill_joined:
  assumes "\<not> st_fail (m_stream lx)" "pointers_ok (sc lx)"
  shows "joined (yyfill lx) = joined lx" "pointers_ok (sc (yyfill lx))"
proof -
  show "joined (yyfill lx) = joined lx"
    using assms getline_text [OF assms(1)]
    by (cases "m_marker (sc lx)")
      (simp_all add: joined_def yyfill_simps map_pointers_def append_line_simps pointers_ok_def)
  show "pointers_ok (sc (yyfill lx))"
    using assms by (cases "m_marker (sc lx)") (simp_all add: yyfill_simps pointers_ok_def append_line_simps)
qed

lemma fill_at_joined:
  assumes "pointers_ok (sc lx)"
  shows "joined (fill_at l lx) = joined lx" "pointers_ok (sc (fill_at l lx))"
  by (cases rule: fill_at_cases [of l lx]; simp add: assms yyfill_joined)+

text \<open>After a label had the chance to ask for a line, what it wants is there, or nothing is left.\<close>

lemma yyfill_room:
  assumes "\<not> st_fail (m_stream lx)" "d < length (cursor lx)"
  shows "room k (drop d (cursor (yyfill lx)))"
proof -
  let ?line = "fst (getline (m_stream lx))"
  have "cursor lx \<noteq> []" "d \<le> length (butlast (cursor lx))" using assms(2) by auto
  then have "drop d (cursor (yyfill lx)) = drop d (butlast (cursor lx)) @ newline # ?line @ [CHR 0x00]"
    using assms(1) by (simp add: yyfill_simps append_line_def)
  then show ?thesis by (simp add: room_def butlast_append)
qed

lemma fill_at_room:
  assumes "need l = Some n" "0 < after_limit lx" "(if l = 1 then 0 else 1) < length (cursor lx)"
  shows "left_text (fill_at l lx) = [] \<or> room n (drop (if l = 1 then 0 else 1) (cursor (fill_at l lx)))"
proof -
  let ?d = "if l = 1 then 0 else 1 :: nat"
  consider (failed) "st_fail (m_stream lx)" | (enough) "\<not> ahead l lx < int n"
    | (filled) "\<not> st_fail (m_stream lx)" "ahead l lx < int n" by blast
  then show ?thesis
  proof cases
    case failed
    then have "fill_at l lx = lx" by (simp add: fill_at_def yyfill_def split: option.splits)
    with failed show ?thesis by (simp add: left_text_fail)
  next
    case enough
    then have "n < length (cursor lx) - ?d" using assms(2,3) by (auto simp: ahead_def split: if_splits)
    with enough assms(1) show ?thesis by (simp add: fill_at_def room_def)
  next
    case filled
    with assms(1) have "fill_at l lx = yyfill lx" by (simp add: fill_at_def)
    with yyfill_room [OF filled(1) assms(3), of n] show ?thesis by simp
  qed
qed

lemma reads_wants: "need l = None \<Longrightarrow> reads l = 2 \<Longrightarrow> 2 \<le> wants l"
  by (auto simp: need_def reads_def wants_def split: if_splits)

lemma reads_le: "reads l = 0 \<or> reads l = 1 \<or> reads l = 2" "l \<notin> {5, 14, 32, 33} \<Longrightarrow> 0 < reads l"
  by (simp_all add: reads_def)

lemma stream_room:
  assumes "stream_inv l lx" "left_text lx \<noteq> []"
  shows "left_text (fill_at l lx) = []
     \<or> reads l < length (cursor (fill_at l lx))
       \<and> (l \<notin> {1, 5, 14, 32, 33} \<and> reads l = 2 \<longrightarrow> room (budget l) (tl (cursor (fill_at l lx))))
       \<and> (l = 1 \<longrightarrow> room 5 (cursor (fill_at l lx)))"
proof (cases "need l")
  case None
  then have fill: "fill_at l lx = lx" "l \<noteq> 1" by (auto simp: fill_at_def need_def)
  have ready: "ready l (sc lx)" and len: "0 < length (cursor lx)"
    using assms by (auto simp: stream_inv_def pointers_ok_def in_buffer_def)
  show ?thesis
  proof (cases "l \<in> {5, 14, 32, 33}")
    case True
    then have "reads l = 0" by (simp add: reads_def)
    with True len fill show ?thesis by auto
  next
    case False
    with ready fill(2) have len: "1 < length (cursor lx)"
      and more: "l \<noteq> 6 \<Longrightarrow> hd (cursor lx) \<noteq> newline \<and> room (wants l) (cursor lx)"
      by (auto simp: ready_def)
    have "l \<noteq> 6" using None by (auto simp: need_def)
    with more len have room: "room (wants l - 1) (tl (cursor lx))" using room_tl by blast
    have "2 < length (cursor lx)" if "reads l = 2"
      using room_length [OF room] reads_wants [OF None that] by simp
    with len reads_le(1) [of l] have "reads l < length (cursor lx)" by auto
    with room None fill show ?thesis by (simp add: budget_def)
  qed
next
  case (Some n)
  then have n: "0 < n" "l = 1 \<Longrightarrow> n = 5" by (auto simp: need_def split: if_splits)
  have lim: "0 < after_limit lx" using assms by (simp add: stream_inv_def)
  have len: "(if l = 1 then 0 else 1) < length (cursor lx)"
    using assms Some by (auto simp: stream_inv_def pointers_ok_def in_buffer_def ready_def need_def)
  from fill_at_room [OF Some lim len] show ?thesis
  proof
    assume room: "room n (drop (if l = 1 then 0 else 1) (cursor (fill_at l lx)))"
    from room_length [OF this n(1)] have "(if l = 1 then 1 else 2) < length (cursor (fill_at l lx))" by (simp split: if_splits)
    moreover have "reads 1 = 1" by (simp add: reads_def)
    ultimately have "reads l < length (cursor (fill_at l lx))" using reads_le(1) [of l] by (auto split: if_splits)
    with room n Some show ?thesis by (auto simp: budget_def drop_Suc)
  qed simp
qed

lemma ready_step:
  assumes "dfa l s = Inr (Goto l', s')" "ready l s"
    and "l \<notin> {1, 5, 14, 32, 33} \<and> reads l = 2 \<longrightarrow> room (budget l) (tl (m_cursor s))" "l = 1 \<longrightarrow> room 5 (m_cursor s)"
  shows "ready l' s'"
proof -
  consider "l = 1" | "l = 32" | "l = 33" | (other) "l \<notin> {1, 32, 33}" by blast
  then show ?thesis
  proof cases
    case other
    show ?thesis
    proof (cases "reads l = 2")
      case True
      with other have "room (budget l) (tl (m_cursor s))" using assms(3) by (auto simp: reads_def)
      with follows_budget [OF other] assms(1) show ?thesis by (auto simp: follows_def)
    next
      case False
      then have "l \<in> {2, 4, 5, 10, 14, 17, 19, 21, 26, 28, 34, 52, 56, 58, 61}" using other by (auto simp: reads_def split: if_splits)
      with assms(1) show ?thesis
        by (auto simp: dfa_def block_defs take_token_def accept_def goto_def ready_def rbind_eq_Inr split: if_splits)
    qed
  qed (use assms ready_first ready_32 ready_33 in auto)
qed

lemma fill_at_inv: "stream_inv l lx \<Longrightarrow> joined (fill_at l lx) = joined lx \<and> 0 < after_limit (fill_at l lx)"
proof -
  assume inv: "stream_inv l lx"
  show "joined (fill_at l lx) = joined lx \<and> 0 < after_limit (fill_at l lx)"
  proof (cases rule: fill_at_cases [of l lx])
    case same
    with inv show ?thesis by (simp add: stream_inv_def)
  next
    case filled
    then have "left_text lx \<noteq> []" by (simp add: left_text_fail)
    with inv have "pointers_ok (sc lx)" by (simp add: stream_inv_def)
    with filled show ?thesis by (simp add: yyfill_joined yyfill_simps)
  qed
qed

text \<open>The code behind a label does on the buffer of the stream what it does on the whole text.\<close>

lemma stream_dfa_joined:
  assumes "stream_inv l lx"
  shows "dfa l (joined lx) = rmap (\<lambda>(j, lx). (j, joined lx)) (stream_dfa l lx)"
    and "stream_dfa l lx = Inr (j, lx') \<Longrightarrow> stream_inv (case j of Goto l' \<Rightarrow> l' | _ \<Rightarrow> 1) lx'"
proof -
  let ?lx = "fill_at l lx"
  have joined: "joined lx = joined ?lx" and lim: "0 < after_limit ?lx" using fill_at_inv [OF assms] by simp_all
  have lim2: "after_limit ?lx \<le> 2"
    using assms by (cases rule: fill_at_cases [of l lx]) (simp_all add: stream_inv_def yyfill_simps)
  have ready: "left_text ?lx \<noteq> [] \<Longrightarrow> pointers_ok (sc ?lx) \<and> ready l (sc ?lx)
      \<and> reads l < length (cursor ?lx)
      \<and> (l \<notin> {1, 5, 14, 32, 33} \<and> reads l = 2 \<longrightarrow> room (budget l) (tl (cursor ?lx)))
      \<and> (l = 1 \<longrightarrow> room 5 (cursor ?lx))"
  proof -
    assume left: "left_text ?lx \<noteq> []"
    then have before: "left_text lx \<noteq> []"
      by (cases rule: fill_at_cases [of l lx]) (auto simp: left_text_fail)
    with assms have ok: "pointers_ok (sc lx)" "ready l (sc lx)" by (simp_all add: stream_inv_def)
    have "ready l (sc ?lx)"
    proof (cases rule: fill_at_cases [of l lx])
      case filled
      then have "l \<noteq> 32" by (auto simp: need_def)
      moreover have "wants l \<le> 1 \<or> l = 1" using filled(1) by (auto simp: need_def wants_def split: if_splits)
      moreover have "cursor ?lx = append_line (fst (getline (m_stream lx))) (cursor lx)"
        using filled by (simp add: yyfill_simps)
      moreover have "1 < length (cursor lx) \<Longrightarrow> hd (append_line t (cursor lx)) = hd (cursor lx)
          \<and> 1 < length (append_line t (cursor lx))" for t
        by (cases "cursor lx"; cases "tl (cursor lx)") (simp_all add: append_line_def)
      ultimately show ?thesis using ok(2) by (auto simp: ready_def room_def intro: le_less_trans split: if_splits)
    qed (use ok in simp)
    with stream_room [OF assms before] left fill_at_joined(2) [OF ok(1), of l] show ?thesis by auto
  qed
  have "dfa l (whole (left_text ?lx) (sc ?lx)) = map_jump (whole (left_text ?lx)) (dfa l (sc ?lx))"
    using ready dfa_whole [of l] by (cases "left_text ?lx = []") (auto simp: commutes_def map_jump_def rmap_def rbind_def split: sum.splits)
  then show "dfa l (joined lx) = rmap (\<lambda>(j, lx). (j, joined lx)) (stream_dfa l lx)"
    unfolding joined unfolding joined_def by (cases "dfa l (sc ?lx)") (auto simp: stream_dfa_def Let_def)
  assume "stream_dfa l lx = Inr (j, lx')"
  then obtain s where s: "dfa l (sc ?lx) = Inr (j, s)" "lx' = ?lx\<lparr>sc := s\<rparr>"
    by (cases "dfa l (sc ?lx)") (auto simp: stream_dfa_def Let_def)
  show "stream_inv (case j of Goto l' \<Rightarrow> l' | _ \<Rightarrow> 1) lx'"
  proof (cases "left_text ?lx = []")
    case False
    from ready [OF this] have "pointers_ok s" using s(1) dfa_keeps [of l] unfolding keeps_def by blast
    moreover have "ready l' s" if "j = Goto l'" for l'
      using ready_step [of l "sc ?lx" l' s] ready [OF False] s(1) that by blast
    moreover have "ready 1 s" by (simp add: ready_def)
    ultimately show ?thesis using s(2) lim lim2 by (simp add: stream_inv_def split: jump.split)
  qed (use s(2) lim lim2 in \<open>simp add: stream_inv_def\<close>)
qed

lemma stream_loop_joined:
  "stream_inv l lx \<Longrightarrow>
   scan_loop l (joined lx) = rmap joined (stream_loop l lx)
   \<and> (\<forall>lx'. stream_loop l lx = Inr lx' \<longrightarrow> stream_inv 1 lx')"
proof (induction l lx rule: stream_loop.induct)
  case (1 l lx)
  note step = stream_dfa_joined [OF 1(3)]
  show ?case
  proof (cases "stream_dfa l lx")
    case (Inl e)
    with step(1) show ?thesis by (simp add: scan_loop.simps [of l] stream_loop.simps [of l])
  next
    case (Inr p)
    obtain j lx' where p: "p = (j, lx')" by force
    with Inr have dfa: "stream_dfa l lx = Inr (j, lx')" by simp
    from step(2) [OF dfa] 1(1,2) [OF dfa] dfa step(1) show ?thesis
      by (cases j) (simp_all add: scan_loop.simps [of l] stream_loop.simps [of l])
  qed
qed

lemma joined_update:
  "joined (lx\<lparr>sc := (sc lx)\<lparr>yyaccept := a, yych := c\<rparr>\<rparr>) = (joined lx)\<lparr>yyaccept := a, yych := c\<rparr>"
  by (simp add: joined_def)

lemma extend_truncate: "lexer.extend (lexer.truncate s) \<lparr>yyaccept = a, yych = c\<rparr> = s\<lparr>yyaccept := a, yych := c\<rparr>"
  by (simp add: lexer.defs)

definition text_lexer :: "stream_lexer \<Rightarrow> lexer" where
  "text_lexer lx = lexer.truncate (joined lx)"

lemma stream_scan_text:
  assumes "stream_inv 1 lx"
  shows "scan (text_lexer lx) = rmap (\<lambda>(t, lx). (t, text_lexer lx)) (stream_scan lx)
    \<and> (\<forall>t lx'. stream_scan lx = Inr (t, lx') \<longrightarrow> stream_inv 1 lx')"
proof -
  let ?lx = "lx\<lparr>sc := (sc lx)\<lparr>yyaccept := 0, yych := CHR 0x00\<rparr>\<rparr>"
  have "stream_inv 1 ?lx" using assms by (auto simp: stream_inv_def ready_def pointers_ok_def)
  from stream_loop_joined [OF this]
  have "scan_loop 1 (joined ?lx) = rmap joined (stream_loop 1 ?lx)"
    and "\<forall>lx'. stream_loop 1 ?lx = Inr lx' \<longrightarrow> stream_inv 1 lx'" by blast+
  then show ?thesis
    unfolding scan_def stream_scan_def text_lexer_def extend_truncate joined_update
    by (cases "stream_loop 1 ?lx") (auto simp: joined_def)
qed

section \<open>Tokens\<close>

text \<open>The tokens that a scanner gives, with their texts, up to the end or an error.\<close>

fun tokens :: "('l \<Rightarrow> (token_type \<times> 'l) res) \<Rightarrow> ('l \<Rightarrow> string) \<Rightarrow> nat \<Rightarrow> 'l \<Rightarrow> (token_type \<times> string) list res" where
  "tokens next_token text_of 0 lx = Inl Diverges"
| "tokens next_token text_of (Suc fuel) lx = rbind (next_token lx) (\<lambda>(t, lx).
     if t = end_of_input \<or> t = parse_error then Inr [(t, text_of lx)]
     else rmap ((#) (t, text_of lx)) (tokens next_token text_of fuel lx))"

lemma stream_token_text:
  assumes "stream_inv 1 lx"
  shows "stream_token_string lx = get_token_string (text_lexer lx)"
proof (cases "left_text lx = []")
  case False
  with assms have "in_buffer (m_start (sc lx))" "in_buffer (cursor lx)" by (simp_all add: stream_inv_def pointers_ok_def)
  then have "m_start (sc lx) \<noteq> []" "cursor lx \<noteq> []" by (simp_all add: in_buffer_def)
  then have "length (m_start (sc lx)) - length (cursor lx) \<le> length (butlast (m_start (sc lx)))"
    by (cases "cursor lx") auto
  then have "take (length (m_start (sc lx)) - length (cursor lx)) (butlast (m_start (sc lx)))
      = take (length (m_start (sc lx)) - length (cursor lx)) (m_start (sc lx))"
    by (metis append_butlast_last_id \<open>m_start (sc lx) \<noteq> []\<close> append_Nil2 take_0 take_append diff_is_0_eq)
  with \<open>m_start (sc lx) \<noteq> []\<close> \<open>cursor lx \<noteq> []\<close> show ?thesis
    using \<open>_ \<le> length (butlast (m_start (sc lx)))\<close>
    by (simp add: stream_token_string_def get_token_string_def text_lexer_def joined_def insert_text_def lexer.defs)
qed (simp add: stream_token_string_def text_lexer_def joined_def)

lemma tokens_text:
  "stream_inv 1 lx \<Longrightarrow>
   tokens stream_scan stream_token_string fuel lx = tokens scan get_token_string fuel (text_lexer lx)"
proof (induction fuel arbitrary: lx)
  case (Suc fuel)
  from stream_scan_text [OF Suc.prems] have "scan (text_lexer lx) = rmap (\<lambda>(t, lx). (t, text_lexer lx)) (stream_scan lx)"
    and inv: "\<And>t lx'. stream_scan lx = Inr (t, lx') \<Longrightarrow> stream_inv 1 lx'" by blast+
  then show ?case using Suc.IH stream_token_text by (cases "stream_scan lx") auto
qed simp

lemma stream_start:
  "stream_inv 1 (stream_lexer_of (istream_of s))" "text_lexer (stream_lexer_of (istream_of s)) = lexer_of (lines_text s)"
proof -
  obtain line i where line: "getline (istream_of s) = (line, i)" by force
  show "stream_inv 1 (stream_lexer_of (istream_of s))"
    by (simp add: stream_inv_def stream_lexer_of_def line pointers_ok_def in_buffer_def ready_def lexer_of_def lexer.defs)
  have "line @ pending i = lines_text s" using first_line_text [of s] line by simp
  then show "text_lexer (stream_lexer_of (istream_of s)) = lexer_of (lines_text s)"
    by (simp add: text_lexer_def joined_def stream_lexer_of_def line lexer_of_def lexer.defs insert_text_def map_pointers_def)
qed

lemma tokens_end:
  assumes "CHR 0x00 \<in> set (m_cursor lx)" "length (m_cursor lx) \<le> fuel"
  shows "\<exists>ts t w. tokens scan get_token_string fuel lx = Inr (ts @ [(t, w)]) \<and> (t = end_of_input \<or> t = parse_error)"
  using assms
proof (induction fuel arbitrary: lx)
  case (Suc fuel)
  from scan_takes_longest [OF Suc.prems(1)] obtain t lx' ws w where
    lx': "scan lx = Inr (t, lx')" "m_cursor lx = ws @ m_start lx'" "m_start lx' = w @ m_cursor lx'"
    "if t = parse_error then length w = 1 else token_text t w" "t \<noteq> end_of_input \<longrightarrow> CHR 0x00 \<in> set (m_cursor lx')"
    by (auto split: if_splits)
  show ?case
  proof (cases "t = end_of_input \<or> t = parse_error")
    case False
    then have "w \<noteq> []" using lx'(4) token_text_nonempty by (cases "t = parse_error") auto
    then have "length (m_cursor lx') \<le> fuel" using lx'(2,3) Suc.prems(2) by (cases w) simp_all
    from Suc.IH [OF _ this] False lx'(5) obtain ts t' w' where
      "tokens scan get_token_string fuel lx' = Inr (ts @ [(t', w')])" "t' = end_of_input \<or> t' = parse_error" by blast
    with False lx'(1) show ?thesis by (intro exI [of _ "(t, get_token_string lx') # ts"]) auto
  next
    case True
    with lx'(1) show ?thesis by (intro exI [of _ "[]"]) auto
  qed
qed simp

text \<open>
  Scanning a stream line by line gives the tokens of its whole text, up to its end or an error, with a
  newline added to a last line that has none: what \<open>yyfill\<close> adds is always there before it is read.
\<close>

theorem stream_tokens:
  "\<exists>ts t w. tokens stream_scan stream_token_string (Suc (length (lines_text s))) (stream_lexer_of (istream_of s))
       = Inr (ts @ [(t, w)])
     \<and> tokens scan get_token_string (Suc (length (lines_text s))) (lexer_of (lines_text s)) = Inr (ts @ [(t, w)])
     \<and> (t = end_of_input \<or> t = parse_error)"
  using tokens_text [OF stream_start(1), of "Suc (length (lines_text s))" s]
    tokens_end [of "lexer_of (lines_text s)" "Suc (length (lines_text s))"]
  by (simp add: stream_start(2) lexer_of_def del: tokens.simps)

end
