(* ===== verification/JsonParser.thy ===== *)
theory JsonParser
  imports JsonTokens
begin

text \<open>
  The recursive-descent parser of \<open>json.hpp\<close> (class \<open>parser\<close>), with its optional callback, over a
  lexer that is an argument: a text in memory here, a stream in \<open>JsonStreamParser\<close>. A callback gets the depth, the event and the value by reference; it is a
  function that returns its verdict and the value it leaves. The recursion has fuel for every
  call and every round of a loop: twice the length of the text is enough, as every call consumes
  a token (\<open>parse_outcome\<close>).
\<close>

section \<open>The parser\<close>

datatype parse_event = object_start | object_end | array_start | array_end | key_event | value_event

type_synonym parser_callback = "int \<Rightarrow> parse_event \<Rightarrow> json \<Rightarrow> bool \<times> json"

text \<open>What the parser calls of a lexer, and a lexer on a text in memory.\<close>

record 'l lexing =
  next_token :: "'l \<Rightarrow> (token_type \<times> 'l) res"
  token_string :: "'l \<Rightarrow> string"
  string_token :: "'l \<Rightarrow> string res"
  number_token :: "'l \<Rightarrow> json res"

definition of_text :: "lexer lexing" where
  "of_text = \<lparr>next_token = scan, token_string = get_token_string, string_token = get_string_token,
     number_token = get_number_token\<rparr>"

lemma of_text_simps [simp]:
  "next_token of_text = scan" "token_string of_text = get_token_string" "string_token of_text = get_string_token"
  "number_token of_text = get_number_token"
  by (simp_all add: of_text_def)

record 'l parser =
  depth :: int
  last_token :: token_type
  m_lexer :: 'l

definition get_token :: "'l lexing \<Rightarrow> 'l parser \<Rightarrow> 'l parser res" where
  "get_token ops p = rbind (next_token ops (m_lexer p)) (\<lambda>(t, lx). Inr (p\<lparr>last_token := t, m_lexer := lx\<rparr>))"

text \<open>The constructor reads the first token.\<close>

definition parser_of :: "'l lexing \<Rightarrow> 'l \<Rightarrow> 'l parser res" where
  "parser_of ops lx = get_token ops \<lparr>depth = 0, last_token = uninitialized, m_lexer = lx\<rparr>"

definition unexpected :: "'l lexing \<Rightarrow> 'l parser \<Rightarrow> string" where
  "unexpected ops p =
     ''parse error - unexpected '' @
     (if last_token p = parse_error then [CHR 0x27] @ token_string ops (m_lexer p) @ [CHR 0x27]
      else token_type_name (last_token p))"

definition expect :: "'l lexing \<Rightarrow> token_type \<Rightarrow> 'l parser \<Rightarrow> unit res" where
  "expect ops t p =
     (if t \<noteq> last_token p
      then Inl (Invalid_argument (unexpected ops p @ ''; expected '' @ token_type_name t)) else Inr ())"

definition unexpect :: "'l lexing \<Rightarrow> token_type \<Rightarrow> 'l parser \<Rightarrow> unit res" where
  "unexpect ops t p = (if t = last_token p then Inl (Invalid_argument (unexpected ops p)) else Inr ())"

text \<open>The beginning of an object or array, with the value \<open>e\<close> to start from: \<open>keep\<close>, result, parser.\<close>

definition start_value ::
    "parser_callback option \<Rightarrow> parse_event \<Rightarrow> json \<Rightarrow> bool \<Rightarrow> 'l parser \<Rightarrow> bool \<times> json \<times> 'l parser" where
  "start_value cb ev e keep p =
     (if keep then
        (case cb of
           None \<Rightarrow> (True, e, p)
         | Some f \<Rightarrow>
             (case f (depth p) ev Discarded of (k, result) \<Rightarrow>
               (k, if k then e else result, p\<lparr>depth := depth p + 1\<rparr>)))
      else (False, Discarded, p))"

text \<open>The end of an object or array.\<close>

definition end_value ::
    "parser_callback option \<Rightarrow> parse_event \<Rightarrow> bool \<Rightarrow> json \<Rightarrow> 'l parser \<Rightarrow> json \<times> 'l parser" where
  "end_value cb ev keep result p =
     (case cb of
        Some f \<Rightarrow>
          if keep then
            (case f (depth p - 1) ev result of (k, result) \<Rightarrow>
              (if k then result else Discarded, p\<lparr>depth := depth p - 1\<rparr>))
          else (result, p)
      | None \<Rightarrow> (result, p))"

text \<open>The callback for a primitive value.\<close>

definition leaf_value :: "parser_callback option \<Rightarrow> bool \<Rightarrow> json \<Rightarrow> 'l parser \<Rightarrow> (json \<times> 'l parser) res" where
  "leaf_value cb keep result p =
     Inr (case cb of
            Some f \<Rightarrow>
              if keep then (case f (depth p) value_event result of (k, result) \<Rightarrow> (if k then result else Discarded, p))
              else (result, p)
          | None \<Rightarrow> (result, p))"

text \<open>\<open>result[key] = std::move(value)\<close>\<close>

fun replace :: "string \<Rightarrow> json \<Rightarrow> (string \<times> json) list \<Rightarrow> (string \<times> json) list" where
  "replace k v [] = []"
| "replace k v ((k', v') # m) = (if k = k' then (k', v) # m else (k', v') # replace k v m)"

definition assign_key :: "string \<Rightarrow> json \<Rightarrow> json \<Rightarrow> json res" where
  "assign_key k v j =
     rbind (index_key k j) (\<lambda>(_, j). case j of Object m \<Rightarrow> Inr (Object (replace k v m)) | _ \<Rightarrow> Inr j)"

fun parse_internal :: "'l lexing \<Rightarrow> parser_callback option \<Rightarrow> nat \<Rightarrow> bool \<Rightarrow> 'l parser \<Rightarrow> (json \<times> 'l parser) res"
  and parse_members :: "'l lexing \<Rightarrow> parser_callback option \<Rightarrow> nat \<Rightarrow> bool \<Rightarrow> json \<Rightarrow> 'l parser \<Rightarrow> (json \<times> 'l parser) res"
  and parse_elements :: "'l lexing \<Rightarrow> parser_callback option \<Rightarrow> nat \<Rightarrow> bool \<Rightarrow> json \<Rightarrow> 'l parser \<Rightarrow> (json \<times> 'l parser) res" where
  "parse_internal ops cb 0 keep p = Inl Diverges"
| "parse_internal ops cb (Suc n) keep p =
     (case last_token p of
        begin_object \<Rightarrow>
          (case start_value cb object_start (Object []) keep p of (keep, result, p) \<Rightarrow>
            rbind (get_token ops p) (\<lambda>p.
              if last_token p = end_object then
                rbind (get_token ops p) (\<lambda>p. Inr (end_value cb object_end keep result p))
              else
                rbind (unexpect ops value_separator p) (\<lambda>_.
                rbind (parse_members ops cb n keep result p) (\<lambda>(result, p).
                rbind (expect ops end_object p) (\<lambda>_.
                rbind (get_token ops p) (\<lambda>p. Inr (end_value cb object_end keep result p)))))))
      | begin_array \<Rightarrow>
          (case start_value cb array_start (Array []) keep p of (keep, result, p) \<Rightarrow>
            rbind (get_token ops p) (\<lambda>p.
              if last_token p = end_array then
                rbind (get_token ops p) (\<lambda>p. Inr (end_value cb array_end True result p))
              else
                rbind (unexpect ops value_separator p) (\<lambda>_.
                rbind (parse_elements ops cb n keep result p) (\<lambda>(result, p).
                rbind (expect ops end_array p) (\<lambda>_.
                rbind (get_token ops p) (\<lambda>p. Inr (end_value cb array_end keep result p)))))))
      | literal_null \<Rightarrow> rbind (get_token ops p) (leaf_value cb keep Null)
      | value_string \<Rightarrow>
          rbind (string_token ops (m_lexer p)) (\<lambda>s. rbind (get_token ops p) (leaf_value cb keep (String s)))
      | literal_true \<Rightarrow> rbind (get_token ops p) (leaf_value cb keep (Boolean True))
      | literal_false \<Rightarrow> rbind (get_token ops p) (leaf_value cb keep (Boolean False))
      | value_number \<Rightarrow>
          rbind (number_token ops (m_lexer p)) (\<lambda>result. rbind (get_token ops p) (leaf_value cb keep result))
      | _ \<Rightarrow> rbind (unexpect ops (last_token p) p) (\<lambda>_. leaf_value cb keep Discarded p))"
| "parse_members ops cb 0 keep result p = Inl Diverges"
| "parse_members ops cb (Suc n) keep result p =
     rbind (if last_token p = value_separator then get_token ops p else Inr p) (\<lambda>p.
     rbind (expect ops value_string p) (\<lambda>_.
     rbind (string_token ops (m_lexer p)) (\<lambda>key.
     (let keep_tag = keep \<and> (case cb of None \<Rightarrow> True | Some f \<Rightarrow> fst (f (depth p) key_event (String key)))
      in rbind (get_token ops p) (\<lambda>p.
         rbind (expect ops name_separator p) (\<lambda>_.
         rbind (get_token ops p) (\<lambda>p.
         rbind (parse_internal ops cb n keep p) (\<lambda>(value, p).
         rbind (if keep \<and> keep_tag \<and> value \<noteq> Discarded then assign_key key value result else Inr result) (\<lambda>result.
           if last_token p = value_separator then parse_members ops cb n keep result p else Inr (result, p))))))))))"
| "parse_elements ops cb 0 keep result p = Inl Diverges"
| "parse_elements ops cb (Suc n) keep result p =
     rbind (if last_token p = value_separator then get_token ops p else Inr p) (\<lambda>p.
     rbind (parse_internal ops cb n keep p) (\<lambda>(value, p).
     rbind (if keep \<and> value \<noteq> Discarded then push_back value result else Inr result) (\<lambda>result.
       if last_token p = value_separator then parse_elements ops cb n keep result p else Inr (result, p))))"

definition parse_fuel :: "'l lexing \<Rightarrow> parser_callback option \<Rightarrow> nat \<Rightarrow> 'l parser \<Rightarrow> json res" where
  "parse_fuel ops cb n p =
     rbind (parse_internal ops cb n True p) (\<lambda>(result, p).
     rbind (expect ops end_of_input p) (\<lambda>_. Inr (if result = Discarded then Null else result)))"

text \<open>The function \<open>json::parse\<close> on a string.\<close>

definition parse :: "parser_callback option \<Rightarrow> string \<Rightarrow> json res" where
  "parse cb s = rbind (parser_of of_text (lexer_of s)) (parse_fuel of_text cb (Suc (2 * length s)))"

section \<open>Every text is parsed or refused\<close>

text \<open>What a parse may end with instead of a value.\<close>

definition refusal :: "exn \<Rightarrow> bool" where
  "refusal e \<longleftrightarrow> (\<exists>m. e = Invalid_argument m) \<or> e = Undefined Signed_overflow"

definition gives :: "'a res \<Rightarrow> ('a \<Rightarrow> bool) \<Rightarrow> bool" where
  "gives m Q \<longleftrightarrow> (case m of Inl e \<Rightarrow> refusal e | Inr x \<Rightarrow> Q x)"

lemma gives_simps [simp]: "gives (Inr x) Q \<longleftrightarrow> Q x" "gives (Inl e) Q \<longleftrightarrow> refusal e"
  by (simp_all add: gives_def)

lemma gives_bind: "gives m Q \<Longrightarrow> (\<And>x. Q x \<Longrightarrow> gives (f x) R) \<Longrightarrow> gives (rbind m f) R"
  by (cases m) simp_all

lemma gives_mono: "gives m Q \<Longrightarrow> (\<And>x. Q x \<Longrightarrow> R x) \<Longrightarrow> gives m R"
  by (cases m) simp_all

definition left :: "lexer parser \<Rightarrow> nat" where
  "left p = length (m_cursor (m_lexer p))"

text \<open>
  The state of the parser between tokens: the zero byte is ahead, unless it was taken as the end of
  the input, and the current token has a value.
\<close>

definition sound :: "lexer parser \<Rightarrow> bool" where
  "sound p \<longleftrightarrow>
     (last_token p \<noteq> end_of_input \<longrightarrow> CHR 0x00 \<in> set (m_cursor (m_lexer p))) \<and>
     (last_token p = value_string \<longrightarrow> string_result (get_string_token (m_lexer p)))"

lemma get_token_gives:
  assumes "CHR 0x00 \<in> set (m_cursor (m_lexer p))"
  shows "gives (get_token of_text p) (\<lambda>p'. sound p' \<and> left p' < left p)"
proof -
  from scan_takes_longest [OF assms] obtain t lx' ws w where
    lx': "scan (m_lexer p) = Inr (t, lx')" "m_cursor (m_lexer p) = ws @ m_start lx'" "m_start lx' = w @ m_cursor lx'"
    "if t = parse_error then length w = 1 else token_text t w" "t \<noteq> end_of_input \<longrightarrow> CHR 0x00 \<in> set (m_cursor lx')"
    by (auto split: if_splits)
  have "w \<noteq> []" using lx'(4) token_text_nonempty by (cases "t = parse_error") auto
  then have "length (m_cursor lx') < length (m_cursor (m_lexer p))" using lx'(2,3) by simp
  moreover have "t = value_string \<longrightarrow> string_result (get_string_token lx')"
    using string_token_value [OF _ assms] lx'(1) by blast
  ultimately show ?thesis using lx'(1,5) by (simp add: get_token_def sound_def left_def)
qed

lemma next_token_gives:
  "sound p \<Longrightarrow> last_token p \<noteq> end_of_input \<Longrightarrow> gives (get_token of_text p) (\<lambda>p'. sound p' \<and> left p' < left p)"
  by (rule get_token_gives) (simp add: sound_def)

lemma expect_gives: "gives (expect of_text t p) (\<lambda>_. last_token p = t)"
  by (simp add: expect_def refusal_def)

lemma unexpect_gives: "gives (unexpect of_text t p) (\<lambda>_. last_token p \<noteq> t)"
  by (simp add: unexpect_def refusal_def)

lemma string_gives: "sound p \<Longrightarrow> last_token p = value_string \<Longrightarrow> gives (get_string_token (m_lexer p)) (\<lambda>_. True)"
  by (auto simp: sound_def string_result_def gives_def refusal_def split: sum.splits)

lemma number_gives: "gives (get_number_token lx) (\<lambda>_. True)"
  by (simp add: get_number_token_def Let_def refusal_def split: prod.splits)

lemma leaf_gives: "gives (leaf_value cb keep v p) (\<lambda>(v, p'). p' = p)"
  by (simp add: leaf_value_def split: option.splits prod.splits)

lemma start_value_cases:
  assumes "start_value cb ev e keep p = (keep', r, p')"
  shows "(keep' \<longrightarrow> r = e) \<and> last_token p' = last_token p \<and> m_lexer p' = m_lexer p"
  using assms by (auto simp: start_value_def split: if_splits option.splits prod.splits)

lemma end_value_cases:
  assumes "end_value cb ev keep r p = (r', p')"
  shows "last_token p' = last_token p \<and> m_lexer p' = m_lexer p"
  using assms by (auto simp: end_value_def split: if_splits option.splits prod.splits)

lemma same_lexer: "last_token p' = last_token p \<Longrightarrow> m_lexer p' = m_lexer p \<Longrightarrow> sound p' = sound p \<and> left p' = left p"
  by (simp add: sound_def left_def)

lemma assign_key_object: "assign_key k v (Object m) = Inr (Object (replace k v (case map_of m k of Some _ \<Rightarrow> m | None \<Rightarrow> emplace k Null m)))"
  by (simp add: assign_key_def split: option.splits)

lemma end_gives:
  assumes "sound p" "last_token p \<noteq> end_of_input"
  shows "gives (rbind (get_token of_text p) (\<lambda>p. Inr (end_value cb ev keep r p))) (\<lambda>(v, p'). sound p' \<and> left p' < left p)"
proof (rule gives_bind [OF next_token_gives [OF assms]])
  fix p1 assume p1: "sound p1 \<and> left p1 < left p"
  obtain r' p' where e: "end_value cb ev keep r p1 = (r', p')" by force
  have "sound p' = sound p1 \<and> left p' = left p1" using end_value_cases [OF e] by (intro same_lexer) simp_all
  with p1 e show "gives (Inr (end_value cb ev keep r p1)) (\<lambda>(v, p'). sound p' \<and> left p' < left p)" by simp
qed

lemma leaf_step_gives:
  assumes "sound p" "last_token p \<noteq> end_of_input"
  shows "gives (rbind (get_token of_text p) (leaf_value cb keep v)) (\<lambda>(v, p'). sound p' \<and> left p' < left p)"
  by (rule gives_bind [OF next_token_gives [OF assms]]) (rule gives_mono [OF leaf_gives], auto)

lemma separator_gives:
  "sound p \<Longrightarrow> gives (if last_token p = value_separator then get_token of_text p else Inr p) (\<lambda>p'. sound p' \<and> left p' \<le> left p)"
  by (auto intro!: gives_mono [OF next_token_gives])

lemma parse_steps:
  "(sound p \<longrightarrow> n > 2 * left p \<longrightarrow>
      gives (parse_internal of_text cb n keep p) (\<lambda>(v, p'). sound p' \<and> left p' < left p))
   \<and> (sound p \<longrightarrow> n > 2 * left p + 1 \<longrightarrow> (keep \<longrightarrow> (\<exists>m. result = Object m)) \<longrightarrow>
      gives (parse_members of_text cb n keep result p) (\<lambda>(v, p'). sound p' \<and> left p' \<le> left p))
   \<and> (sound p \<longrightarrow> n > 2 * left p + 1 \<longrightarrow> (keep \<longrightarrow> (\<exists>xs. result = Array xs)) \<longrightarrow>
      gives (parse_elements of_text cb n keep result p) (\<lambda>(v, p'). sound p' \<and> left p' \<le> left p))"
proof (induction n arbitrary: keep result p)
  case (Suc n)
  show ?case
  proof (intro conjI impI)
    assume p: "sound p" "Suc n > 2 * left p"
    show "gives (parse_internal of_text cb (Suc n) keep p) (\<lambda>(v, p'). sound p' \<and> left p' < left p)"
    proof (cases "last_token p")
      case begin_object
      obtain keep1 r1 p1 where 1: "start_value cb object_start (Object []) keep p = (keep1, r1, p1)"
        by (metis prod_cases3)
      note sv = start_value_cases [OF this]
      have "sound p1 = sound p \<and> left p1 = left p" using sv by (intro same_lexer) simp_all
      with sv p begin_object have s1: "sound p1" "left p1 = left p" "last_token p1 \<noteq> end_of_input"
        "keep1 \<longrightarrow> r1 = Object []" by simp_all
      show ?thesis
        unfolding parse_internal.simps begin_object token_type.case 1 prod.case
      proof (rule gives_bind [OF next_token_gives [OF s1(1,3)]])
        fix p2 assume p2: "sound p2 \<and> left p2 < left p1"
        have "gives (rbind (parse_members of_text cb n keep1 r1 p2) (\<lambda>(result, p). rbind (expect of_text end_object p)
            (\<lambda>_. rbind (get_token of_text p) (\<lambda>p. Inr (end_value cb object_end keep1 result p)))))
            (\<lambda>(v, p'). sound p' \<and> left p' < left p)"
        proof (rule gives_bind)
          show "gives (parse_members of_text cb n keep1 r1 p2) (\<lambda>(v, p'). sound p' \<and> left p' \<le> left p2)"
            using Suc.IH [of p2 keep1 r1] p p2 s1 by auto
        qed (use p2 s1 in \<open>auto intro!: gives_bind [OF expect_gives] gives_mono [OF end_gives]\<close>)
        moreover have "gives (rbind (get_token of_text p2) (\<lambda>p. Inr (end_value cb object_end keep1 r1 p)))
            (\<lambda>(v, p'). sound p' \<and> left p' < left p)" if "last_token p2 = end_object"
          by (rule gives_mono [OF end_gives]) (use p2 s1 that in auto)
        ultimately show "gives (if last_token p2 = end_object
            then rbind (get_token of_text p2) (\<lambda>p. Inr (end_value cb object_end keep1 r1 p))
            else rbind (unexpect of_text value_separator p2) (\<lambda>_. rbind (parse_members of_text cb n keep1 r1 p2)
              (\<lambda>(result, p). rbind (expect of_text end_object p)
                 (\<lambda>_. rbind (get_token of_text p) (\<lambda>p. Inr (end_value cb object_end keep1 result p))))))
            (\<lambda>(v, p'). sound p' \<and> left p' < left p)"
          by (auto intro!: gives_bind [OF unexpect_gives])
      qed
    next
      case begin_array
      obtain keep1 r1 p1 where 1: "start_value cb array_start (Array []) keep p = (keep1, r1, p1)"
        by (metis prod_cases3)
      note sv = start_value_cases [OF this]
      have "sound p1 = sound p \<and> left p1 = left p" using sv by (intro same_lexer) simp_all
      with sv p begin_array have s1: "sound p1" "left p1 = left p" "last_token p1 \<noteq> end_of_input"
        "keep1 \<longrightarrow> r1 = Array []" by simp_all
      show ?thesis
        unfolding parse_internal.simps begin_array token_type.case 1 prod.case
      proof (rule gives_bind [OF next_token_gives [OF s1(1,3)]])
        fix p2 assume p2: "sound p2 \<and> left p2 < left p1"
        have "gives (rbind (parse_elements of_text cb n keep1 r1 p2) (\<lambda>(result, p). rbind (expect of_text end_array p)
            (\<lambda>_. rbind (get_token of_text p) (\<lambda>p. Inr (end_value cb array_end keep1 result p)))))
            (\<lambda>(v, p'). sound p' \<and> left p' < left p)"
        proof (rule gives_bind)
          show "gives (parse_elements of_text cb n keep1 r1 p2) (\<lambda>(v, p'). sound p' \<and> left p' \<le> left p2)"
            using Suc.IH [of p2 keep1 r1] p p2 s1 by auto
        qed (use p2 s1 in \<open>auto intro!: gives_bind [OF expect_gives] gives_mono [OF end_gives]\<close>)
        moreover have "gives (rbind (get_token of_text p2) (\<lambda>p. Inr (end_value cb array_end True r1 p)))
            (\<lambda>(v, p'). sound p' \<and> left p' < left p)" if "last_token p2 = end_array"
          by (rule gives_mono [OF end_gives]) (use p2 s1 that in auto)
        ultimately show "gives (if last_token p2 = end_array
            then rbind (get_token of_text p2) (\<lambda>p. Inr (end_value cb array_end True r1 p))
            else rbind (unexpect of_text value_separator p2) (\<lambda>_. rbind (parse_elements of_text cb n keep1 r1 p2)
              (\<lambda>(result, p). rbind (expect of_text end_array p)
                 (\<lambda>_. rbind (get_token of_text p) (\<lambda>p. Inr (end_value cb array_end keep1 result p))))))
            (\<lambda>(v, p'). sound p' \<and> left p' < left p)"
          by (auto intro!: gives_bind [OF unexpect_gives])
      qed
    next
      case value_string
      then show ?thesis using p by (auto intro!: gives_bind [OF string_gives] leaf_step_gives)
    next
      case value_number
      then show ?thesis using p by (auto intro!: gives_bind [OF number_gives] leaf_step_gives)
    qed (use p in \<open>auto intro!: leaf_step_gives gives_bind [OF unexpect_gives]\<close>)
  next
    assume p: "sound p" "Suc n > 2 * left p + 1" "keep \<longrightarrow> (\<exists>m. result = Object m)"
    show "gives (parse_members of_text cb (Suc n) keep result p) (\<lambda>(v, p'). sound p' \<and> left p' \<le> left p)"
      unfolding parse_members.simps of_text_simps
    proof (rule gives_bind [OF separator_gives [OF p(1)]])
      fix p1 assume p1: "sound p1 \<and> left p1 \<le> left p"
      let ?tag = "\<lambda>key. keep \<and> (case cb of None \<Rightarrow> True | Some f \<Rightarrow> fst (f (depth p1) key_event (String key)))"
      have rest: "gives (rbind (if keep \<and> tag \<and> val \<noteq> Discarded then assign_key key val result else Inr result)
             (\<lambda>result. if last_token p4 = value_separator then parse_members of_text cb n keep result p4 else Inr (result, p4)))
             (\<lambda>(v, p'). sound p' \<and> left p' \<le> left p)"
        if "sound p4" "left p4 < left p" for p4 tag key val
      proof (rule gives_bind)
        show "gives (if keep \<and> tag \<and> val \<noteq> Discarded then assign_key key val result else Inr result)
            (\<lambda>result. keep \<longrightarrow> (\<exists>m. result = Object m))"
          using p(3) by (auto simp: assign_key_object)
      next
        fix result assume "keep \<longrightarrow> (\<exists>m. result = Object m)"
        with Suc.IH [of p4 keep result] that p(2)
        show "gives (if last_token p4 = value_separator then parse_members of_text cb n keep result p4 else Inr (result, p4))
            (\<lambda>(v, p'). sound p' \<and> left p' \<le> left p)"
          by (auto elim!: gives_mono)
      qed
      have name: "gives (rbind (get_token of_text p1) (\<lambda>p. rbind (expect of_text name_separator p) (\<lambda>_. rbind (get_token of_text p)
          (\<lambda>p. rbind (parse_internal of_text cb n keep p) (\<lambda>(val, p).
            rbind (if keep \<and> tag \<and> val \<noteq> Discarded then assign_key key val result else Inr result)
             (\<lambda>result. if last_token p = value_separator then parse_members of_text cb n keep result p else Inr (result, p)))))))
          (\<lambda>(v, p'). sound p' \<and> left p' \<le> left p)" if "last_token p1 = value_string" for tag key
      proof (rule gives_bind [OF next_token_gives], goal_cases)
        case (3 p2)
        show ?case
        proof (rule gives_bind [OF expect_gives], rule gives_bind [OF next_token_gives], goal_cases)
          case (3 _ p3)
          show ?case
          proof (rule gives_bind)
            show "gives (parse_internal of_text cb n keep p3) (\<lambda>(v, p'). sound p' \<and> left p' < left p3)"
              using Suc.IH [of p3 keep] p(2) p1 3 \<open>sound p2 \<and> left p2 < left p1\<close> by simp
          qed (use 3 p1 \<open>sound p2 \<and> left p2 < left p1\<close> in \<open>auto intro!: rest\<close>)
        qed (use 3 in simp_all)
      qed (use p1 that in simp_all)
      show "gives (rbind (expect of_text value_string p1) (\<lambda>_. rbind (get_string_token (m_lexer p1)) (\<lambda>key.
          let keep_tag = ?tag key in rbind (get_token of_text p1) (\<lambda>p. rbind (expect of_text name_separator p) (\<lambda>_. rbind (get_token of_text p)
          (\<lambda>p. rbind (parse_internal of_text cb n keep p) (\<lambda>(val, p).
            rbind (if keep \<and> keep_tag \<and> val \<noteq> Discarded then assign_key key val result else Inr result)
             (\<lambda>result. if last_token p = value_separator then parse_members of_text cb n keep result p else Inr (result, p)))))))))
          (\<lambda>(v, p'). sound p' \<and> left p' \<le> left p)"
        unfolding Let_def
        by (rule gives_bind [OF expect_gives], rule gives_bind [OF string_gives]) (use p1 name in auto)
    qed
  next
    assume p: "sound p" "Suc n > 2 * left p + 1" "keep \<longrightarrow> (\<exists>xs. result = Array xs)"
    show "gives (parse_elements of_text cb (Suc n) keep result p) (\<lambda>(v, p'). sound p' \<and> left p' \<le> left p)"
      unfolding parse_elements.simps
    proof (rule gives_bind [OF separator_gives [OF p(1)]], rule gives_bind)
      fix p1 assume p1: "sound p1 \<and> left p1 \<le> left p"
      then show "gives (parse_internal of_text cb n keep p1) (\<lambda>(v, p'). sound p' \<and> left p' < left p1)"
        using Suc.IH [of p1 keep] p(2) by simp
      fix vp :: "json \<times> lexer parser" assume vp: "case vp of (v, p') \<Rightarrow> sound p' \<and> left p' < left p1"
      obtain v p2 where v: "vp = (v, p2)" by force
      show "gives (case vp of (val, p) \<Rightarrow> rbind (if keep \<and> val \<noteq> Discarded then push_back val result else Inr result)
             (\<lambda>result. if last_token p = value_separator then parse_elements of_text cb n keep result p else Inr (result, p)))
             (\<lambda>(v, p'). sound p' \<and> left p' \<le> left p)"
        unfolding v prod.case
      proof (rule gives_bind)
        show "gives (if keep \<and> v \<noteq> Discarded then push_back v result else Inr result) (\<lambda>result. keep \<longrightarrow> (\<exists>xs. result = Array xs))"
          using p(3) by auto
      next
        fix result assume "keep \<longrightarrow> (\<exists>xs. result = Array xs)"
        with Suc.IH [of p2 keep result] vp v p1 p(2)
        show "gives (if last_token p2 = value_separator then parse_elements of_text cb n keep result p2 else Inr (result, p2))
            (\<lambda>(v, p'). sound p' \<and> left p' \<le> left p)"
          by (auto elim!: gives_mono)
      qed
    qed
  qed
qed simp


text \<open>
  The depth is increased for an object that the callback discards at its start, and not decreased at its end: a
  callback that drops objects, and values deeper than the first level, loses the 7 of
  \<open>[{}, 7]\<close> and keeps that of \<open>[[], 7]\<close>.
\<close>

definition drop_objects :: parser_callback where
  "drop_objects d e j = (e \<noteq> object_start \<and> \<not> (e = value_event \<and> d \<ge> 2), j)"

theorem callback_depth_drifts:
  "parse (Some drop_objects) ''[{},7]'' = Inr (Array [])
    \<and> parse (Some drop_objects) ''[[],7]'' = Inr (Array [Array [], Number_unsigned 7])"
  by code_simp

end
