(* ===== verification/JsonStreamParser.thy ===== *)
theory JsonStreamParser
  imports JsonStream JsonParser
begin

text \<open>
  The parser of \<open>json.hpp\<close> on a stream (\<open>parse\<close> and \<open>operator>>\<close>): the values of tokens in the buffer of
  a stream, and the proof that the parser cannot tell a stream from its text. The locale
  \<open>lexer_refinement\<close> is what a parser needs of two lexers for this.
\<close>

section \<open>The lexer of a stream\<close>

definition stream_string :: "stream_lexer \<Rightarrow> string res" where
  "stream_string lx =
     (if length (m_start (sc lx)) < length (m_cursor (sc lx)) + 2 then Inl (Assertion ''m_cursor - m_start >= 2'')
      else get_string_loop (after_limit lx) (m_cursor (sc lx)) (tl (m_start (sc lx))) [])"

definition of_stream :: "stream_lexer lexing" where
  "of_stream = \<lparr>next_token = stream_scan, token_string = stream_token_string, string_token = stream_string,
     number_token = (\<lambda>lx. get_number_token (lexer.truncate (sc lx)))\<rparr>"

lemma of_stream_simps [simp]:
  "next_token of_stream = stream_scan" "token_string of_stream = stream_token_string"
  "string_token of_stream = stream_string"
  "number_token of_stream = (\<lambda>lx. get_number_token (lexer.truncate (sc lx)))"
  by (simp_all add: of_stream_def)

text \<open>The function \<open>json::parse\<close> on a stream.\<close>

definition parse_stream :: "parser_callback option \<Rightarrow> istream \<Rightarrow> json res" where
  "parse_stream cb i =
     rbind (parser_of of_stream (stream_lexer_of i))
       (parse_fuel of_stream cb (Suc (2 * length (lines_text (st_rest i)))))"

section \<open>Parsers over two lexers\<close>

text \<open>A result that corresponds to another one through \<open>f\<close>, with \<open>P\<close> for its value.\<close>

definition matches :: "('a \<Rightarrow> bool) \<Rightarrow> ('a \<Rightarrow> 'b) \<Rightarrow> 'a res \<Rightarrow> 'b res \<Rightarrow> bool" where
  "matches P f r r' \<longleftrightarrow> r' = rmap f r \<and> (\<forall>x. r = Inr x \<longrightarrow> P x)"

lemma matches_simps [simp]:
  "matches P f (Inr x) r' \<longleftrightarrow> r' = Inr (f x) \<and> P x" "matches P f (Inl e) r' \<longleftrightarrow> r' = Inl e"
  by (auto simp: matches_def)

lemma matches_bind:
  assumes "matches P f r r'" "\<And>x. P x \<Longrightarrow> matches Q g (k x) (k' (f x))"
  shows "matches Q g (rbind r k) (rbind r' k')"
  using assms(1) by (cases r) (simp_all add: assms(2))

lemma matches_same: "(\<And>x. matches Q g (k x) (k' x)) \<Longrightarrow> matches Q g (rbind r k) (rbind r k')"
  by (cases r) simp_all

definition map_lexer :: "('a \<Rightarrow> 'b) \<Rightarrow> 'a parser \<Rightarrow> 'b parser" where
  "map_lexer f p = \<lparr>depth = depth p, last_token = last_token p, m_lexer = f (m_lexer p)\<rparr>"

lemma map_lexer_simps [simp]:
  "depth (map_lexer f p) = depth p" "last_token (map_lexer f p) = last_token p"
  "m_lexer (map_lexer f p) = f (m_lexer p)"
  "(map_lexer f p)\<lparr>depth := d\<rparr> = map_lexer f (p\<lparr>depth := d\<rparr>)"
  by (simp_all add: map_lexer_def)

text \<open>
  The lexer \<open>ops\<close> gives the tokens that \<open>ops'\<close> gives, with the same texts and values, if its state is
  taken to one of \<open>ops'\<close> by \<open>abs\<close>.
\<close>

locale lexer_refinement =
  fixes ops :: "'a lexing" and ops' :: "'b lexing" and abs :: "'a \<Rightarrow> 'b" and inv :: "'a \<Rightarrow> bool"
  assumes next_same: "inv lx \<Longrightarrow> matches (\<lambda>(t, lx). inv lx) (\<lambda>(t, lx). (t, abs lx)) (next_token ops lx) (next_token ops' (abs lx))"
    and text_same: "inv lx \<Longrightarrow> token_string ops' (abs lx) = token_string ops lx"
    and string_same: "inv lx \<Longrightarrow> next_token ops lx = Inr (value_string, lx') \<Longrightarrow> string_token ops' (abs lx') = string_token ops lx'"
    and number_same: "inv lx \<Longrightarrow> next_token ops lx = Inr (value_number, lx') \<Longrightarrow> number_token ops' (abs lx') = number_token ops lx'"

context lexer_refinement
begin

abbreviation "abs_parser \<equiv> map_lexer abs"

abbreviation lexed :: "'a parser \<Rightarrow> bool" where
  "lexed p \<equiv> inv (m_lexer p)
   \<and> (last_token p = value_string \<longrightarrow> string_token ops' (abs (m_lexer p)) = string_token ops (m_lexer p))
   \<and> (last_token p = value_number \<longrightarrow> number_token ops' (abs (m_lexer p)) = number_token ops (m_lexer p))"

abbreviation "parses \<equiv> matches (\<lambda>(v, p). lexed p) (\<lambda>(v, p). (v, abs_parser p))"

lemma get_token_same:
  assumes "lexed p"
  shows "matches lexed abs_parser (get_token ops p) (get_token ops' (abs_parser p))"
  unfolding get_token_def map_lexer_simps
proof (rule matches_bind)
  show "matches (\<lambda>(t, lx). inv lx \<and> next_token ops (m_lexer p) = Inr (t, lx)) (\<lambda>(t, lx). (t, abs lx))
      (next_token ops (m_lexer p)) (next_token ops' (abs (m_lexer p)))"
    using next_same assms by (auto simp: matches_def)
qed (use assms string_same number_same in \<open>auto simp: map_lexer_def\<close>)

lemma messages_same:
  assumes "lexed p"
  shows "unexpected ops' (abs_parser p) = unexpected ops p" "expect ops' t (abs_parser p) = expect ops t p"
    "unexpect ops' t (abs_parser p) = unexpect ops t p"
  using assms text_same by (simp_all add: unexpected_def expect_def unexpect_def)

lemma start_value_same:
  "start_value cb ev e keep (abs_parser p) = (case start_value cb ev e keep p of (k, r, p) \<Rightarrow> (k, r, abs_parser p))"
  by (auto simp: start_value_def split: option.splits prod.splits)

lemma end_value_same:
  "end_value cb ev keep r (abs_parser p) = (case end_value cb ev keep r p of (r, p) \<Rightarrow> (r, abs_parser p))"
  by (auto simp: end_value_def split: option.splits prod.splits)

lemma leaf_value_same: "lexed p \<Longrightarrow> parses (leaf_value cb keep r p) (leaf_value cb keep r (abs_parser p))"
  by (auto simp: leaf_value_def split: option.splits prod.splits)

lemma token_then:
  assumes "lexed p" "\<And>p. lexed p \<Longrightarrow> matches Q g (k p) (k' (abs_parser p))"
  shows "matches Q g (rbind (get_token ops p) k) (rbind (get_token ops' (abs_parser p)) k')"
  by (rule matches_bind [OF get_token_same [OF assms(1)]]) (rule assms(2))

lemma end_same:
  "lexed p \<Longrightarrow> parses (rbind (get_token ops p) (\<lambda>p. Inr (end_value cb ev keep r p)))
     (rbind (get_token ops' (abs_parser p)) (\<lambda>p. Inr (end_value cb ev keep r p)))"
  by (rule token_then) (auto simp: end_value_same end_value_cases split: prod.splits)

lemma parses_then:
  assumes "parses m m'" "\<And>v p. lexed p \<Longrightarrow> parses (k (v, p)) (k' (v, abs_parser p))"
  shows "parses (rbind m k) (rbind m' k')"
  by (rule matches_bind [OF assms(1)]) (use assms(2) in auto)

lemma body_same:
  assumes "lexed p" "\<And>p. lexed p \<Longrightarrow> parses (body p) (body' (abs_parser p))"
  shows "parses
     (rbind (get_token ops p) (\<lambda>p. if last_token p = t
        then rbind (get_token ops p) (\<lambda>p. Inr (end_value cb ev k1 r p))
        else rbind (unexpect ops value_separator p) (\<lambda>_. rbind (body p) (\<lambda>(r, p).
          rbind (expect ops t p) (\<lambda>_. rbind (get_token ops p) (\<lambda>p. Inr (end_value cb ev k2 r p)))))))
     (rbind (get_token ops' (abs_parser p)) (\<lambda>p. if last_token p = t
        then rbind (get_token ops' p) (\<lambda>p. Inr (end_value cb ev k1 r p))
        else rbind (unexpect ops' value_separator p) (\<lambda>_. rbind (body' p) (\<lambda>(r, p).
          rbind (expect ops' t p) (\<lambda>_. rbind (get_token ops' p) (\<lambda>p. Inr (end_value cb ev k2 r p)))))))"
proof (rule token_then [OF assms(1)])
  fix p assume p: "lexed p"
  have "parses (rbind (unexpect ops value_separator p) (\<lambda>_. rbind (body p) (\<lambda>(r, p).
          rbind (expect ops t p) (\<lambda>_. rbind (get_token ops p) (\<lambda>p. Inr (end_value cb ev k2 r p))))))
      (rbind (unexpect ops' value_separator (abs_parser p)) (\<lambda>_. rbind (body' (abs_parser p)) (\<lambda>(r, p).
          rbind (expect ops' t p) (\<lambda>_. rbind (get_token ops' p) (\<lambda>p. Inr (end_value cb ev k2 r p))))))"
    unfolding messages_same [OF p]
  proof (rule matches_same, rule parses_then [OF assms(2) [OF p]])
    fix v p assume p: "lexed p"
    show "parses (case (v, p) of (r, p) \<Rightarrow> rbind (expect ops t p)
           (\<lambda>_. rbind (get_token ops p) (\<lambda>p. Inr (end_value cb ev k2 r p))))
        (case (v, abs_parser p) of (r, p) \<Rightarrow> rbind (expect ops' t p)
           (\<lambda>_. rbind (get_token ops' p) (\<lambda>p. Inr (end_value cb ev k2 r p))))"
      unfolding prod.case messages_same [OF p] by (rule matches_same) (rule end_same [OF p])
  qed
  with end_same [OF p] show "parses
      (if last_token p = t then rbind (get_token ops p) (\<lambda>p. Inr (end_value cb ev k1 r p))
        else rbind (unexpect ops value_separator p) (\<lambda>_. rbind (body p) (\<lambda>(r, p).
          rbind (expect ops t p) (\<lambda>_. rbind (get_token ops p) (\<lambda>p. Inr (end_value cb ev k2 r p))))))
      (if last_token (abs_parser p) = t then rbind (get_token ops' (abs_parser p)) (\<lambda>p. Inr (end_value cb ev k1 r p))
        else rbind (unexpect ops' value_separator (abs_parser p)) (\<lambda>_. rbind (body' (abs_parser p)) (\<lambda>(r, p).
          rbind (expect ops' t p) (\<lambda>_. rbind (get_token ops' p) (\<lambda>p. Inr (end_value cb ev k2 r p))))))"
    by simp
qed

lemma value_same:
  assumes "lexed p"
    and members: "\<And>keep r p. lexed p \<Longrightarrow> parses (parse_members ops cb n keep r p) (parse_members ops' cb n keep r (abs_parser p))"
    and elements: "\<And>keep r p. lexed p \<Longrightarrow> parses (parse_elements ops cb n keep r p) (parse_elements ops' cb n keep r (abs_parser p))"
  shows "parses (parse_internal ops cb (Suc n) keep p) (parse_internal ops' cb (Suc n) keep (abs_parser p))"
proof (cases "last_token p")
  case begin_object
  obtain keep1 r1 p1 where 1: "start_value cb object_start (Object []) keep p = (keep1, r1, p1)" by (metis prod_cases3)
  then have "lexed p1" using assms(1) start_value_cases [OF 1] by simp
  then show ?thesis unfolding parse_internal.simps map_lexer_simps begin_object token_type.case start_value_same 1 prod.case
    by (rule body_same) (rule members)
next
  case begin_array
  obtain keep1 r1 p1 where 1: "start_value cb array_start (Array []) keep p = (keep1, r1, p1)" by (metis prod_cases3)
  then have "lexed p1" using assms(1) start_value_cases [OF 1] by simp
  then show ?thesis unfolding parse_internal.simps map_lexer_simps begin_array token_type.case start_value_same 1 prod.case
    by (rule body_same) (rule elements)
qed (use assms(1) in \<open>simp_all add: messages_same matches_same token_then leaf_value_same\<close>)

lemma separator_same:
  "lexed p \<Longrightarrow> matches lexed abs_parser (if last_token p = value_separator then get_token ops p else Inr p)
     (if last_token (abs_parser p) = value_separator then get_token ops' (abs_parser p) else Inr (abs_parser p))"
  using get_token_same [of p] by simp

lemma rounds_same:
  assumes internal: "\<And>keep p. lexed p \<Longrightarrow> parses (parse_internal ops cb n keep p) (parse_internal ops' cb n keep (abs_parser p))"
    and members: "\<And>keep r p. lexed p \<Longrightarrow> parses (parse_members ops cb n keep r p) (parse_members ops' cb n keep r (abs_parser p))"
    and elements: "\<And>keep r p. lexed p \<Longrightarrow> parses (parse_elements ops cb n keep r p) (parse_elements ops' cb n keep r (abs_parser p))"
    and p: "lexed p"
  shows "parses (parse_members ops cb (Suc n) keep r p) (parse_members ops' cb (Suc n) keep r (abs_parser p))"
    and "parses (parse_elements ops cb (Suc n) keep r p) (parse_elements ops' cb (Suc n) keep r (abs_parser p))"
proof -
  show "parses (parse_elements ops cb (Suc n) keep r p) (parse_elements ops' cb (Suc n) keep r (abs_parser p))"
    unfolding parse_elements.simps
  proof (rule matches_bind [OF separator_same [OF p]])
    fix p assume p: "lexed p"
    show "parses (rbind (parse_internal ops cb n keep p) (\<lambda>(v, p). rbind (if keep \<and> v \<noteq> Discarded then push_back v r else Inr r)
            (\<lambda>r. if last_token p = value_separator then parse_elements ops cb n keep r p else Inr (r, p))))
        (rbind (parse_internal ops' cb n keep (abs_parser p)) (\<lambda>(v, p). rbind (if keep \<and> v \<noteq> Discarded then push_back v r else Inr r)
            (\<lambda>r. if last_token p = value_separator then parse_elements ops' cb n keep r p else Inr (r, p))))"
      by (rule parses_then [OF internal [OF p]]) (auto intro!: matches_same elements)
  qed
  show "parses (parse_members ops cb (Suc n) keep r p) (parse_members ops' cb (Suc n) keep r (abs_parser p))"
    unfolding parse_members.simps
  proof (rule matches_bind [OF separator_same [OF p]])
    fix p assume p: "lexed p"
    show "parses (rbind (expect ops value_string p) (\<lambda>_. rbind (string_token ops (m_lexer p)) (\<lambda>key.
        (let keep_tag = keep \<and> (case cb of None \<Rightarrow> True | Some f \<Rightarrow> fst (f (depth p) key_event (String key)))
         in rbind (get_token ops p) (\<lambda>p. rbind (expect ops name_separator p) (\<lambda>_. rbind (get_token ops p) (\<lambda>p.
            rbind (parse_internal ops cb n keep p) (\<lambda>(v, p).
            rbind (if keep \<and> keep_tag \<and> v \<noteq> Discarded then assign_key key v r else Inr r) (\<lambda>r.
              if last_token p = value_separator then parse_members ops cb n keep r p else Inr (r, p))))))))))
      (rbind (expect ops' value_string (abs_parser p)) (\<lambda>_. rbind (string_token ops' (m_lexer (abs_parser p))) (\<lambda>key.
        (let keep_tag = keep \<and> (case cb of None \<Rightarrow> True | Some f \<Rightarrow> fst (f (depth (abs_parser p)) key_event (String key)))
         in rbind (get_token ops' (abs_parser p)) (\<lambda>p. rbind (expect ops' name_separator p) (\<lambda>_. rbind (get_token ops' p) (\<lambda>p.
            rbind (parse_internal ops' cb n keep p) (\<lambda>(v, p).
            rbind (if keep \<and> keep_tag \<and> v \<noteq> Discarded then assign_key key v r else Inr r) (\<lambda>r.
              if last_token p = value_separator then parse_members ops' cb n keep r p else Inr (r, p))))))))))"
    proof (cases "last_token p = value_string")
      case True
      then have str: "string_token ops' (abs (m_lexer p)) = string_token ops (m_lexer p)" using p by simp
      show ?thesis unfolding messages_same [OF p] map_lexer_simps str Let_def
      proof (intro matches_same token_then [OF p])
        fix key p assume p: "lexed p"
        show "parses (rbind (expect ops name_separator p) (\<lambda>_. rbind (get_token ops p) (\<lambda>p.
            rbind (parse_internal ops cb n keep p) (\<lambda>(v, p).
            rbind (if keep \<and> tag \<and> v \<noteq> Discarded then assign_key key v r else Inr r) (\<lambda>r.
              if last_token p = value_separator then parse_members ops cb n keep r p else Inr (r, p))))))
          (rbind (expect ops' name_separator (abs_parser p)) (\<lambda>_. rbind (get_token ops' (abs_parser p)) (\<lambda>p.
            rbind (parse_internal ops' cb n keep p) (\<lambda>(v, p).
            rbind (if keep \<and> tag \<and> v \<noteq> Discarded then assign_key key v r else Inr r) (\<lambda>r.
              if last_token p = value_separator then parse_members ops' cb n keep r p else Inr (r, p))))))" for tag
          unfolding messages_same [OF p]
          by (intro matches_same token_then [OF p], rule parses_then [OF internal]) (auto intro!: matches_same members)
      qed
    next
      case False
      then show ?thesis unfolding messages_same [OF p] by (simp add: expect_def)
    qed
  qed
qed

lemma parse_same:
  "(lexed p \<longrightarrow> parses (parse_internal ops cb n keep p) (parse_internal ops' cb n keep (abs_parser p)))
   \<and> (lexed p \<longrightarrow> parses (parse_members ops cb n keep r p) (parse_members ops' cb n keep r (abs_parser p)))
   \<and> (lexed p \<longrightarrow> parses (parse_elements ops cb n keep r p) (parse_elements ops' cb n keep r (abs_parser p)))"
proof (induction n arbitrary: keep r p)
  case (Suc n)
  show ?case using value_same rounds_same Suc.IH by presburger
qed simp

lemma parse_fuel_same:
  assumes "lexed p"
  shows "parse_fuel ops' cb n (abs_parser p) = parse_fuel ops cb n p"
proof -
  have "parses (parse_internal ops cb n True p) (parse_internal ops' cb n True (abs_parser p))"
    using parse_same assms by blast
  then show ?thesis
    by (cases "parse_internal ops cb n True p") (auto simp: parse_fuel_def messages_same split: prod.splits)
qed

lemma parser_of_same:
  assumes "inv lx"
  shows "rbind (parser_of ops' (abs lx)) (parse_fuel ops' cb n) = rbind (parser_of ops lx) (parse_fuel ops cb n)"
proof -
  let ?p = "\<lparr>depth = 0, last_token = uninitialized, m_lexer = lx\<rparr>"
  have "matches lexed abs_parser (get_token ops ?p) (get_token ops' (abs_parser ?p))"
    by (rule get_token_same) (simp add: assms)
  then show ?thesis
    by (cases "get_token ops ?p") (simp_all add: parser_of_def map_lexer_def parse_fuel_same [unfolded map_lexer_def])
qed

end

section \<open>A stream and its text\<close>

text \<open>\<open>strtod\<close> reads no further than a character that is in no number.\<close>

definition stops :: "char \<Rightarrow> bool" where
  "stops c \<longleftrightarrow> \<not> isdigit c \<and> c \<notin> set ''+-.eE''"

lemma stops_take:
  assumes "stops c"
  shows "takeWhile isdigit (v @ c # x) = takeWhile isdigit v" "dropWhile isdigit (v @ c # x) = dropWhile isdigit v @ c # x"
    "k \<in> set ''+-.eE'' \<Longrightarrow> take 1 (v @ c # x) = [k] \<longleftrightarrow> take 1 v = [k]"
    "take 1 v = [k] \<Longrightarrow> drop 1 (v @ c # x) = drop 1 v @ c # x"
proof -
  show "takeWhile isdigit (v @ c # x) = takeWhile isdigit v" "dropWhile isdigit (v @ c # x) = dropWhile isdigit v @ c # x"
    using assms by (induction v) (auto simp: stops_def)
  show "k \<in> set ''+-.eE'' \<Longrightarrow> take 1 (v @ c # x) = [k] \<longleftrightarrow> take 1 v = [k]"
    using assms by (cases v) (auto simp: stops_def)
qed (cases v; simp)

lemma strtod_stops:
  assumes "stops c" "u \<noteq> []" "\<not> isspace (hd u)"
  shows "strtod (u @ c # x) = strtod u"
proof -
  note t = stops_take [OF assms(1)]
  have sp: "dropWhile isspace (u @ c # x) = u @ c # x" "dropWhile isspace u = u" using assms(2,3) by (cases u; simp)+
  have sgn: "take 1 (v @ c # x) = ''-'' \<longleftrightarrow> take 1 v = ''-''" "take 1 (v @ c # x) = ''+'' \<longleftrightarrow> take 1 v = ''+''"
    "take 1 (v @ c # x) = ''.'' \<longleftrightarrow> take 1 v = ''.''" "take 1 (v @ c # x) = ''e'' \<longleftrightarrow> take 1 v = ''e''"
    "take 1 (v @ c # x) = ''E'' \<longleftrightarrow> take 1 v = ''E''" for v
    by (rule t(3); simp)+
  define sign where "sign s = (if take 1 s = ''-'' \<or> take 1 s = ''+'' then drop 1 s else s)" for s
  have sign: "sign (v @ c # x) = sign v @ c # x" for v by (auto simp: sign_def sgn t(4) simp del: take_append drop_append One_nat_def)
  define frac where "frac s = (if take 1 s = ''.'' then takeWhile isdigit (drop 1 s) else [])" for s
  have frac: "frac (v @ c # x) = frac v" for v by (auto simp: frac_def sgn t(1,4) simp del: take_append drop_append One_nat_def)
  define rest where "rest s = (if take 1 s = ''.'' then dropWhile isdigit (drop 1 s) else s)" for s
  have rest: "rest (v @ c # x) = rest v @ c # x" for v by (auto simp: rest_def sgn t(2,4) simp del: take_append drop_append One_nat_def)
  define exps where "exps s = (let ep = (if take 1 s = ''e'' \<or> take 1 s = ''E'' then drop 1 s else [])
     in (take 1 ep = ''-'', takeWhile isdigit (sign ep)))" for s
  have exps: "exps (v @ c # x) = exps v" for v by (auto simp: exps_def sgn t(1,4) sign Let_def simp del: take_append drop_append One_nat_def)
  have "strtod s = (let s = dropWhile isspace s; d = sign s; ip = takeWhile isdigit d; d = dropWhile isdigit d;
       fp = frac d; eneg = fst (exps (rest d)); ed = snd (exps (rest d));
       ev = (if eneg then - int (digits_val ed) else int (digits_val ed)) - int (length fp); m = digits_val (ip @ fp)
     in d_signed (take 1 s = ''-'') (if ev \<ge> 0 then d_of_ratio (m * 10 ^ nat ev) 1 else d_of_ratio m (10 ^ nat (- ev))))" for s
    unfolding strtod_def sign_def frac_def rest_def exps_def Let_def fst_conv snd_conv by (rule refl)
  then show ?thesis unfolding sp by (simp add: sp sgn sign frac rest exps t(1,2) Let_def del: take_append drop_append One_nat_def)
qed

text \<open>What the scanner finds in the buffer is what it finds in the text.\<close>

definition stream_live :: "stream_lexer \<Rightarrow> bool" where
  "stream_live lx \<longleftrightarrow> stream_inv 1 lx \<and> (cursor lx = [] \<or> in_buffer (cursor lx))"

lemma text_lexer_pointers [simp]:
  "m_start (text_lexer lx) = insert_text (left_text lx) (m_start (sc lx))"
  "m_cursor (text_lexer lx) = insert_text (left_text lx) (cursor lx)"
  by (simp_all add: text_lexer_def joined_def lexer.defs map_pointers_def)

lemma scan_nothing: "m_cursor lx = [] \<Longrightarrow> scan lx \<noteq> Inr r"
  by (simp add: scan_def scan_loop.simps dfa_def basic_json_parser_1_def load_def lexer.defs)

lemma stream_live_text: "stream_live lx \<Longrightarrow> cursor lx \<noteq> [] \<Longrightarrow> CHR 0x00 \<in> set (m_cursor (text_lexer lx))"
  by (auto simp: stream_live_def insert_text_def in_buffer_def)

lemma stream_scanned:
  assumes "stream_live lx" "stream_scan lx = Inr (t, lx')"
  obtains w where "m_start (sc lx') = w @ cursor lx'" "t = parse_error \<or> token_text t w" "w \<noteq> []"
    "stream_live lx'" "m_start (text_lexer lx') = w @ m_cursor (text_lexer lx')"
    "left_text lx' \<noteq> [] \<longrightarrow> in_buffer (cursor lx')"
proof -
  have inv: "stream_inv 1 lx" using assms(1) by (simp add: stream_live_def)
  from stream_scan_text [OF this] assms(2) have sc: "scan (text_lexer lx) = Inr (t, text_lexer lx')" and inv': "stream_inv 1 lx'"
    by auto
  have ne: "cursor lx \<noteq> []"
  proof
    assume e: "cursor lx = []"
    with inv have "left_text lx = []" by (auto simp: stream_inv_def pointers_ok_def in_buffer_def)
    with e have "m_cursor (text_lexer lx) = []" by simp
    with sc scan_nothing show False by blast
  qed
  from scan_takes_longest [OF stream_live_text [OF assms(1) ne]] obtain t1 l1 ws w where
    w1: "scan (text_lexer lx) = Inr (t1, l1)" "m_cursor (text_lexer lx) = ws @ m_start l1" "m_start l1 = w @ m_cursor l1"
      "(if t1 = parse_error then length w = 1 else token_text t1 w)"
    by (metis (full_types))
  with sc have w: "m_cursor (text_lexer lx) = ws @ m_start (text_lexer lx')" "m_start (text_lexer lx') = w @ m_cursor (text_lexer lx')"
      "if t = parse_error then length w = 1 else token_text t w"
    by (auto simp del: text_lexer_pointers split: if_splits)
  have w0: "w \<noteq> []" using w(3) token_text_nonempty by (cases "t = parse_error") auto
  have left: "left_text lx' \<noteq> [] \<longrightarrow> in_buffer (m_start (sc lx')) \<and> in_buffer (cursor lx')"
    using inv' by (auto simp: stream_inv_def pointers_ok_def)
  have start: "m_start (sc lx') = w @ cursor lx'"
  proof (cases "left_text lx' = []")
    case False
    with left have b: "in_buffer (m_start (sc lx'))" "in_buffer (cursor lx')" by simp_all
    with w(2) have "butlast (m_start (sc lx')) = w @ butlast (cursor lx')"
      by (simp add: insert_text_def in_buffer_def)
    then have "butlast (m_start (sc lx')) @ [CHR 0x00] = w @ butlast (cursor lx') @ [CHR 0x00]" by simp
    with b show ?thesis unfolding in_buffer_def by (metis append_butlast_last_id)
  qed (use w(2) in simp)
  have "cursor lx' = [] \<or> in_buffer (cursor lx')"
  proof (cases "left_text lx' = []")
    case True
    have "last (m_cursor (text_lexer lx)) = CHR 0x00"
      using assms(1) ne by (auto simp: stream_live_def insert_text_def in_buffer_def)
    with True w(1,2) show ?thesis by (auto simp: in_buffer_def)
  qed (use left in simp)
  with inv' have "stream_live lx'" by (simp add: stream_live_def)
  with that start w(2,3) w0 left show thesis by (metis (full_types))
qed

lemma pending_newline: "left_text lx \<noteq> [] \<Longrightarrow> hd (left_text lx) = newline"
  by (auto simp: pending_def)

lemma stream_string_text:
  assumes "stream_live lx" "stream_scan lx = Inr (value_string, lx')"
  shows "get_string_token (text_lexer lx') = stream_string lx'"
proof -
  obtain w where w: "m_start (sc lx') = w @ cursor lx'" "token_text value_string w"
    "stream_live lx'" "m_start (text_lexer lx') = w @ m_cursor (text_lexer lx')"
    using stream_scanned [OF assms] by (metis token_type.distinct)
  from w(2) obtain b where b: "string_body b" "w = CHR 0x22 # b @ [CHR 0x22]" by auto
  have "after_limit lx' \<le> 5" using w(3) by (simp add: stream_live_def stream_inv_def)
  from get_string_loop_token [OF _ this b(1), of 1] w(1,4) b(2) show ?thesis
    unfolding get_string_token_def stream_string_def by simp
qed

lemma number_text_start: "number_text w \<Longrightarrow> w \<noteq> [] \<and> \<not> isspace (hd w)"
proof -
  have "\<not> isspace c" if "isdigit c" for c using that by (auto simp: isspace_def isdigit_def)
  then have "\<not> isspace (hd i)" if "i \<noteq> []" "list_all isdigit i" for i using that by (cases i) auto
  moreover have "\<not> isspace CHR ''-''" "\<not> isspace CHR ''0''" by (simp_all add: isspace_def)
  ultimately show "number_text w \<Longrightarrow> w \<noteq> [] \<and> \<not> isspace (hd w)"
    by (auto simp: number_text_def int_text_def digits1_def hd_append)
qed

lemma stream_number_text:
  assumes "stream_live lx" "stream_scan lx = Inr (value_number, lx')"
  shows "get_number_token (text_lexer lx') = get_number_token (lexer.truncate (sc lx'))"
proof -
  obtain w where w: "m_start (sc lx') = w @ cursor lx'" "number_text w"
    "stream_live lx'" "m_start (text_lexer lx') = w @ m_cursor (text_lexer lx')" "left_text lx' \<noteq> [] \<longrightarrow> in_buffer (cursor lx')"
    using stream_scanned [OF assms] by (metis token_type.distinct token_text.simps(5))
  have ws: "w \<noteq> []" "\<not> isspace (hd w)" using number_text_start [OF w(2)] by simp_all
  have str: "get_token_string (text_lexer lx') = get_token_string (lexer.truncate (sc lx'))"
    using w(3) stream_token_text by (simp add: stream_live_def stream_token_string_def)
  have "strtod (m_start (text_lexer lx')) = strtod (m_start (sc lx'))"
  proof (cases "left_text lx' = []")
    case False
    with w(5) have c: "cursor lx' = butlast (cursor lx') @ [CHR 0x00]" "cursor lx' \<noteq> []"
      using append_butlast_last_id [of "cursor lx'"] by (simp_all add: in_buffer_def)
    let ?u = "w @ butlast (cursor lx')"
    obtain l where l: "left_text lx' = newline # l" using pending_newline [OF False] False by (cases "left_text lx'") auto
    have "m_start (text_lexer lx') = ?u @ newline # l @ [CHR 0x00]"
      using False w(5) unfolding w(4) by (simp add: l insert_text_def in_buffer_def)
    moreover have "m_start (sc lx') = ?u @ CHR 0x00 # []" using w(1) c(1) by simp
    ultimately show ?thesis
      using strtod_stops [of newline ?u] strtod_stops [of "CHR 0x00" ?u] ws by (simp add: stops_def isdigit_def)
  qed simp
  moreover have "hd (m_start (text_lexer lx')) = hd (m_start (sc lx'))" using w(1,4) ws(1) by simp
  ultimately have "strtod (m_start (text_lexer lx')) = strtod (m_start (lexer.truncate (sc lx')))"
    "hd (m_start (text_lexer lx')) = hd (m_start (lexer.truncate (sc lx')))"
    by (simp_all add: lexer.defs del: text_lexer_pointers)
  then show ?thesis unfolding get_number_token_def str by presburger
qed

interpretation stream_parser: lexer_refinement of_stream of_text text_lexer stream_live
proof
  fix lx :: stream_lexer and lx'
  assume live: "stream_live lx"
  then have inv: "stream_inv 1 lx" by (simp add: stream_live_def)
  have "stream_live l" if "stream_scan lx = Inr (t, l)" for t l
    using stream_scanned [OF live that] by blast
  then show "matches (\<lambda>(t, lx). stream_live lx) (\<lambda>(t, lx). (t, text_lexer lx))
      (next_token of_stream lx) (next_token of_text (text_lexer lx))"
    using stream_scan_text [OF inv] by (auto simp: matches_def)
  show "token_string of_text (text_lexer lx) = token_string of_stream lx"
    using stream_token_text [OF inv] by simp
  show "next_token of_stream lx = Inr (value_string, lx') \<Longrightarrow> string_token of_text (text_lexer lx') = string_token of_stream lx'"
    using stream_string_text [OF live] by simp
  show "next_token of_stream lx = Inr (value_number, lx') \<Longrightarrow> number_token of_text (text_lexer lx') = number_token of_stream lx'"
    using stream_number_text [OF live] by simp
qed

lemma stream_live_start: "stream_live (stream_lexer_of (istream_of s))"
proof -
  obtain line i where line: "getline (istream_of s) = (line, i)" by force
  then have "in_buffer (cursor (stream_lexer_of (istream_of s)))"
    by (simp add: stream_lexer_of_def in_buffer_def lexer_of_def lexer.defs)
  with stream_start(1) show ?thesis by (simp add: stream_live_def)
qed


text \<open>A value over three lines, of which only the first is in the buffer at the start.\<close>

lemma parse_stream_lines:
  "parse_stream None (istream_of (''[1,'' @ [newline] @ ''true'' @ [newline] @ '']''))
    = Inr (Array [Number_unsigned 1, Boolean True])"
  by code_simp

end
