(* ===== verification/JsonText.thy ===== *)
theory JsonText
  imports JsonParser
begin

text \<open>
  Printing and parsing of \<open>json.hpp\<close> together: the text that \<open>dump\<close> prints of a value is
  parsed to the value again, whatever the indentation, except that an integer that is not
  negative comes back as an unsigned one (\<open>norm\<close>).
\<close>

section \<open>Decimal texts\<close>

lemma decimal_induct [case_names small large]:
  assumes "\<And>n. n < 10 \<Longrightarrow> P n" "\<And>n. n \<ge> 10 \<Longrightarrow> P (n div 10) \<Longrightarrow> P n"
  shows "P (n :: nat)"
proof (induction n rule: less_induct)
  case (less n)
  then show ?case by (cases "n < 10") (auto intro: assms)
qed

lemma digit_char: "d < 10 \<Longrightarrow> isdigit (char_of (48 + d)) \<and> digit_val (char_of (48 + d)) = d"
  by (simp add: isdigit_def digit_val_def of_char_of)

lemma decimal_digits: "list_all isdigit (decimal n) \<and> decimal n \<noteq> [] \<and> digits_val (decimal n) = n"
proof (induction n rule: decimal_induct)
  case (small n)
  then show ?case using digit_char [of n] by (simp add: decimal.simps [of n] digits_val_Cons)
next
  case (large n)
  then show ?case using digit_char [of "n mod 10"]
    by (simp add: decimal.simps [of n] digits_val_append digits_val_Cons)
qed

lemma decimal_head: "n > 0 \<Longrightarrow> hd (decimal n) \<noteq> CHR ''0''"
proof (induction n rule: decimal_induct)
  case (small n)
  then have "digit_val (char_of (48 + n)) \<noteq> digit_val (CHR ''0'')" using digit_char [of n] by (simp add: digit_val_def)
  then have "char_of (48 + n) \<noteq> CHR ''0''" by metis
  with small show ?case by (simp add: decimal.simps [of n])
next
  case (large n)
  then show ?case using decimal_digits [of "n div 10"] by (simp add: decimal.simps [of n])
qed

lemma decimal_0 [simp]: "decimal 0 = ''0''"
  by code_simp

lemma int_text_decimal: "int_text (decimal n)"
proof (cases "n = 0")
  case True
  then show ?thesis by (simp add: int_text_def)
next
  case False
  then show ?thesis using decimal_head [of n] decimal_digits [of n] by (simp add: int_text_def digits1_def)
qed

lemma number_text_decimal: "number_text (decimal n)" "number_text (CHR ''-'' # decimal n)"
proof -
  have "number_text (sg @ decimal n @ [] @ [])" if "sg \<in> {[], ''-''}" for sg
    unfolding number_text_def using that int_text_decimal by (blast intro: frac_text_def [THEN iffD2] exp_text_def [THEN iffD2])
  from this [of "[]"] this [of "''-''"] show "number_text (decimal n)" "number_text (CHR ''-'' # decimal n)" by simp_all
qed

section \<open>Where a token ends\<close>

text \<open>A character that may stand behind a value.\<close>

definition delim :: "string \<Rightarrow> bool" where
  "delim s \<longleftrightarrow> s \<noteq> [] \<and> hd s \<in> {CHR '','', CHR '']'', CHR ''}'', CHR 0x0A, CHR '' '', CHR 0x00}"

lemma delim_end:
  assumes "delim s"
  shows "frac_end s = s" "dropWhile isdigit s = s"
  using assms by (cases s; auto simp: delim_def frac_end_def exp_end_def isdigit_Char)+

lemma num_end_decimal:
  assumes "delim r"
  shows "num_end (decimal n @ r) = r"
proof (cases "n = 0")
  case True
  then show ?thesis using delim_end(1) [OF assms] by (simp add: num_end_def)
next
  case False
  with decimal_head [of n] decimal_digits [of n] have "take 1 (decimal n @ r) \<noteq> ''0''" by (cases "decimal n") auto
  moreover have "dropWhile isdigit (decimal n @ r) = r"
    using decimal_digits [of n] delim_end(2) [OF assms] by (simp add: dropWhile_append list_all_iff)
  ultimately show ?thesis using delim_end(1) [OF assms] unfolding num_end_def by (simp only: if_False)
qed

lemma token_decimal:
  assumes "delim r"
  shows "token_at (decimal n @ r) = (value_number, r)" "token_at (CHR ''-'' # decimal n @ r) = (value_number, r)"
    "skip_blanks (decimal n @ r) = decimal n @ r"
proof -
  obtain d ds where d: "decimal n = d # ds" "isdigit d" using decimal_digits [of n] by (cases "decimal n") auto
  have num: "num_end (d # ds @ r) = r" using num_end_decimal [OF assms, of n] d by simp
  from num isdigit_plain [OF d(2)] d show "token_at (decimal n @ r) = (value_number, r)" by (simp add: token_at_def)
  from num d show "token_at (CHR ''-'' # decimal n @ r) = (value_number, r)"
    by (simp add: token_at_def punctuation.simps)
  have ne: "d \<noteq> c" if "\<not> isdigit c" for c using d(2) that by auto
  have "\<not> is_blank d" "d \<noteq> CHR 0xEF" by (simp_all add: is_blank_def ne isdigit_Char)
  then show "skip_blanks (decimal n @ r) = decimal n @ r"
    unfolding d append_Cons skip_blanks.simps take3_bom by simp
qed

lemma token_string: "token_at (CHR 0x22 # concat (map esc s) @ CHR 0x22 # r) = (value_string, r)"
  by (simp add: token_at_def punctuation.simps str_end_complete string_body_esc)

lemma skip_blanks_token [simp]:
  "skip_blanks (CHR '' '' # s) = skip_blanks s" "skip_blanks (CHR 0x0A # s) = skip_blanks s"
  "\<not> is_blank c \<Longrightarrow> c \<noteq> CHR 0xEF \<Longrightarrow> skip_blanks (c # s) = c # s"
  unfolding skip_blanks.simps take3_bom by (simp_all add: is_blank_def)

declare skip_blanks.simps(2) [simp del]

lemma skip_blanks_indent [simp]: "skip_blanks (replicate n (CHR '' '') @ s) = skip_blanks s"
  by (induction n) simp_all

section \<open>The parser at a text\<close>

text \<open>The parser has read the first token of \<open>s\<close>.\<close>

definition at :: "lexer parser \<Rightarrow> string \<Rightarrow> bool" where
  "at p s \<longleftrightarrow> CHR 0x00 \<in> set s \<and> last_token p = fst (token_at (skip_blanks s))
     \<and> m_start (m_lexer p) = skip_blanks s \<and> m_cursor (m_lexer p) = snd (token_at (skip_blanks s))"

lemma at_cong: "skip_blanks s = skip_blanks t \<Longrightarrow> CHR 0x00 \<in> set s \<Longrightarrow> CHR 0x00 \<in> set t \<Longrightarrow> at p s = at p t"
  by (simp add: at_def)

lemma get_token_at:
  assumes "CHR 0x00 \<in> set (m_cursor (m_lexer p))"
  obtains p' where "get_token of_text p = Inr p'" "at p' (m_cursor (m_lexer p))" "left p' < left p"
proof -
  from scan_is_token_at [OF assms] obtain lx where lx:
    "scan (m_lexer p) = Inr (fst (token_at (skip_blanks (m_cursor (m_lexer p)))), lx)"
    "m_start lx = skip_blanks (m_cursor (m_lexer p))" "m_cursor lx = snd (token_at (skip_blanks (m_cursor (m_lexer p))))"
    by blast
  then have p': "get_token of_text p = Inr (p\<lparr>last_token := fst (token_at (skip_blanks (m_cursor (m_lexer p)))), m_lexer := lx\<rparr>)"
    by (simp add: get_token_def)
  with get_token_gives [OF assms] have "left (p\<lparr>last_token := fst (token_at (skip_blanks (m_cursor (m_lexer p)))), m_lexer := lx\<rparr>) < left p"
    by simp
  with that [OF p'] lx assms show thesis by (simp add: at_def)
qed

lemma atD:
  assumes "at p s" "token_at (skip_blanks s) = (t, r)"
  shows "last_token p = t" "m_cursor (m_lexer p) = r" "m_start (m_lexer p) = skip_blanks s"
  using assms by (simp_all add: at_def)

lemma next_at:
  assumes "at p s" "token_at (skip_blanks s) = (t, r)" "t \<noteq> end_of_input" "t \<noteq> parse_error"
  obtains p' where "get_token of_text p = Inr p'" "at p' r" "left p' < left p" "CHR 0x00 \<in> set r"
proof -
  obtain w where w: "token_text t w" "skip_blanks s = w @ r" using token_sound [OF assms(2,4)] by blast
  have "CHR 0x00 \<in> set (skip_blanks s)" using assms(1) by (simp add: at_def skip_blanks_zero)
  then have z: "CHR 0x00 \<in> set r" using w token_text_plain [OF w(1) assms(3)] by auto
  then have "CHR 0x00 \<in> set (m_cursor (m_lexer p))" by (simp only: atD(2) [OF assms(1,2)])
  from get_token_at [OF this] atD(2) [OF assms(1,2)] z that show thesis by metis
qed

lemma string_at:
  assumes "at p (CHR 0x22 # concat (map esc k) @ CHR 0x22 # r)"
  shows "last_token p = value_string" "get_string_token (m_lexer p) = Inr k"
proof -
  have tok: "token_at (skip_blanks (CHR 0x22 # concat (map esc k) @ CHR 0x22 # r)) = (value_string, r)"
    using token_string [of k r] by (simp add: is_blank_def)
  from atD [OF assms tok] show "last_token p = value_string" "get_string_token (m_lexer p) = Inr k"
    using get_string_loop_esc [of _ r k "[]"] by (simp_all add: get_string_token_def is_blank_def)
qed

section \<open>Values\<close>

primrec norm :: "json \<Rightarrow> json" where
  "norm Null = Null"
| "norm (Object m) = Object (map (map_prod id norm) m)"
| "norm (Array xs) = Array (map norm xs)"
| "norm (String s) = String s"
| "norm (Boolean b) = Boolean b"
| "norm (Number_integer i) = (if 0 \<le> sint i then Number_unsigned i else Number_integer i)"
| "norm (Number_unsigned n) = Number_unsigned n"
| "norm (Number_float d) = Number_float d"
| "norm Discarded = Discarded"

text \<open>
  Values whose text is exact: no floating-point number, no discarded value, and not the most
  negative integer, whose text the scanner negates with overflow. The keys of an object are in the
  order of the map.
\<close>

primrec printable_json :: "json \<Rightarrow> bool" where
  "printable_json Null \<longleftrightarrow> True"
| "printable_json (Object m) \<longleftrightarrow> sorted_wrt (<) (map fst m) \<and> list_all snd (map (map_prod id printable_json) m)"
| "printable_json (Array xs) \<longleftrightarrow> list_all id (map printable_json xs)"
| "printable_json (String s) \<longleftrightarrow> True"
| "printable_json (Boolean b) \<longleftrightarrow> True"
| "printable_json (Number_integer i) \<longleftrightarrow> sint i \<noteq> - (2 ^ 63)"
| "printable_json (Number_unsigned n) \<longleftrightarrow> True"
| "printable_json (Number_float d) \<longleftrightarrow> False"
| "printable_json Discarded \<longleftrightarrow> False"

lemma printable_json_norm: "printable_json j \<Longrightarrow> norm j \<noteq> Discarded"
  by (cases j) auto

definition text_parses :: "string \<Rightarrow> json \<Rightarrow> bool" where
  "text_parses txt j \<longleftrightarrow>
     (\<forall>rest p n. delim rest \<longrightarrow> at p (txt @ rest) \<longrightarrow> CHR 0x00 \<in> set rest \<longrightarrow> n > 2 * left p \<longrightarrow>
       (\<exists>p'. parse_internal of_text None n True p = Inr (j, p') \<and> at p' rest \<and> left p' < left p))"

lemma parsesI:
  assumes "\<And>rest p n. delim rest \<Longrightarrow> at p (txt @ rest) \<Longrightarrow> CHR 0x00 \<in> set rest \<Longrightarrow> Suc n > 2 * left p \<Longrightarrow>
       \<exists>p'. parse_internal of_text None (Suc n) True p = Inr (j, p') \<and> at p' rest \<and> left p' < left p"
  shows "text_parses txt j"
  unfolding text_parses_def
proof (intro allI impI)
  fix rest p n
  assume a: "delim rest" "at p (txt @ rest)" "CHR 0x00 \<in> set rest" "n > 2 * left p"
  then obtain m where "n = Suc m" by (cases n) auto
  with assms a show "\<exists>p'. parse_internal of_text None n True p = Inr (j, p') \<and> at p' rest \<and> left p' < left p" by blast
qed

lemma text_parses_leaf:
  assumes tok: "\<And>rest. delim rest \<Longrightarrow> token_at (skip_blanks (txt @ rest)) = (t, rest)"
    and real: "t \<noteq> end_of_input" "t \<noteq> parse_error"
    and step: "\<And>rest p n. delim rest \<Longrightarrow> at p (txt @ rest) \<Longrightarrow> last_token p = t \<Longrightarrow>
      parse_internal of_text None (Suc n) True p = rbind (get_token of_text p) (leaf_value None True j)"
  shows "text_parses txt j"
proof (rule parsesI)
  fix rest p n assume a: "delim rest" "at p (txt @ rest)"
  from next_at [OF a(2) tok [OF a(1)] real] obtain p' where "get_token of_text p = Inr p'" "at p' rest" "left p' < left p" by metis
  with step [OF a atD(1) [OF a(2) tok [OF a(1)]]]
  show "\<exists>p'. parse_internal of_text None (Suc n) True p = Inr (j, p') \<and> at p' rest \<and> left p' < left p"
    by (simp add: leaf_value_def)
qed

lemma text_parses_literals:
  "text_parses ''null'' Null" "text_parses ''true'' (Boolean True)" "text_parses ''false'' (Boolean False)"
  by (rule text_parses_leaf [where t=literal_null], simp_all add: token_at_def punctuation.simps is_blank_def literal_at_def isdigit_Char,
      rule text_parses_leaf [where t=literal_true], simp_all add: token_at_def punctuation.simps is_blank_def literal_at_def isdigit_Char,
      rule text_parses_leaf [where t=literal_false], simp_all add: token_at_def punctuation.simps is_blank_def literal_at_def isdigit_Char)

lemma text_parses_string: "text_parses (CHR 0x22 # concat (map esc k) @ [CHR 0x22]) (String k)"
proof (rule text_parses_leaf [where t=value_string])
  fix rest p n
  assume "at p ((CHR 0x22 # concat (map esc k) @ [CHR 0x22]) @ rest)"
  then have "at p (CHR 0x22 # concat (map esc k) @ CHR 0x22 # rest)" by simp
  from string_at [OF this]
  show "parse_internal of_text None (Suc n) True p = rbind (get_token of_text p) (leaf_value None True (String k))" by simp
qed (use token_string in \<open>simp_all add: is_blank_def\<close>)

lemma text_parses_unsigned: "text_parses (decimal (unat n)) (Number_unsigned n)"
proof (rule text_parses_leaf [where t=value_number])
  fix rest p m
  assume a: "delim rest" "at p (decimal (unat n) @ rest)" "last_token p = value_number"
  have tok: "token_at (skip_blanks (decimal (unat n) @ rest)) = (value_number, rest)" using token_decimal [OF a(1)] by simp
  have "m_start (m_lexer p) = decimal (unat n) @ m_cursor (m_lexer p)"
    using atD [OF a(2) tok] token_decimal(3) [OF a(1)] by simp
  from number_token_value [OF this number_text_decimal(1)] decimal_digits [of "unat n"]
  have "get_number_token (m_lexer p) = Inr (Number_unsigned n)"
    using unsigned_less [of n, where 'a=nat] by simp
  with a(3) show "parse_internal of_text None (Suc m) True p = rbind (get_token of_text p) (leaf_value None True (Number_unsigned n))"
    by simp
qed (simp_all add: token_decimal)

lemma text_parses_negative:
  assumes "sint i < 0" "sint i \<noteq> - (2 ^ 63)"
  shows "text_parses (CHR ''-'' # decimal (nat (- sint i))) (Number_integer i)"
proof (rule text_parses_leaf [where t=value_number])
  fix rest p m
  let ?k = "nat (- sint i)"
  assume a: "delim rest" "at p ((CHR ''-'' # decimal ?k) @ rest)" "last_token p = value_number"
  have tok: "token_at (skip_blanks ((CHR ''-'' # decimal ?k) @ rest)) = (value_number, rest)"
    using token_decimal(2) [OF a(1)] by (simp add: is_blank_def)
  have start: "m_start (m_lexer p) = (CHR ''-'' # decimal ?k) @ m_cursor (m_lexer p)"
    using atD [OF a(2) tok] by (simp add: is_blank_def)
  have "- (2 ^ 63) \<le> sint i" using sint_range_size [of i] by (simp add: size_word_def)
  then have k: "?k < 2 ^ 63" using assms by simp
  have "(of_nat ?k :: 64 word) = of_int (- sint i)" using assms(1) by (simp add: of_nat_nat)
  also have "\<dots> = - i" by simp
  finally have "- of_nat ?k = i" by simp
  with number_token_value [OF start number_text_decimal(2)] decimal_digits [of ?k] k
  have "get_number_token (m_lexer p) = Inr (Number_integer i)" by simp
  with a(3) show "parse_internal of_text None (Suc m) True p = rbind (get_token of_text p) (leaf_value None True (Number_integer i))"
    by simp
qed (simp_all add: token_decimal is_blank_def)

section \<open>Objects and arrays\<close>

lemma replace_last: "\<forall>k' \<in> set (map fst m). k' < k \<Longrightarrow> replace k v (m @ [(k, w)]) = m @ [(k, v)]"
proof (induction m)
  case (Cons kv m)
  then show ?case by (cases kv) auto
qed simp

lemma assign_key_last:
  "\<forall>k' \<in> set (map fst m). k' < k \<Longrightarrow> assign_key k v (Object m) = Inr (Object (m @ [(k, v)]))"
  using emplace_last [of m k Null] replace_last [of m k v Null] by (simp add: assign_key_object)

lemma parse_members_separator:
  assumes "last_token p = value_separator" "get_token of_text p = Inr p'" "last_token p' \<noteq> value_separator"
  shows "parse_members of_text cb (Suc n) keep r p = parse_members of_text cb (Suc n) keep r p'"
  using assms by simp

lemma parse_elements_separator:
  assumes "last_token p = value_separator" "get_token of_text p = Inr p'" "last_token p' \<noteq> value_separator"
  shows "parse_elements of_text cb (Suc n) keep r p = parse_elements of_text cb (Suc n) keep r p'"
  using assms by simp

text \<open>The separator is a comma with perhaps a line break; \<open>blank_text\<close> is skipped by the scanner.\<close>

definition blank_text :: "string \<Rightarrow> bool" where
  "blank_text w \<longleftrightarrow> list_all (\<lambda>c. c \<in> {CHR '' '', CHR 0x0A}) w"

lemma blank_text_skip: "blank_text w \<Longrightarrow> skip_blanks (w @ s) = skip_blanks s"
  by (induction w) (auto simp: blank_text_def)

lemma separated_Cons: "separated sep (x # xs) = x @ (if xs = [] then [] else sep @ separated sep xs)"
  by (cases xs) simp_all

lemma comma_token: "token_at (skip_blanks (CHR '','' # s)) = (value_separator, s)"
  by (simp add: is_blank_def token_at_def punctuation.simps)

lemma at_blank:
  assumes "at p (w @ s)" "blank_text w" "CHR 0x00 \<in> set s"
  shows "at p s"
  using assms at_cong [of "w @ s" s p] by (simp add: blank_text_skip)

text \<open>How the text of a value begins.\<close>

definition starts :: "string \<Rightarrow> bool" where
  "starts x \<longleftrightarrow> x \<noteq> [] \<and> \<not> is_blank (hd x) \<and> hd x \<notin> {CHR 0xEF, CHR '','', CHR '']'', CHR ''}''}"

lemma starts_token:
  assumes "starts x"
  shows "skip_blanks (x @ s) = x @ s"
    "fst (token_at (x @ s)) \<notin> {value_separator, end_array, end_object}"
proof -
  obtain c t where x: "x = c # t" "\<not> is_blank c" "c \<notin> {CHR 0xEF, CHR '','', CHR '']'', CHR ''}''}"
    using assms by (cases x) (auto simp: starts_def)
  then show "skip_blanks (x @ s) = x @ s" by simp
  show "fst (token_at (x @ s)) \<notin> {value_separator, end_array, end_object}"
  proof (cases "punctuation c")
    case None
    then show ?thesis by (simp add: x(1) token_at_def literal_at_def split: option.splits)
  next
    case (Some ty)
    then have "ty \<notin> {value_separator, end_array, end_object}"
      using x(3) by (auto simp: punctuation.simps split: if_splits)
    with Some show ?thesis by (simp add: x(1) token_at_def)
  qed
qed

lemma starts_at:
  assumes "at p (pre @ x @ s)" "blank_text pre" "starts x"
  shows "last_token p \<notin> {value_separator, end_array, end_object}"
  using assms(1) starts_token [OF assms(3), of s] by (simp add: at_def blank_text_skip [OF assms(2)])

lemma text_parses_elements:
  assumes "\<forall>(x, v) \<in> set xvs. text_parses x v \<and> v \<noteq> Discarded \<and> starts x"
    and "blank_text pre" "blank_text w" "xvs \<noteq> []"
    and "delim rest" "CHR 0x00 \<in> set rest" "fst (token_at (skip_blanks rest)) \<noteq> value_separator"
    and "at p (separated ('','' @ w) (map (\<lambda>xv. pre @ fst xv) xvs) @ rest)" "n > 2 * left p + 1"
  shows "\<exists>p'. parse_elements of_text None n True (Array acc) p = Inr (Array (acc @ map snd xvs), p') \<and> at p' rest \<and> left p' < left p"
  using assms
proof (induction xvs arbitrary: acc p n)
  case (Cons xv xvs)
  obtain x v where xv: "xv = (x, v)" by force
  let ?tail = "separated ('','' @ w) (map (\<lambda>xv. pre @ fst xv) xvs)"
  let ?rest = "(if xvs = [] then rest else CHR '','' # (w @ ?tail @ rest))"
  obtain m where n: "n = Suc m" "m > 2 * left p" using Cons.prems(9) by (cases n) auto
  have x: "text_parses x v" "v \<noteq> Discarded" "starts x" using Cons.prems(1) xv by auto
  have rest: "delim ?rest" "CHR 0x00 \<in> set ?rest" using Cons.prems(5,6) by (auto simp: delim_def)
  have "at p (pre @ x @ ?rest)" using Cons.prems(8) xv by (simp add: separated_Cons split: if_splits)
  with starts_at [OF this Cons.prems(2) x(3)] have at: "at p (x @ ?rest)" "last_token p \<noteq> value_separator"
    using Cons.prems(2) rest(2) by (auto intro: at_blank)
  from x(1) at rest n(2) obtain p1 where p1: "parse_internal of_text None m True p = Inr (v, p1)" "at p1 ?rest" "left p1 < left p"
    unfolding text_parses_def by blast
  have step: "parse_elements of_text None n True (Array acc) p =
      (if last_token p1 = value_separator then parse_elements of_text None m True (Array (acc @ [v])) p1 else Inr (Array (acc @ [v]), p1))"
    using p1(1) x(2) at(2) n(1) by simp
  show ?case
  proof (cases "xvs = []")
    case True
    then have "last_token p1 \<noteq> value_separator" using p1(2) Cons.prems(7) by (simp add: at_def)
    with step True p1 xv show ?thesis by simp
  next
    case False
    then have "at p1 (CHR '','' # (w @ ?tail @ rest))" using p1(2) by simp
    note sep = this
    obtain p2 where p2: "get_token of_text p1 = Inr p2" "at p2 (w @ ?tail @ rest)" "left p2 < left p1"
      using next_at [OF sep comma_token] by auto
    have at2: "at p2 (?tail @ rest)" using p2(2) Cons.prems(3,6) by (auto intro: at_blank)
    obtain k where k: "m = Suc k" using n(2) by (cases m) auto
    obtain y vy yvs where y: "xvs = (y, vy) # yvs" using False by (cases xvs) auto
    have "at p2 (pre @ y @ ((if yvs = [] then [] else '','' @ w @ separated ('','' @ w) (map (\<lambda>xv. pre @ fst xv) yvs)) @ rest))"
      using at2 y by (simp add: separated_Cons split: if_splits)
    from starts_at [OF this Cons.prems(2)] Cons.prems(1) y have last2: "last_token p2 \<noteq> value_separator" by auto
    have "\<exists>p'. parse_elements of_text None m True (Array (acc @ [v])) p2 = Inr (Array ((acc @ [v]) @ map snd xvs), p') \<and> at p' rest
        \<and> left p' < left p2"
      by (rule Cons.IH) (use Cons.prems False at2 p1 p2 n in auto)
    moreover have "last_token p1 = value_separator" using atD(1) [OF sep comma_token] .
    ultimately show ?thesis
      using step parse_elements_separator [OF _ p2(1) last2, of None k True "Array (acc @ [v])"] k p1(3) p2(3) xv
      by (auto simp del: parse_elements.simps)
  qed
qed simp

lemma colon_token: "token_at (skip_blanks (CHR '':'' # s)) = (name_separator, s)"
  by (simp add: is_blank_def token_at_def punctuation.simps)

lemma starts_quote [simp]: "starts (CHR 0x22 # s)"
  by (simp add: starts_def is_blank_def)

definition member_text :: "string \<Rightarrow> string \<Rightarrow> string \<times> string \<times> json \<Rightarrow> string" where
  "member_text pre gap kxv =
     (case kxv of (k, x, v) \<Rightarrow> pre @ [CHR 0x22] @ concat (map esc k) @ [CHR 0x22, CHR '':''] @ gap @ x)"

lemma member_text_triple:
  "member_text pre gap (k, x, v) = pre @ [CHR 0x22] @ concat (map esc k) @ [CHR 0x22, CHR '':''] @ gap @ x"
  by (simp add: member_text_def)

lemma text_parses_member_value:
  assumes "text_parses x v" "blank_text gap" "delim rest" "CHR 0x00 \<in> set rest"
    and "at p (CHR 0x22 # concat (map esc k) @ CHR 0x22 # CHR '':'' # gap @ x @ rest)" "m > 2 * left p"
    and "v \<noteq> Discarded" "\<forall>k' \<in> set (map fst acc). k' < k"
  shows "\<exists>p1. at p1 rest \<and> left p1 < left p \<and>
    parse_members of_text None (Suc m) True (Object acc) p =
      (if last_token p1 = value_separator then parse_members of_text None m True (Object (acc @ [(k, v)])) p1
       else Inr (Object (acc @ [(k, v)]), p1))"
proof -
  let ?s = "CHR '':'' # gap @ x @ rest"
  have tok: "token_at (skip_blanks (CHR 0x22 # concat (map esc k) @ CHR 0x22 # ?s)) = (value_string, ?s)"
    using token_string [of k ?s] by (simp add: is_blank_def)
  obtain p1 where p1: "get_token of_text p = Inr p1" "at p1 ?s" "left p1 < left p"
    using next_at [OF assms(5) tok] by auto
  obtain p2 where p2: "get_token of_text p1 = Inr p2" "at p2 (gap @ x @ rest)" "left p2 < left p1"
    using next_at [OF p1(2) colon_token] by auto
  have "at p2 (x @ rest)" using p2(2) assms(2,4) by (auto intro: at_blank)
  moreover have "m > 2 * left p2" using assms(6) p1(3) p2(3) by simp
  ultimately obtain p3 where p3: "parse_internal of_text None m True p2 = Inr (v, p3)" "at p3 rest" "left p3 < left p2"
    using assms(1,3,4) unfolding text_parses_def by blast
  have name: "last_token p1 = name_separator" using atD(1) [OF p1(2) colon_token] .
  have "parse_members of_text None (Suc m) True (Object acc) p =
      (if last_token p3 = value_separator then parse_members of_text None m True (Object (acc @ [(k, v)])) p3
       else Inr (Object (acc @ [(k, v)]), p3))"
    using string_at [OF assms(5)] p1(1) p2(1) p3(1) name assms(7) assign_key_last [OF assms(8)]
    by (simp add: expect_def)
  then show ?thesis using p1(3) p2(3) p3(2,3) by (intro exI [of _ p3]) simp
qed

lemma text_parses_members:
  assumes "\<forall>(k, x, v) \<in> set kxvs. text_parses x v \<and> v \<noteq> Discarded"
    and "blank_text pre" "blank_text gap" "blank_text w" "kxvs \<noteq> []" "sorted_wrt (<) (map fst kxvs)"
    and "delim rest" "CHR 0x00 \<in> set rest" "fst (token_at (skip_blanks rest)) \<noteq> value_separator"
    and "at p (separated ('','' @ w) (map (member_text pre gap) kxvs) @ rest)" "n > 2 * left p + 1"
    and "\<forall>k \<in> set (map fst kxvs). \<forall>k' \<in> set (map fst acc). k' < k"
  shows "\<exists>p'. parse_members of_text None n True (Object acc) p = Inr (Object (acc @ map (\<lambda>(k, x, v). (k, v)) kxvs), p')
    \<and> at p' rest \<and> left p' < left p"
  using assms
proof (induction kxvs arbitrary: acc p n)
  case (Cons kxv kxvs)
  obtain k x v where kxv: "kxv = (k, x, v)" by (metis prod_cases3)
  let ?tail = "separated ('','' @ w) (map (member_text pre gap) kxvs)"
  let ?rest = "(if kxvs = [] then rest else CHR '','' # (w @ ?tail @ rest))"
  let ?key = "CHR 0x22 # concat (map esc k) @ CHR 0x22 # CHR '':'' # gap @ x @ ?rest"
  obtain m where n: "n = Suc m" "m > 2 * left p" using Cons.prems(11) by (cases n) auto
  have x: "text_parses x v" "v \<noteq> Discarded" using Cons.prems(1) kxv by auto
  have rest: "delim ?rest" "CHR 0x00 \<in> set ?rest" using Cons.prems(7,8) by (auto simp: delim_def)
  have "at p (pre @ ?key)" using Cons.prems(10) kxv by (simp add: separated_Cons member_text_triple split: if_splits)
  then have key: "at p ?key" by (rule at_blank [OF _ Cons.prems(2)]) (use rest(2) in auto)
  have "\<forall>k' \<in> set (map fst acc). k' < k" using Cons.prems(12) kxv by simp
  from text_parses_member_value [OF x(1) Cons.prems(3) rest key n(2) x(2) this] obtain p1 where
    p1: "at p1 ?rest" "left p1 < left p" and
    step: "parse_members of_text None n True (Object acc) p =
      (if last_token p1 = value_separator then parse_members of_text None m True (Object (acc @ [(k, v)])) p1
       else Inr (Object (acc @ [(k, v)]), p1))" unfolding n(1) by blast
  show ?case
  proof (cases "kxvs = []")
    case True
    then have "last_token p1 \<noteq> value_separator" using p1(1) Cons.prems(9) by (simp add: at_def)
    with step True p1 kxv show ?thesis by simp
  next
    case False
    then have sep: "at p1 (CHR '','' # (w @ ?tail @ rest))" using p1(1) by simp
    obtain p2 where p2: "get_token of_text p1 = Inr p2" "at p2 (w @ ?tail @ rest)" "left p2 < left p1"
      using next_at [OF sep comma_token] by auto
    have at2: "at p2 (?tail @ rest)" using p2(2) Cons.prems(4,8) by (auto intro: at_blank)
    obtain j where j: "m = Suc j" using n(2) by (cases m) auto
    obtain k' x' v' kxvs' where y: "kxvs = (k', x', v') # kxvs'" using False by (metis list.exhaust prod_cases3)
    have "\<exists>s. ?tail @ rest = pre @ (CHR 0x22 # concat (map esc k') @ [CHR 0x22]) @ s"
      unfolding y by (simp add: separated_Cons member_text_triple)
    then obtain s where "at p2 (pre @ (CHR 0x22 # concat (map esc k') @ [CHR 0x22]) @ s)" using at2 by metis
    from starts_at [OF this Cons.prems(2)] have last2: "last_token p2 \<noteq> value_separator" by simp
    have "\<exists>p'. parse_members of_text None m True (Object (acc @ [(k, v)])) p2
        = Inr (Object ((acc @ [(k, v)]) @ map (\<lambda>(k, x, v). (k, v)) kxvs), p') \<and> at p' rest \<and> left p' < left p2"
      by (rule Cons.IH) (use Cons.prems False at2 p1 p2 n kxv in auto)
    moreover have "last_token p1 = value_separator" using atD(1) [OF sep comma_token] .
    ultimately show ?thesis
      using step parse_members_separator [OF _ p2(1) last2, of None j True "Object (acc @ [(k, v)])"] j p1(2) p2(3) kxv
      by (auto simp del: parse_members.simps)
  qed
qed simp

section \<open>Whole values\<close>

lemma dump_entries_map:
  "dump_entries pretty step indent m =
     map (member_text (replicate indent CHR '' '') (if pretty then '' '' else []))
       (map (\<lambda>(k, v). (k, dump pretty step indent v, norm v)) m)"
  by (induction m) (auto simp: member_text_triple escape_string_esc)

lemma dump_elements_map:
  "dump_elements pretty step indent xs =
     map (\<lambda>xv. replicate indent CHR '' '' @ fst xv) (map (\<lambda>v. (dump pretty step indent v, norm v)) xs)"
  by (induction xs) auto

lemma starts_dump:
  assumes "printable_json j"
  shows "starts (dump pretty step indent j)"
proof -
  have dec: "starts (decimal n)" for n
  proof -
    obtain d ds where d: "decimal n = d # ds" "isdigit d" using decimal_digits [of n] by (cases "decimal n") auto
    have ne: "d \<noteq> c" if "\<not> isdigit c" for c using d(2) that by auto
    show ?thesis unfolding d(1) starts_def by (simp add: is_blank_def ne isdigit_Char)
  qed
  show ?thesis
    using assms dec by (cases j) (auto simp: starts_def is_blank_def Let_def)
qed

lemma blank_texts [simp]:
  "blank_text (replicate n CHR '' '')" "blank_text []" "blank_text [CHR 0x0A]" "blank_text '' ''"
  "blank_text (v @ w) = (blank_text v \<and> blank_text w)"
  by (auto simp: blank_text_def list_all_iff)

lemma closing_token:
  "blank_text w \<Longrightarrow> token_at (skip_blanks (w @ CHR ''}'' # s)) = (end_object, s)"
  "blank_text w \<Longrightarrow> token_at (skip_blanks (w @ CHR '']'' # s)) = (end_array, s)"
  by (simp_all add: blank_text_skip) (simp_all add: is_blank_def token_at_def punctuation.simps)

lemma opening_token:
  "token_at (skip_blanks (CHR ''{'' # s)) = (begin_object, s)" "token_at (skip_blanks (CHR ''['' # s)) = (begin_array, s)"
  by (simp_all add: is_blank_def token_at_def punctuation.simps)

lemma blank_delim: "blank_text w \<Longrightarrow> c \<in> {CHR '']'', CHR ''}''} \<Longrightarrow> delim (w @ c # s)"
  by (cases w) (auto simp: blank_text_def delim_def)

lemma text_parses_object_text:
  assumes "\<forall>(k, x, v) \<in> set kxvs. text_parses x v \<and> v \<noteq> Discarded" "sorted_wrt (<) (map fst kxvs)" "kxvs \<noteq> []"
    and b: "blank_text pre" "blank_text gap" "blank_text w" "blank_text post"
  shows "text_parses (''{'' @ w @ separated ('','' @ w) (map (member_text pre gap) kxvs) @ post @ ''}'')
    (Object (map (\<lambda>(k, x, v). (k, v)) kxvs))"
proof (rule parsesI)
  fix rest p n
  let ?ms = "separated ('','' @ w) (map (member_text pre gap) kxvs)"
  let ?fin = "post @ CHR ''}'' # rest"
  assume a: "delim rest" "at p ((''{'' @ w @ ?ms @ post @ ''}'') @ rest)" "CHR 0x00 \<in> set rest" "Suc n > 2 * left p"
  then have open_at: "at p (CHR ''{'' # (w @ ?ms @ ?fin))" by simp
  obtain p1 where p1: "get_token of_text p = Inr p1" "at p1 (w @ ?ms @ ?fin)" "left p1 < left p"
    using next_at [OF open_at opening_token(1)] by auto
  have at1: "at p1 (?ms @ ?fin)" by (rule at_blank [OF p1(2) b(3)]) (use a(3) in auto)
  obtain k' x' v' kxvs' where y: "kxvs = (k', x', v') # kxvs'" using assms(3) by (metis list.exhaust prod_cases3)
  have "\<exists>s. ?ms @ ?fin = pre @ (CHR 0x22 # concat (map esc k') @ [CHR 0x22]) @ s"
    unfolding y by (simp add: separated_Cons member_text_triple)
  then obtain s where "at p1 (pre @ (CHR 0x22 # concat (map esc k') @ [CHR 0x22]) @ s)" using at1 by metis
  from starts_at [OF this b(1)] have first: "last_token p1 \<notin> {value_separator, end_array, end_object}" by simp
  obtain p2 where p2: "parse_members of_text None n True (Object []) p1 = Inr (Object (map (\<lambda>(k, x, v). (k, v)) kxvs), p2)"
    "at p2 ?fin" "left p2 < left p1"
    using text_parses_members [OF assms(1) b(1,2,3) assms(3,2) blank_delim [OF b(4)] _ _ at1, of n "[]"] a(3,4) p1(3)
      closing_token(1) [OF b(4), of rest] by auto
  obtain p3 where p3: "get_token of_text p2 = Inr p3" "at p3 rest" "left p3 < left p2"
    using next_at [OF p2(2) closing_token(1) [OF b(4)]] by auto
  have "last_token p2 = end_object" "last_token p = begin_object"
    using atD(1) [OF p2(2) closing_token(1) [OF b(4)]] atD(1) [OF open_at opening_token(1)] .
  then have "parse_internal of_text None (Suc n) True p = Inr (Object (map (\<lambda>(k, x, v). (k, v)) kxvs), p3)"
    using p1(1) p2(1) p3(1) first by (auto simp: start_value_def end_value_def expect_def unexpect_def)
  with p1(3) p2(3) p3(2,3) show "\<exists>p'. parse_internal of_text None (Suc n) True p = Inr (Object (map (\<lambda>(k, x, v). (k, v)) kxvs), p')
      \<and> at p' rest \<and> left p' < left p" by simp
qed

lemma text_parses_array_text:
  assumes "\<forall>(x, v) \<in> set xvs. text_parses x v \<and> v \<noteq> Discarded \<and> starts x" "xvs \<noteq> []"
    and b: "blank_text pre" "blank_text w" "blank_text post"
  shows "text_parses (''['' @ w @ separated ('','' @ w) (map (\<lambda>xv. pre @ fst xv) xvs) @ post @ '']'') (Array (map snd xvs))"
proof (rule parsesI)
  fix rest p n
  let ?es = "separated ('','' @ w) (map (\<lambda>xv. pre @ fst xv) xvs)"
  let ?fin = "post @ CHR '']'' # rest"
  assume a: "delim rest" "at p ((''['' @ w @ ?es @ post @ '']'') @ rest)" "CHR 0x00 \<in> set rest" "Suc n > 2 * left p"
  then have open_at: "at p (CHR ''['' # (w @ ?es @ ?fin))" by simp
  obtain p1 where p1: "get_token of_text p = Inr p1" "at p1 (w @ ?es @ ?fin)" "left p1 < left p"
    using next_at [OF open_at opening_token(2)] by auto
  have at1: "at p1 (?es @ ?fin)" by (rule at_blank [OF p1(2) b(2)]) (use a(3) in auto)
  obtain x v yvs where y: "xvs = (x, v) # yvs" using assms(2) by (cases xvs) auto
  have "\<exists>s. ?es @ ?fin = pre @ x @ s" unfolding y by (simp add: separated_Cons)
  then obtain s where "at p1 (pre @ x @ s)" using at1 by metis
  from starts_at [OF this b(1)] assms(1) y have first: "last_token p1 \<notin> {value_separator, end_array, end_object}" by auto
  obtain p2 where p2: "parse_elements of_text None n True (Array []) p1 = Inr (Array (map snd xvs), p2)"
    "at p2 ?fin" "left p2 < left p1"
    using text_parses_elements [OF assms(1) b(1,2) assms(2) blank_delim [OF b(3)] _ _ at1, of n "[]"] a(3,4) p1(3)
      closing_token(2) [OF b(3), of rest] by auto
  obtain p3 where p3: "get_token of_text p2 = Inr p3" "at p3 rest" "left p3 < left p2"
    using next_at [OF p2(2) closing_token(2) [OF b(3)]] by auto
  have "last_token p2 = end_array" "last_token p = begin_array"
    using atD(1) [OF p2(2) closing_token(2) [OF b(3)]] atD(1) [OF open_at opening_token(2)] .
  then have "parse_internal of_text None (Suc n) True p = Inr (Array (map snd xvs), p3)"
    using p1(1) p2(1) p3(1) first by (auto simp: start_value_def end_value_def expect_def unexpect_def)
  with p1(3) p2(3) p3(2,3) show "\<exists>p'. parse_internal of_text None (Suc n) True p = Inr (Array (map snd xvs), p')
      \<and> at p' rest \<and> left p' < left p" by simp
qed

lemma text_parses_empty: "text_parses ''{}'' (Object [])" "text_parses ''[]'' (Array [])"
proof -
  show "text_parses ''{}'' (Object [])"
  proof (rule parsesI)
    fix rest p n assume a: "delim rest" "at p (''{}'' @ rest)" "CHR 0x00 \<in> set rest"
    then have open_at: "at p (CHR ''{'' # CHR ''}'' # rest)" by simp
    note close = closing_token(1) [of "[]", simplified]
    obtain p1 where p1: "get_token of_text p = Inr p1" "at p1 (CHR ''}'' # rest)" "left p1 < left p"
      using next_at [OF open_at opening_token(1)] by auto
    obtain p2 where p2: "get_token of_text p1 = Inr p2" "at p2 rest" "left p2 < left p1"
      using next_at [OF p1(2) close] by auto
    have "last_token p1 = end_object" "last_token p = begin_object"
      using atD(1) [OF p1(2) close] atD(1) [OF open_at opening_token(1)] .
    then show "\<exists>p'. parse_internal of_text None (Suc n) True p = Inr (Object [], p') \<and> at p' rest \<and> left p' < left p"
      using p1 p2 by (simp add: start_value_def end_value_def)
  qed
  show "text_parses ''[]'' (Array [])"
  proof (rule parsesI)
    fix rest p n assume a: "delim rest" "at p (''[]'' @ rest)" "CHR 0x00 \<in> set rest"
    then have open_at: "at p (CHR ''['' # CHR '']'' # rest)" by simp
    note close = closing_token(2) [of "[]", simplified]
    obtain p1 where p1: "get_token of_text p = Inr p1" "at p1 (CHR '']'' # rest)" "left p1 < left p"
      using next_at [OF open_at opening_token(2)] by auto
    obtain p2 where p2: "get_token of_text p1 = Inr p2" "at p2 rest" "left p2 < left p1"
      using next_at [OF p1(2) close] by auto
    have "last_token p1 = end_array" "last_token p = begin_array"
      using atD(1) [OF p1(2) close] atD(1) [OF open_at opening_token(2)] .
    then show "\<exists>p'. parse_internal of_text None (Suc n) True p = Inr (Array [], p') \<and> at p' rest \<and> left p' < left p"
      using p1 p2 by (simp add: start_value_def end_value_def)
  qed
qed

lemma text_parses_dump: "printable_json j \<Longrightarrow> text_parses (dump pretty step indent j) (norm j)"
proof (induction j arbitrary: indent)
  case (Object m)
  let ?i = "if pretty then indent + step else indent"
  let ?w = "if pretty then [CHR 0x0A] else []"
  let ?kxvs = "map (\<lambda>(k, v). (k, dump pretty step ?i v, norm v)) m"
  have sub: "text_parses (dump pretty step i v) (norm v) \<and> norm v \<noteq> Discarded" if "(k, v) \<in> set m" for k v i
  proof -
    from Object.prems that have "printable_json v" by (force simp: list_all_iff)
    with Object.IH [OF that] show ?thesis by (auto simp: printable_json_norm)
  qed
  have keys: "map fst ?kxvs = map fst m" by (simp add: comp_def case_prod_unfold)
  show ?case
  proof (cases "m = []")
    case True
    then show ?thesis by (simp add: text_parses_empty)
  next
    case False
    have "text_parses (''{'' @ ?w @ separated ('','' @ ?w)
        (map (member_text (replicate ?i CHR '' '') (if pretty then '' '' else [])) ?kxvs)
        @ (?w @ replicate indent CHR '' '') @ ''}'') (Object (map (\<lambda>(k, x, v). (k, v)) ?kxvs))"
    proof (rule text_parses_object_text)
      show "sorted_wrt (<) (map fst ?kxvs)" using Object.prems by (simp only: keys printable_json.simps)
    qed (use False sub in auto)
    moreover have "map (\<lambda>(k, x, v). (k, v)) ?kxvs = map (map_prod id norm) m" by (simp add: comp_def case_prod_unfold map_prod_def)
    moreover have "dump pretty step indent (Object m) = ''{'' @ ?w @ separated ('','' @ ?w)
        (map (member_text (replicate ?i CHR '' '') (if pretty then '' '' else [])) ?kxvs)
        @ (?w @ replicate indent CHR '' '') @ ''}''"
      using False unfolding dump.simps Let_def dump_entries_map by auto
    ultimately show ?thesis by (simp only: norm.simps)
  qed
next
  case (Array xs)
  let ?i = "if pretty then indent + step else indent"
  let ?w = "if pretty then [CHR 0x0A] else []"
  let ?xvs = "map (\<lambda>v. (dump pretty step ?i v, norm v)) xs"
  have sub: "text_parses (dump pretty step i v) (norm v) \<and> norm v \<noteq> Discarded \<and> starts (dump pretty step i v)"
    if "v \<in> set xs" for v i
  proof -
    from Array.prems that have "printable_json v" by (auto simp: list_all_iff)
    with Array.IH [OF that] show ?thesis by (auto simp: printable_json_norm starts_dump)
  qed
  show ?case
  proof (cases "xs = []")
    case True
    then show ?thesis by (simp add: text_parses_empty)
  next
    case False
    have "text_parses (''['' @ ?w @ separated ('','' @ ?w) (map (\<lambda>xv. replicate ?i CHR '' '' @ fst xv) ?xvs)
        @ (?w @ replicate indent CHR '' '') @ '']'') (Array (map snd ?xvs))"
      by (rule text_parses_array_text) (use False sub in auto)
    moreover have "map snd ?xvs = map norm xs" by (simp add: comp_def)
    moreover have "dump pretty step indent (Array xs) = ''['' @ ?w @ separated ('','' @ ?w)
        (map (\<lambda>xv. replicate ?i CHR '' '' @ fst xv) ?xvs) @ (?w @ replicate indent CHR '' '') @ '']''"
      using False unfolding dump.simps Let_def dump_elements_map by auto
    ultimately show ?thesis by (simp only: norm.simps)
  qed
next
  case (Number_integer i)
  show ?case
  proof (cases "0 \<le> sint i")
    case True
    have "uint (word_of_int (sint i) :: 64 word) = sint i mod 2 ^ 64" by (simp only: uint_word_of_int) simp
    moreover have "sint i < 2 ^ 63" using sint_range_size [of i] by (simp add: size_word_def)
    ultimately have "uint i = sint i" using True by simp
    then have "nat (sint i) = unat i" by (metis unat_eq_nat_uint)
    with True text_parses_unsigned [of i] show ?thesis by simp
  next
    case False
    with Number_integer text_parses_negative [of i] show ?thesis by simp
  qed
qed (use text_parses_literals text_parses_string text_parses_unsigned in \<open>auto simp: escape_string_esc\<close>)



end
