(* ===== verification/JsonOps.thy ===== *)
theory JsonOps
  imports JsonText
begin

text \<open>
  Comparison of the values of \<open>json.hpp\<close>, element access, lookup, capacity and the modifiers that
  take a key or an index. An access through a reference that the caller may write to is split
  into the value read and the new container.
\<close>

section \<open>Comparison\<close>

text \<open>\<open>operator<\<close> on types: null, boolean, number, object, array, string.\<close>

fun type_order :: "value_t \<Rightarrow> nat" where
  "type_order T_null = 0"
| "type_order T_object = 3"
| "type_order T_array = 4"
| "type_order T_string = 5"
| "type_order T_boolean = 1"
| "type_order T_number_integer = 2"
| "type_order T_number_unsigned = 2"
| "type_order T_number_float = 2"
| "type_order T_discarded = 0"

definition type_less :: "value_t \<Rightarrow> value_t \<Rightarrow> bool" where
  "type_less l r \<longleftrightarrow> l \<noteq> T_discarded \<and> r \<noteq> T_discarded \<and> type_order l < type_order r"

text \<open>
  A signed and an unsigned number are compared as signed ones, a number and a floating-point
  number as floating-point numbers.
\<close>

fun json_eq :: "json \<Rightarrow> json \<Rightarrow> bool"
  and entries_eq :: "(string \<times> json) list \<Rightarrow> (string \<times> json) list \<Rightarrow> bool"
  and elements_eq :: "json list \<Rightarrow> json list \<Rightarrow> bool" where
  "json_eq (Array xs) (Array ys) \<longleftrightarrow> elements_eq xs ys"
| "json_eq (Object m) (Object m') \<longleftrightarrow> entries_eq m m'"
| "json_eq Null Null \<longleftrightarrow> True"
| "json_eq (String s) (String t) \<longleftrightarrow> s = t"
| "json_eq (Boolean a) (Boolean b) \<longleftrightarrow> a = b"
| "json_eq (Number_integer i) (Number_integer k) \<longleftrightarrow> i = k"
| "json_eq (Number_unsigned m) (Number_unsigned n) \<longleftrightarrow> m = n"
| "json_eq (Number_float d) (Number_float e) \<longleftrightarrow> d_eq d e"
| "json_eq (Number_integer i) (Number_float d) \<longleftrightarrow> d_eq (d_of_int (sint i)) d"
| "json_eq (Number_float d) (Number_integer i) \<longleftrightarrow> d_eq d (d_of_int (sint i))"
| "json_eq (Number_unsigned n) (Number_float d) \<longleftrightarrow> d_eq (d_of_int (uint n)) d"
| "json_eq (Number_float d) (Number_unsigned n) \<longleftrightarrow> d_eq d (d_of_int (uint n))"
| "json_eq (Number_unsigned n) (Number_integer i) \<longleftrightarrow> n = i"
| "json_eq (Number_integer i) (Number_unsigned n) \<longleftrightarrow> i = n"
| "json_eq _ _ \<longleftrightarrow> False"
| "entries_eq [] [] \<longleftrightarrow> True"
| "entries_eq ((k, v) # m) ((k', v') # m') \<longleftrightarrow> k = k' \<and> json_eq v v' \<and> entries_eq m m'"
| "entries_eq _ _ \<longleftrightarrow> False"
| "elements_eq [] [] \<longleftrightarrow> True"
| "elements_eq (x # xs) (y # ys) \<longleftrightarrow> json_eq x y \<and> elements_eq xs ys"
| "elements_eq _ _ \<longleftrightarrow> False"

text \<open>
  \<open>operator<\<close> on vectors and maps is lexicographical; pairs are compared by the key, then by the
  value.
\<close>

function (sequential) json_less :: "json \<Rightarrow> json \<Rightarrow> bool"
  and entries_less :: "(string \<times> json) list \<Rightarrow> (string \<times> json) list \<Rightarrow> bool"
  and elements_less :: "json list \<Rightarrow> json list \<Rightarrow> bool" where
  "json_less (Array xs) (Array ys) \<longleftrightarrow> elements_less xs ys"
| "json_less (Object m) (Object m') \<longleftrightarrow> entries_less m m'"
| "json_less (String s) (String t) \<longleftrightarrow> s < t"
| "json_less (Boolean a) (Boolean b) \<longleftrightarrow> a < b"
| "json_less (Number_integer i) (Number_integer k) \<longleftrightarrow> i <s k"
| "json_less (Number_unsigned m) (Number_unsigned n) \<longleftrightarrow> m < n"
| "json_less (Number_float d) (Number_float e) \<longleftrightarrow> d_less d e"
| "json_less (Number_integer i) (Number_float d) \<longleftrightarrow> d_less (d_of_int (sint i)) d"
| "json_less (Number_float d) (Number_integer i) \<longleftrightarrow> d_less d (d_of_int (sint i))"
| "json_less (Number_unsigned n) (Number_float d) \<longleftrightarrow> d_less (d_of_int (uint n)) d"
| "json_less (Number_float d) (Number_unsigned n) \<longleftrightarrow> d_less d (d_of_int (uint n))"
| "json_less (Number_integer i) (Number_unsigned n) \<longleftrightarrow> i <s n"
| "json_less (Number_unsigned n) (Number_integer i) \<longleftrightarrow> n <s i"
| "json_less l r \<longleftrightarrow> type_less (m_type l) (m_type r)"
| "entries_less m [] \<longleftrightarrow> False"
| "entries_less [] (kv # m') \<longleftrightarrow> True"
| "entries_less ((k, v) # m) ((k', v') # m') \<longleftrightarrow>
     (if k < k' \<or> \<not> k' < k \<and> json_less v v' then True
      else if k' < k \<or> \<not> k < k' \<and> json_less v' v then False
      else entries_less m m')"
| "elements_less xs [] \<longleftrightarrow> False"
| "elements_less [] (y # ys) \<longleftrightarrow> True"
| "elements_less (x # xs) (y # ys) \<longleftrightarrow>
     (if json_less x y then True else if json_less y x then False else elements_less xs ys)"
  by pat_completeness auto

termination
  by (relation "measure (\<lambda>c. case c of
       Inl (l, r) \<Rightarrow> size l + size r
     | Inr (Inl (m, m')) \<Rightarrow> size_list (size_prod (\<lambda>_. 0) size) m + size_list (size_prod (\<lambda>_. 0) size) m'
     | Inr (Inr (xs, ys)) \<Rightarrow> size_list size xs + size_list size ys)") auto

definition json_neq :: "json \<Rightarrow> json \<Rightarrow> bool" where
  "json_neq l r \<longleftrightarrow> \<not> json_eq l r"

definition json_le :: "json \<Rightarrow> json \<Rightarrow> bool" where
  "json_le l r \<longleftrightarrow> \<not> json_less r l"

definition json_gt :: "json \<Rightarrow> json \<Rightarrow> bool" where
  "json_gt l r \<longleftrightarrow> \<not> json_le l r"

definition json_ge :: "json \<Rightarrow> json \<Rightarrow> bool" where
  "json_ge l r \<longleftrightarrow> \<not> json_less l r"

section \<open>Capacity and lookup\<close>

fun json_empty :: "json \<Rightarrow> bool" where
  "json_empty Null \<longleftrightarrow> True"
| "json_empty (Array xs) \<longleftrightarrow> xs = []"
| "json_empty (Object m) \<longleftrightarrow> m = []"
| "json_empty j \<longleftrightarrow> False"

fun json_size :: "json \<Rightarrow> nat" where
  "json_size Null = 0"
| "json_size (Array xs) = length xs"
| "json_size (Object m) = length m"
| "json_size j = 1"

fun json_clear :: "json \<Rightarrow> json" where
  "json_clear (Number_integer i) = Number_integer 0"
| "json_clear (Number_unsigned n) = Number_unsigned 0"
| "json_clear (Number_float d) = Number_float 0"
| "json_clear (Boolean b) = Boolean False"
| "json_clear (String s) = String []"
| "json_clear (Array xs) = Array []"
| "json_clear (Object m) = Object []"
| "json_clear j = j"

text \<open>\<open>find\<close>: the value of the entry the iterator points to, if it is not \<open>end()\<close>.\<close>

fun json_find :: "string \<Rightarrow> json \<Rightarrow> json option" where
  "json_find k (Object m) = map_of m k"
| "json_find k j = None"

fun json_count :: "string \<Rightarrow> json \<Rightarrow> nat" where
  "json_count k (Object m) = (if map_of m k = None then 0 else 1)"
| "json_count k j = 0"

definition out_of_range :: "string \<Rightarrow> 'a res" where
  "out_of_range s = Inl (Out_of_range s)"

definition index_message :: "nat \<Rightarrow> string" where
  "index_message i = ''array index '' @ decimal i @ '' is out of range''"

definition key_message :: "string \<Rightarrow> string" where
  "key_message k = ''key '' @ [CHR 0x27] @ k @ [CHR 0x27] @ '' not found''"

fun at_index :: "nat \<Rightarrow> json \<Rightarrow> json res" where
  "at_index i (Array xs) = (if i < length xs then Inr (xs ! i) else out_of_range (index_message i))"
| "at_index i j = domain_error (''cannot use at() with '' @ type_name j)"

fun at_key :: "string \<Rightarrow> json \<Rightarrow> json res" where
  "at_key k (Object m) = (case map_of m k of Some v \<Rightarrow> Inr v | None \<Rightarrow> out_of_range (key_message k))"
| "at_key k j = domain_error (''cannot use at() with '' @ type_name j)"

text \<open>
  \<open>operator[]\<close> with an index: a value that may be written is filled up with nulls, up to the
  maximal size of a vector of 16-byte elements. The number of new elements is computed in
  \<open>size_t\<close>: the index \<open>2 ^ 64 - 1\<close> of an empty array adds none and is out of bounds. Reading a
  constant value is not checked.
\<close>

definition array_max :: nat where
  "array_max = 2 ^ 59 - 1"

definition fill_to :: "nat \<Rightarrow> json list \<Rightarrow> json list res" where
  "fill_to i xs =
     (let n = size_add i (1 - int (length xs))
      in if i < length xs then Inr xs
         else if n > array_max - length xs then Inl Length_error
         else Inr (xs @ replicate n Null))"

definition element :: "nat \<Rightarrow> json list \<Rightarrow> json res" where
  "element i xs = (if i < length xs then Inr (xs ! i) else Inl (Undefined Out_of_bounds))"

fun index_at :: "nat \<Rightarrow> json \<Rightarrow> (json \<times> json) res" where
  "index_at i Null = rbind (fill_to i []) (\<lambda>xs. rmap (\<lambda>x. (x, Array xs)) (element i xs))"
| "index_at i (Array xs) = rbind (fill_to i xs) (\<lambda>xs. rmap (\<lambda>x. (x, Array xs)) (element i xs))"
| "index_at i j = domain_error (''cannot use operator[] with '' @ type_name j)"

fun const_index_at :: "nat \<Rightarrow> json \<Rightarrow> json res" where
  "const_index_at i (Array xs) = element i xs"
| "const_index_at i j = domain_error (''cannot use operator[] with '' @ type_name j)"

fun const_index_key :: "string \<Rightarrow> json \<Rightarrow> json res" where
  "const_index_key k (Object m) =
     (case map_of m k of Some v \<Rightarrow> Inr v | None \<Rightarrow> Inl (Assertion ''m_value.object->find(key) != m_value.object->end()''))"
| "const_index_key k j = domain_error (''cannot use operator[] with '' @ type_name j)"

text \<open>\<open>value(key, default)\<close>, before the conversion to the type of the default.\<close>

fun value_or :: "string \<Rightarrow> json \<Rightarrow> json \<Rightarrow> json res" where
  "value_or k d (Object m) = (case map_of m k of Some v \<Rightarrow> Inr v | None \<Rightarrow> Inr d)"
| "value_or k d j = domain_error (''cannot use value() with '' @ type_name j)"

section \<open>Modifiers\<close>

fun remove_key :: "string \<Rightarrow> (string \<times> json) list \<Rightarrow> (string \<times> json) list" where
  "remove_key k [] = []"
| "remove_key k ((k', v) # m) = (if k = k' then m else (k', v) # remove_key k m)"

fun erase_key :: "string \<Rightarrow> json \<Rightarrow> (nat \<times> json) res" where
  "erase_key k (Object m) = Inr (json_count k (Object m), Object (remove_key k m))"
| "erase_key k j = domain_error (''cannot use erase() with '' @ type_name j)"

definition drop_at :: "nat \<Rightarrow> 'a list \<Rightarrow> 'a list" where
  "drop_at i xs = take i xs @ drop (Suc i) xs"

fun erase_index :: "nat \<Rightarrow> json \<Rightarrow> json res" where
  "erase_index i (Array xs) =
     (if i \<ge> length xs then out_of_range (index_message i) else Inr (Array (drop_at i xs)))"
| "erase_index i j = domain_error (''cannot use erase() with '' @ type_name j)"

text \<open>\<open>insert\<close> before an iterator of the value itself; the position is that of the iterator.\<close>

fun insert_value :: "nat \<Rightarrow> json \<Rightarrow> json \<Rightarrow> json res" where
  "insert_value i v (Array xs) = Inr (Array (take i xs @ v # drop i xs))"
| "insert_value i v j = domain_error (''cannot use insert() with '' @ type_name j)"

text \<open>\<open>insert\<close> of all elements of another array.\<close>

fun insert_range :: "nat \<Rightarrow> json list \<Rightarrow> json \<Rightarrow> json res" where
  "insert_range i vs (Array xs) = Inr (Array (take i xs @ vs @ drop i xs))"
| "insert_range i vs j = domain_error (''cannot use insert() with '' @ type_name j)"

text \<open>Assignment through a reference to the value of an entry.\<close>

fun set_entry :: "string \<Rightarrow> json \<Rightarrow> (string \<times> json) list \<Rightarrow> (string \<times> json) list" where
  "set_entry k y [] = []"
| "set_entry k y ((k', v) # m) = (if k = k' then (k', y) # m else (k', v) # set_entry k y m)"

fun set_key :: "string \<Rightarrow> json \<Rightarrow> json \<Rightarrow> json" where
  "set_key k y (Object m) = Object (set_entry k y m)"
| "set_key k y j = j"

fun set_index :: "nat \<Rightarrow> json \<Rightarrow> json \<Rightarrow> json" where
  "set_index i y (Array xs) = Array (xs[i := y])"
| "set_index i y j = j"

text \<open>\<open>push_back\<close> of an entry: \<open>std::map::insert\<close> keeps an entry that is there.\<close>

fun push_entry :: "string \<times> json \<Rightarrow> json \<Rightarrow> json res" where
  "push_entry kv Null = Inr (Object [kv])"
| "push_entry (k, v) (Object m) = Inr (Object (emplace k v m))"
| "push_entry kv j = domain_error (''cannot use push_back() with '' @ type_name j)"

text \<open>\<open>push_back\<close> of an initializer list: two elements, a string first, are an entry of an object.\<close>

definition push_init :: "json list \<Rightarrow> json \<Rightarrow> json res" where
  "push_init init j =
     (case (j, init) of
        (Object m, [String k, v]) \<Rightarrow> push_entry (k, v) j
      | _ \<Rightarrow> push_back (json_init init) j)"

section \<open>Entries of an object\<close>

text \<open>
  What the operations promise of the entries: the keys stay sorted, and the entries behave like a
  map.
\<close>

abbreviation sorted_keys :: "(string \<times> json) list \<Rightarrow> bool" where
  "sorted_keys m \<equiv> sorted_wrt (<) (map fst m)"

lemma emplace_keys: "fst ` set (emplace k v m) = insert k (fst ` set m)"
proof (induction m)
  case (Cons kv m)
  then show ?case by (cases kv) (simp add: insert_commute)
qed simp

lemma emplace_sorted: "sorted_keys m \<Longrightarrow> sorted_keys (emplace k v m)"
proof (induction m)
  case (Cons kv m)
  obtain k' v' where kv: "kv = (k', v')" by (cases kv)
  have "\<forall>x \<in> fst ` set (emplace k v m). k' < x" if "k' < k"
    unfolding emplace_keys using Cons.prems that by (simp add: kv)
  with Cons show ?case by (auto simp: kv)
qed simp

lemma sorted_lookup: "sorted_keys ((k, v) # m) \<Longrightarrow> k' \<le> k \<Longrightarrow> map_of m k' = None"
  by (force simp: map_of_eq_None_iff)

lemma emplace_lookup:
  "sorted_keys m \<Longrightarrow> map_of (emplace k v m) = (if map_of m k = None then (map_of m)(k \<mapsto> v) else map_of m)"
proof (induction m)
  case (Cons kv m)
  obtain k' v' where kv: "kv = (k', v')" by (cases kv)
  from Cons.prems have "map_of m k = None" if "k \<le> k'"
    using sorted_lookup [of k' v' m k] that by (simp add: kv)
  with Cons show ?case by (auto simp: kv fun_eq_iff)
qed simp

lemma remove_key_keys: "set (remove_key k m) \<subseteq> set m"
proof (induction m)
  case (Cons kv m)
  then show ?case by (cases kv) auto
qed simp

lemma remove_key_sorted: "sorted_keys m \<Longrightarrow> sorted_keys (remove_key k m)"
proof (induction m)
  case (Cons kv m)
  then show ?case using remove_key_keys [of k m] by (cases kv) (auto dest: subsetD)
qed simp

lemma remove_key_lookup: "sorted_keys m \<Longrightarrow> map_of (remove_key k m) = (map_of m)(k := None)"
proof (induction m)
  case (Cons kv m)
  obtain k' v' where kv: "kv = (k', v')" by (cases kv)
  from Cons.prems have "map_of m k' = None" using sorted_lookup [of k' v' m k'] by (simp add: kv)
  with Cons show ?case by (auto simp: kv fun_eq_iff)
qed simp

lemma set_entry_keys [simp]: "map fst (set_entry k y m) = map fst m"
  by (induction m) auto

lemma set_entry_lookup:
  "map_of (set_entry k y m) = (if map_of m k = None then map_of m else (map_of m)(k \<mapsto> y))"
  by (induction m) (auto simp: fun_eq_iff)

lemma set_entry_twice: "set_entry k z (set_entry k y m) = set_entry k z m"
  by (induction m) auto

lemma set_entry_same: "map_of m k = Some x \<Longrightarrow> set_entry k x m = m"
  by (induction m) auto

text \<open>Two objects with the same sorted keys and equal values are equal.\<close>

lemma sorted_keys_distinct: "sorted_keys m \<Longrightarrow> distinct (map fst m)"
  by (induction m) auto

section \<open>Well-formed values\<close>

text \<open>
  The objects are maps, and no value is the mark that a parser callback leaves. A value equals
  itself when it has no NaN in it.
\<close>

fun wf_json :: "json \<Rightarrow> bool" where
  "wf_json (Object m) \<longleftrightarrow> sorted_keys m \<and> (\<forall>kv \<in> set m. wf_json (snd kv))"
| "wf_json (Array xs) \<longleftrightarrow> (\<forall>x \<in> set xs. wf_json x)"
| "wf_json Discarded \<longleftrightarrow> False"
| "wf_json j \<longleftrightarrow> True"

fun comparable :: "json \<Rightarrow> bool" where
  "comparable (Object m) \<longleftrightarrow> (\<forall>kv \<in> set m. comparable (snd kv))"
| "comparable (Array xs) \<longleftrightarrow> (\<forall>x \<in> set xs. comparable x)"
| "comparable (Number_float d) \<longleftrightarrow> \<not> d_nan d"
| "comparable Discarded \<longleftrightarrow> False"
| "comparable j \<longleftrightarrow> True"

lemma d_eq_refl: "d_eq d d \<longleftrightarrow> \<not> d_nan d"
  by (simp add: d_eq_def)

lemma elements_eq_iff: "elements_eq xs ys \<longleftrightarrow> list_all2 json_eq xs ys"
proof (induction xs arbitrary: ys)
  case Nil
  show ?case by (cases ys) simp_all
next
  case (Cons x xs)
  show ?case by (cases ys) (simp_all add: Cons.IH)
qed

lemma entries_eq_iff: "entries_eq m m' \<longleftrightarrow> list_all2 (\<lambda>a b. fst a = fst b \<and> json_eq (snd a) (snd b)) m m'"
proof (induction m arbitrary: m')
  case Nil
  show ?case by (cases m') simp_all
next
  case (Cons kv m)
  obtain k v where kv: "kv = (k, v)" by (cases kv)
  show ?case
  proof (cases m')
    case (Cons kv' m'')
    obtain k' v' where kv': "kv' = (k', v')" by (cases kv')
    show ?thesis unfolding kv Cons kv' by (simp add: Cons.IH)
  qed (simp add: kv)
qed

lemma snd_in: "snd kv \<in> Basic_BNFs.snds kv"
  by (cases kv) (simp add: snds.intros)

lemma json_eq_refl: "json_eq j j \<longleftrightarrow> comparable j"
proof (induction j)
  case (Object m)
  then have "\<forall>kv \<in> set m. json_eq (snd kv) (snd kv) \<longleftrightarrow> comparable (snd kv)"
    using snd_in by blast
  then show ?case by (simp add: entries_eq_iff list_all2_same)
next
  case (Array xs)
  then show ?case by (simp add: elements_eq_iff list_all2_same)
qed (simp_all add: d_eq_refl)

lemma wf_lookup: "wf_json (Object m) \<Longrightarrow> map_of m k = Some x \<Longrightarrow> wf_json x"
  by (fastforce dest: map_of_SomeD)

end
