(* ===== verification/JsonIter.thy ===== *)
theory JsonIter
  imports JsonOps
begin

text \<open>
  The iterators of \<open>json.hpp\<close>: \<open>const_iterator\<close>, \<open>iterator\<close> (which only adds casts),
  \<open>json_reverse_iterator\<close> and the proxy of \<open>iterator_wrapper\<close>, and the members of a value that
  work with them. Values live in a store \<open>h\<close> at addresses; an iterator has the address of its
  value and a position: that of the element in an array or object, or the number of a
  \<open>primitive_iterator_t\<close>. What a change of the value does to other iterators of it is not tracked.
\<close>

section \<open>Iterators\<close>

type_synonym store = "nat \<Rightarrow> json"

record iter =
  m_object :: "nat option"
  m_it :: int

text \<open>\<open>const_iterator()\<close>: no value.\<close>

definition iter_none :: iter where
  "iter_none = \<lparr>m_object = None, m_it = 0\<rparr>"

definition the_object :: "store \<Rightarrow> iter \<Rightarrow> json res" where
  "the_object h it = (case m_object it of None \<Rightarrow> Inl (Assertion ''m_object != nullptr'') | Some a \<Rightarrow> Inr (h a))"

text \<open>\<open>primitive_iterator_t\<close>: 0 is the beginning, 1 the end.\<close>

definition primitive_begin :: int where "primitive_begin = 0"
definition primitive_end :: int where "primitive_end = primitive_begin + 1"

fun begin_pos :: "json \<Rightarrow> int" where
  "begin_pos (Object m) = 0"
| "begin_pos (Array xs) = 0"
| "begin_pos Null = primitive_end"
| "begin_pos j = primitive_begin"

fun end_pos :: "json \<Rightarrow> int" where
  "end_pos (Object m) = int (length m)"
| "end_pos (Array xs) = int (length xs)"
| "end_pos j = primitive_end"

definition set_begin :: "store \<Rightarrow> iter \<Rightarrow> iter res" where
  "set_begin h it = rbind (the_object h it) (\<lambda>j. Inr (it\<lparr>m_it := begin_pos j\<rparr>))"

definition set_end :: "store \<Rightarrow> iter \<Rightarrow> iter res" where
  "set_end h it = rbind (the_object h it) (\<lambda>j. Inr (it\<lparr>m_it := end_pos j\<rparr>))"

text \<open>\<open>begin()\<close> and \<open>end()\<close> of the value at an address.\<close>

definition json_begin :: "store \<Rightarrow> nat \<Rightarrow> iter" where
  "json_begin h a = \<lparr>m_object = Some a, m_it = begin_pos (h a)\<rparr>"

definition json_end :: "store \<Rightarrow> nat \<Rightarrow> iter" where
  "json_end h a = \<lparr>m_object = Some a, m_it = end_pos (h a)\<rparr>"

text \<open>An element of a container that must be there.\<close>

definition nth_int :: "'a list \<Rightarrow> int \<Rightarrow> 'a res" where
  "nth_int xs i = (if 0 \<le> i \<and> i < int (length xs) then Inr (xs ! nat i) else Inl (Undefined Out_of_bounds))"

definition cannot_get :: "'a res" where
  "cannot_get = out_of_range ''cannot get value''"

definition deref :: "store \<Rightarrow> iter \<Rightarrow> json res" where
  "deref h it = rbind (the_object h it) (\<lambda>j.
     case j of
       Object m \<Rightarrow>
         if m_it it = int (length m) then Inl (Assertion ''m_it.object_iterator != m_object->m_value.object->end()'')
         else rmap snd (nth_int m (m_it it))
     | Array xs \<Rightarrow>
         if m_it it = int (length xs) then Inl (Assertion ''m_it.array_iterator != m_object->m_value.array->end()'')
         else nth_int xs (m_it it)
     | Null \<Rightarrow> cannot_get
     | j \<Rightarrow> if m_it it = primitive_begin then Inr j else cannot_get)"

text \<open>\<open>operator->\<close> has no case of its own for null.\<close>

definition arrow :: "store \<Rightarrow> iter \<Rightarrow> json res" where
  "arrow h it = rbind (the_object h it) (\<lambda>j.
     case j of
       Null \<Rightarrow> if m_it it = primitive_begin then Inr j else cannot_get
     | _ \<Rightarrow> deref h it)"

text \<open>\<open>std::advance\<close> within a container of size \<open>n\<close>, and arithmetic on \<open>ptrdiff_t\<close>.\<close>

definition advance :: "nat \<Rightarrow> int \<Rightarrow> iter \<Rightarrow> iter res" where
  "advance n i it =
     (if 0 \<le> m_it it + i \<and> m_it it + i \<le> int n then Inr (it\<lparr>m_it := m_it it + i\<rparr>) else Inl (Undefined Out_of_bounds))"

definition ptrdiff :: "int \<Rightarrow> int res" where
  "ptrdiff i = (if - (2 ^ 63) \<le> i \<and> i < 2 ^ 63 then Inr i else Inl (Undefined Signed_overflow))"

definition shift :: "int \<Rightarrow> iter \<Rightarrow> iter res" where
  "shift i it = rmap (\<lambda>p. it\<lparr>m_it := p\<rparr>) (ptrdiff (m_it it + i))"

definition step_by :: "store \<Rightarrow> int \<Rightarrow> iter \<Rightarrow> iter res" where
  "step_by h i it = rbind (the_object h it) (\<lambda>j.
     case j of
       Object m \<Rightarrow> advance (length m) i it
     | Array xs \<Rightarrow> advance (length xs) i it
     | _ \<Rightarrow> shift i it)"

definition incr :: "store \<Rightarrow> iter \<Rightarrow> iter res" where
  "incr h it = step_by h 1 it"

definition decr :: "store \<Rightarrow> iter \<Rightarrow> iter res" where
  "decr h it = step_by h (- 1) it"

text \<open>The postfix forms: old value and new iterator.\<close>

definition incr_post :: "store \<Rightarrow> iter \<Rightarrow> (iter \<times> iter) res" where
  "incr_post h it = rmap (\<lambda>it'. (it, it')) (incr h it)"

definition decr_post :: "store \<Rightarrow> iter \<Rightarrow> (iter \<times> iter) res" where
  "decr_post h it = rmap (\<lambda>it'. (it, it')) (decr h it)"

definition iter_eq :: "store \<Rightarrow> iter \<Rightarrow> iter \<Rightarrow> bool res" where
  "iter_eq h it other =
     (if m_object it \<noteq> m_object other then domain_error ''cannot compare iterators of different containers''
      else rbind (the_object h it) (\<lambda>j. Inr (m_it it = m_it other)))"

definition iter_neq :: "store \<Rightarrow> iter \<Rightarrow> iter \<Rightarrow> bool res" where
  "iter_neq h it other = rmap Not (iter_eq h it other)"

definition iter_less :: "store \<Rightarrow> iter \<Rightarrow> iter \<Rightarrow> bool res" where
  "iter_less h it other =
     (if m_object it \<noteq> m_object other then domain_error ''cannot compare iterators of different containers''
      else rbind (the_object h it) (\<lambda>j.
        case j of
          Object m \<Rightarrow> domain_error ''cannot compare order of object iterators''
        | _ \<Rightarrow> Inr (m_it it < m_it other)))"

definition iter_le :: "store \<Rightarrow> iter \<Rightarrow> iter \<Rightarrow> bool res" where
  "iter_le h it other = rmap Not (iter_less h other it)"

definition iter_greater :: "store \<Rightarrow> iter \<Rightarrow> iter \<Rightarrow> bool res" where
  "iter_greater h it other = rmap Not (iter_le h it other)"

definition iter_ge :: "store \<Rightarrow> iter \<Rightarrow> iter \<Rightarrow> bool res" where
  "iter_ge h it other = rmap Not (iter_less h it other)"

definition iter_plus :: "store \<Rightarrow> iter \<Rightarrow> int \<Rightarrow> iter res" where
  "iter_plus h it i = rbind (the_object h it) (\<lambda>j.
     case j of
       Object m \<Rightarrow> domain_error ''cannot use offsets with object iterators''
     | Array xs \<Rightarrow> advance (length xs) i it
     | _ \<Rightarrow> shift i it)"

definition iter_minus :: "store \<Rightarrow> iter \<Rightarrow> int \<Rightarrow> iter res" where
  "iter_minus h it i = rbind (ptrdiff (- i)) (iter_plus h it)"

text \<open>The difference is not defined for iterators of different arrays.\<close>

definition iter_diff :: "store \<Rightarrow> iter \<Rightarrow> iter \<Rightarrow> int res" where
  "iter_diff h it other = rbind (the_object h it) (\<lambda>j.
     case j of
       Object m \<Rightarrow> domain_error ''cannot use offsets with object iterators''
     | Array xs \<Rightarrow> if m_object it = m_object other then Inr (m_it it - m_it other) else Inl (Undefined Out_of_bounds)
     | _ \<Rightarrow> ptrdiff (m_it it - m_it other))"

definition iter_nth :: "store \<Rightarrow> iter \<Rightarrow> int \<Rightarrow> json res" where
  "iter_nth h it n = rbind (the_object h it) (\<lambda>j.
     case j of
       Object m \<Rightarrow> domain_error ''cannot use operator[] for object iterators''
     | Array xs \<Rightarrow> nth_int xs (m_it it + n)
     | Null \<Rightarrow> cannot_get
     | j \<Rightarrow> rbind (ptrdiff (- n)) (\<lambda>k. if m_it it = k then Inr j else cannot_get))"

definition iter_key :: "store \<Rightarrow> iter \<Rightarrow> string res" where
  "iter_key h it = rbind (the_object h it) (\<lambda>j.
     case j of
       Object m \<Rightarrow> rmap fst (nth_int m (m_it it))
     | _ \<Rightarrow> domain_error ''cannot use key() for non-object iterators'')"

section \<open>Reverse iterators\<close>

text \<open>
  A reverse iterator is its base and refers to the element before it. The difference of two is that
  of their bases.
\<close>

definition json_rbegin :: "store \<Rightarrow> nat \<Rightarrow> iter" where
  "json_rbegin h a = json_end h a"

definition json_rend :: "store \<Rightarrow> nat \<Rightarrow> iter" where
  "json_rend h a = json_begin h a"

definition rev_deref :: "store \<Rightarrow> iter \<Rightarrow> json res" where
  "rev_deref h rit = rbind (decr h rit) (deref h)"

definition rev_incr :: "store \<Rightarrow> iter \<Rightarrow> iter res" where
  "rev_incr h rit = decr h rit"

definition rev_decr :: "store \<Rightarrow> iter \<Rightarrow> iter res" where
  "rev_decr h rit = incr h rit"

definition rev_plus :: "store \<Rightarrow> iter \<Rightarrow> int \<Rightarrow> iter res" where
  "rev_plus h rit i = iter_minus h rit i"

definition rev_diff :: "store \<Rightarrow> iter \<Rightarrow> iter \<Rightarrow> int res" where
  "rev_diff h rit other = iter_diff h rit other"

definition rev_nth :: "store \<Rightarrow> iter \<Rightarrow> int \<Rightarrow> json res" where
  "rev_nth h rit n = rbind (rev_plus h rit n) (rev_deref h)"

definition rev_key :: "store \<Rightarrow> iter \<Rightarrow> string res" where
  "rev_key h rit = rbind (decr h rit) (iter_key h)"

section \<open>Proxy of \<open>iterator_wrapper\<close>\<close>

record iteration_proxy =
  anchor :: iter
  array_index :: nat

definition proxy_begin :: "store \<Rightarrow> nat \<Rightarrow> iteration_proxy" where
  "proxy_begin h a = \<lparr>anchor = json_begin h a, array_index = 0\<rparr>"

definition proxy_end :: "store \<Rightarrow> nat \<Rightarrow> iteration_proxy" where
  "proxy_end h a = \<lparr>anchor = json_end h a, array_index = 0\<rparr>"

definition proxy_incr :: "store \<Rightarrow> iteration_proxy \<Rightarrow> iteration_proxy res" where
  "proxy_incr h p = rmap (\<lambda>it. p\<lparr>anchor := it, array_index := size_add (array_index p) 1\<rparr>) (incr h (anchor p))"

definition proxy_neq :: "store \<Rightarrow> iteration_proxy \<Rightarrow> iteration_proxy \<Rightarrow> bool res" where
  "proxy_neq h p q = iter_neq h (anchor p) (anchor q)"

definition proxy_key :: "store \<Rightarrow> iteration_proxy \<Rightarrow> string res" where
  "proxy_key h p =
     (case m_object (anchor p) of
        None \<Rightarrow> Inl (Assertion ''anchor.m_object != nullptr'')
      | Some a \<Rightarrow>
          (case h a of
             Array xs \<Rightarrow> Inr (decimal (array_index p))
           | Object m \<Rightarrow> iter_key h (anchor p)
           | _ \<Rightarrow> Inr []))"

definition proxy_value :: "store \<Rightarrow> iteration_proxy \<Rightarrow> json res" where
  "proxy_value h p = deref h (anchor p)"

section \<open>Members of a value that work with iterators\<close>

text \<open>The value at address \<open>a\<close>: a changed value is returned, with the iterator.\<close>

definition json_front :: "store \<Rightarrow> nat \<Rightarrow> json res" where
  "json_front h a = deref h (json_begin h a)"

definition json_back :: "store \<Rightarrow> nat \<Rightarrow> json res" where
  "json_back h a = rbind (decr h (json_end h a)) (deref h)"

text \<open>An iterator to the element with number \<open>i\<close>.\<close>

definition iter_at :: "nat \<Rightarrow> int \<Rightarrow> iter" where
  "iter_at a i = \<lparr>m_object = Some a, m_it = i\<rparr>"

text \<open>\<open>find\<close>, with the iterator it returns.\<close>

fun entry_position :: "string \<Rightarrow> (string \<times> json) list \<Rightarrow> nat" where
  "entry_position k [] = 0"
| "entry_position k ((k', v) # m) = (if k = k' then 0 else Suc (entry_position k m))"

definition find_iter :: "store \<Rightarrow> nat \<Rightarrow> string \<Rightarrow> iter" where
  "find_iter h a k =
     (case h a of Object m \<Rightarrow> iter_at a (int (entry_position k m)) | _ \<Rightarrow> json_end h a)"

definition erase_iter :: "store \<Rightarrow> nat \<Rightarrow> iter \<Rightarrow> (iter \<times> json) res" where
  "erase_iter h a pos =
     (if m_object pos \<noteq> Some a then domain_error ''iterator does not fit current value''
      else case h a of
        Object m \<Rightarrow> rbind (nth_int m (m_it pos)) (\<lambda>_. Inr (iter_at a (m_it pos), Object (drop_at (nat (m_it pos)) m)))
      | Array xs \<Rightarrow> rbind (nth_int xs (m_it pos)) (\<lambda>_. Inr (iter_at a (m_it pos), Array (drop_at (nat (m_it pos)) xs)))
      | Null \<Rightarrow> domain_error (''cannot use erase() with '' @ type_name Null)
      | Discarded \<Rightarrow> domain_error (''cannot use erase() with '' @ type_name Discarded)
      | j \<Rightarrow> if m_it pos \<noteq> primitive_begin then out_of_range ''iterator out of range'' else Inr (json_end h a, Null))"

text \<open>The part of a container before, in and after a range, which must be one of the container.\<close>

definition cut :: "int \<Rightarrow> int \<Rightarrow> 'a list \<Rightarrow> ('a list \<times> 'a list \<times> 'a list) res" where
  "cut f l xs =
     (if 0 \<le> f \<and> f \<le> l \<and> l \<le> int (length xs)
      then Inr (take (nat f) xs, drop (nat f) (take (nat l) xs), drop (nat l) xs)
      else Inl (Undefined Out_of_bounds))"

definition erase_range :: "store \<Rightarrow> nat \<Rightarrow> iter \<Rightarrow> iter \<Rightarrow> (iter \<times> json) res" where
  "erase_range h a start stop =
     (if m_object start \<noteq> Some a \<or> m_object stop \<noteq> Some a then domain_error ''iterators do not fit current value''
      else case h a of
        Object m \<Rightarrow> rbind (cut (m_it start) (m_it stop) m) (\<lambda>(x, y, z). Inr (iter_at a (m_it start), Object (x @ z)))
      | Array xs \<Rightarrow> rbind (cut (m_it start) (m_it stop) xs) (\<lambda>(x, y, z). Inr (iter_at a (m_it start), Array (x @ z)))
      | Null \<Rightarrow> domain_error (''cannot use erase() with '' @ type_name Null)
      | Discarded \<Rightarrow> domain_error (''cannot use erase() with '' @ type_name Discarded)
      | j \<Rightarrow> if m_it start \<noteq> primitive_begin \<or> m_it stop \<noteq> primitive_end then out_of_range ''iterators out of range''
            else Inr (json_end h a, Null))"

text \<open>The constructor from a range.\<close>

definition json_range :: "store \<Rightarrow> iter \<Rightarrow> iter \<Rightarrow> json res" where
  "json_range h start stop =
     (if m_object start = None then Inl (Assertion ''first.m_object != nullptr'')
      else if m_object stop = None then Inl (Assertion ''last.m_object != nullptr'')
      else if m_object start \<noteq> m_object stop then domain_error ''iterators are not compatible''
      else rbind (the_object h start) (\<lambda>j.
        case j of
          Object m \<Rightarrow> rbind (cut (m_it start) (m_it stop) m) (\<lambda>(x, y, z). Inr (Object y))
        | Array xs \<Rightarrow> rbind (cut (m_it start) (m_it stop) xs) (\<lambda>(x, y, z). Inr (Array y))
        | Null \<Rightarrow> domain_error (''cannot use construct with iterators from '' @ type_name Null)
        | Discarded \<Rightarrow> domain_error (''cannot use construct with iterators from '' @ type_name Discarded)
        | j \<Rightarrow> if m_it start \<noteq> primitive_begin \<or> m_it stop \<noteq> primitive_end then out_of_range ''iterators out of range''
              else Inr j))"

definition insert_elements :: "store \<Rightarrow> nat \<Rightarrow> iter \<Rightarrow> json list res \<Rightarrow> (iter \<times> json) res" where
  "insert_elements h a pos vs =
     (case h a of
        Array xs \<Rightarrow>
          if m_object pos \<noteq> Some a then domain_error ''iterator does not fit current value''
          else rbind vs (\<lambda>vs. rbind (cut (m_it pos) (m_it pos) xs) (\<lambda>(x, y, z).
                 if length vs > array_max - length xs then Inl Length_error
                 else Inr (iter_at a (m_it pos), Array (x @ vs @ z))))
      | j \<Rightarrow> domain_error (''cannot use insert() with '' @ type_name j))"

definition insert_iter :: "store \<Rightarrow> nat \<Rightarrow> iter \<Rightarrow> json \<Rightarrow> (iter \<times> json) res" where
  "insert_iter h a pos val = insert_elements h a pos (Inr [val])"

definition insert_copies :: "store \<Rightarrow> nat \<Rightarrow> iter \<Rightarrow> nat \<Rightarrow> json \<Rightarrow> (iter \<times> json) res" where
  "insert_copies h a pos cnt val = insert_elements h a pos (Inr (replicate cnt val))"

definition insert_list :: "store \<Rightarrow> nat \<Rightarrow> iter \<Rightarrow> json list \<Rightarrow> (iter \<times> json) res" where
  "insert_list h a pos ilist = insert_elements h a pos (Inr ilist)"

text \<open>The array iterators of a value that is no array are value-initialized: an empty range.\<close>

definition insert_other :: "store \<Rightarrow> nat \<Rightarrow> iter \<Rightarrow> iter \<Rightarrow> iter \<Rightarrow> (iter \<times> json) res" where
  "insert_other h a pos start stop =
     insert_elements h a pos
       (if m_object start \<noteq> m_object stop then domain_error ''iterators do not fit''
        else if m_object start = Some a \<or> m_object stop = Some a
        then domain_error ''passed iterators may not belong to container''
        else case map_option h (m_object start) of
               Some (Array ys) \<Rightarrow> rbind (cut (m_it start) (m_it stop) ys) (\<lambda>(x, y, z). Inr y)
             | _ \<Rightarrow> Inr [])"

text \<open>The constructor of an array of copies.\<close>

definition json_copies :: "nat \<Rightarrow> json \<Rightarrow> json res" where
  "json_copies cnt val = (if cnt > array_max then Inl Length_error else Inr (Array (replicate cnt val)))"

text \<open>\<open>swap\<close> with a container or a string.\<close>

fun swap_array :: "json list \<Rightarrow> json \<Rightarrow> (json list \<times> json) res" where
  "swap_array other (Array xs) = Inr (xs, Array other)"
| "swap_array other j = domain_error (''cannot use swap() with '' @ type_name j)"

fun swap_object :: "(string \<times> json) list \<Rightarrow> json \<Rightarrow> ((string \<times> json) list \<times> json) res" where
  "swap_object other (Object m) = Inr (m, Object other)"
| "swap_object other j = domain_error (''cannot use swap() with '' @ type_name j)"

fun swap_string :: "string \<Rightarrow> json \<Rightarrow> (string \<times> json) res" where
  "swap_string other (String s) = Inr (s, String other)"
| "swap_string other j = domain_error (''cannot use swap() with '' @ type_name j)"

section \<open>Loops\<close>

text \<open>
  A loop from a begin to an end, \<open>for (; more; next)\<close>, collects what it reads. The contract
  of a traversal is that the positions come one after the other.
\<close>

fun collect :: "('i \<Rightarrow> bool res) \<Rightarrow> ('i \<Rightarrow> 'v res) \<Rightarrow> ('i \<Rightarrow> 'i res) \<Rightarrow> nat \<Rightarrow> 'i \<Rightarrow> 'v list res" where
  "collect cond read step 0 it = Inl Diverges"
| "collect cond read step (Suc fuel) it = rbind (cond it) (\<lambda>b.
     if b then rbind (read it) (\<lambda>x. rbind (step it) (\<lambda>it'. rmap ((#) x) (collect cond read step fuel it')))
     else Inr [])"

locale traversal =
  fixes cond :: "'i \<Rightarrow> bool res" and read :: "'i \<Rightarrow> 'v res" and step :: "'i \<Rightarrow> 'i res"
    and place :: "nat \<Rightarrow> 'i" and items :: "'v list"
  assumes cond_place: "k \<le> length items \<Longrightarrow> cond (place k) = Inr (k < length items)"
    and read_place: "k < length items \<Longrightarrow> read (place k) = Inr (items ! k)"
    and step_place: "k < length items \<Longrightarrow> step (place k) = Inr (place (Suc k))"
begin

lemma collect_from:
  "k \<le> length items \<Longrightarrow> length items - k < fuel \<Longrightarrow> collect cond read step fuel (place k) = Inr (drop k items)"
proof (induction fuel arbitrary: k)
  case (Suc fuel)
  show ?case
  proof (cases "k < length items")
    case True
    then have "collect cond read step fuel (place (Suc k)) = Inr (drop (Suc k) items)" using Suc by simp
    then show ?thesis using True by (simp add: cond_place read_place step_place Cons_nth_drop_Suc)
  qed (use Suc in \<open>simp add: cond_place\<close>)
qed simp

lemma collect_all: "length items < fuel \<Longrightarrow> collect cond read step fuel (place 0) = Inr items"
  using collect_from [of 0 fuel] by simp

end

lemma begin_end: "end_pos j = begin_pos j + int (length (elements j))"
  by (cases j) (simp_all add: primitive_end_def primitive_begin_def)

lemma elements_deref: "k < length (elements (h a)) \<Longrightarrow> deref h (iter_at a (begin_pos (h a) + int k)) = Inr (elements (h a) ! k)"
  by (cases "h a") (auto simp: deref_def the_object_def iter_at_def nth_int_def primitive_begin_def)

lemma step_by_one:
  "k < length (elements (h a)) \<Longrightarrow>
   step_by h 1 (iter_at a (begin_pos (h a) + int k)) = Inr (iter_at a (begin_pos (h a) + int (Suc k)))"
  "k < length (elements (h a)) \<Longrightarrow>
   step_by h (- 1) (iter_at a (begin_pos (h a) + int (Suc k))) = Inr (iter_at a (begin_pos (h a) + int k))"
  by (cases "h a"; force simp: step_by_def the_object_def iter_at_def advance_def shift_def ptrdiff_def primitive_begin_def)+

lemma iter_neq_at: "iter_neq h (iter_at a i) (iter_at a k) = Inr (i \<noteq> k)"
  by (simp add: iter_neq_def iter_eq_def the_object_def iter_at_def)

interpretation forward: traversal
  "\<lambda>it. iter_neq h it (json_end h a)" "deref h" "incr h" "\<lambda>k. iter_at a (begin_pos (h a) + int k)" "elements (h a)"
  for h :: store and a
  by unfold_locales
    (auto simp: json_end_def iter_at_def [symmetric] begin_end iter_neq_at elements_deref incr_def step_by_one)

interpretation backward: traversal
  "\<lambda>it. iter_neq h it (json_rend h a)" "rev_deref h" "rev_incr h" "\<lambda>k. iter_at a (end_pos (h a) - int k)" "rev (elements (h a))"
  for h :: store and a
proof unfold_locales
  fix k
  have pos: "end_pos (h a) - int k = begin_pos (h a) + int (Suc (length (elements (h a)) - Suc k))"
    if "k < length (elements (h a))" using that by (simp add: begin_end)
  show "iter_neq h (iter_at a (end_pos (h a) - int k)) (json_rend h a) = Inr (k < length (rev (elements (h a))))"
    if "k \<le> length (rev (elements (h a)))"
    using that by (auto simp: json_rend_def json_begin_def iter_at_def [symmetric] begin_end iter_neq_at)
  assume k: "k < length (rev (elements (h a)))"
  then have d: "decr h (iter_at a (end_pos (h a) - int k)) = Inr (iter_at a (begin_pos (h a) + int (length (elements (h a)) - Suc k)))"
    using step_by_one(2) [of "length (elements (h a)) - Suc k" h a] by (simp only: decr_def pos length_rev)
  then show "rev_deref h (iter_at a (end_pos (h a) - int k)) = Inr (rev (elements (h a)) ! k)"
    using k elements_deref [of "length (elements (h a)) - Suc k" h a] by (simp add: rev_deref_def rev_nth)
  show "rev_incr h (iter_at a (end_pos (h a) - int k)) = Inr (iter_at a (end_pos (h a) - int (Suc k)))"
    using k d by (simp add: rev_incr_def begin_end of_nat_diff algebra_simps)
qed

text \<open>The keys that \<open>iterator_wrapper\<close> reports.\<close>

fun keys_of :: "json \<Rightarrow> string list" where
  "keys_of (Object m) = map fst m"
| "keys_of (Array xs) = map decimal [0 ..< length xs]"
| "keys_of j = map (\<lambda>_. []) (elements j)"

text \<open>The three loops: \<open>for (auto& x : j)\<close>, the same in reverse, and over the wrapper.\<close>

definition for_each :: "store \<Rightarrow> nat \<Rightarrow> nat \<Rightarrow> json list res" where
  "for_each h a fuel = collect (\<lambda>it. iter_neq h it (json_end h a)) (deref h) (incr h) fuel (json_begin h a)"

definition for_each_reverse :: "store \<Rightarrow> nat \<Rightarrow> nat \<Rightarrow> json list res" where
  "for_each_reverse h a fuel =
     collect (\<lambda>it. iter_neq h it (json_rend h a)) (rev_deref h) (rev_incr h) fuel (json_rbegin h a)"

definition proxy_read :: "store \<Rightarrow> iteration_proxy \<Rightarrow> (string \<times> json) res" where
  "proxy_read h p = rbind (proxy_key h p) (\<lambda>k. rmap (Pair k) (proxy_value h p))"

definition for_each_entry :: "store \<Rightarrow> nat \<Rightarrow> nat \<Rightarrow> (string \<times> json) list res" where
  "for_each_entry h a fuel =
     collect (\<lambda>p. proxy_neq h p (proxy_end h a)) (proxy_read h) (proxy_incr h) fuel (proxy_begin h a)"

lemma keys_of_length: "length (keys_of j) = length (elements j)"
  by (cases j) simp_all

lemma proxy_key_at:
  "k < length (elements (h a)) \<Longrightarrow>
   proxy_key h \<lparr>anchor = iter_at a (begin_pos (h a) + int k), array_index = k\<rparr> = Inr (keys_of (h a) ! k)"
  by (cases "h a") (auto simp: proxy_key_def iter_key_def the_object_def iter_at_def nth_int_def)

lemma proxy_steps:
  assumes "length (elements (h a)) < 2 ^ 64"
  shows "traversal (\<lambda>p. proxy_neq h p (proxy_end h a)) (proxy_read h) (proxy_incr h)
           (\<lambda>k. \<lparr>anchor = iter_at a (begin_pos (h a) + int k), array_index = k\<rparr>)
           (zip (keys_of (h a)) (elements (h a)))"
proof unfold_locales
  fix k
  let ?n = "length (zip (keys_of (h a)) (elements (h a)))"
  let ?p = "\<lparr>anchor = iter_at a (begin_pos (h a) + int k), array_index = k\<rparr>"
  show "proxy_neq h ?p (proxy_end h a) = Inr (k < ?n)" if "k \<le> ?n"
    using that by (auto simp: proxy_neq_def proxy_end_def json_end_def iter_at_def [symmetric] begin_end iter_neq_at keys_of_length)
  assume k: "k < ?n"
  then show "proxy_read h ?p = Inr (zip (keys_of (h a)) (elements (h a)) ! k)"
    by (simp add: proxy_read_def proxy_key_at proxy_value_def elements_deref)
  have "size_add k 1 = Suc k" using k assms by (simp add: size_add_def)
  then show "proxy_incr h ?p = Inr \<lparr>anchor = iter_at a (begin_pos (h a) + int (Suc k)), array_index = Suc k\<rparr>"
    using k by (simp add: proxy_incr_def incr_def step_by_one keys_of_length)
qed

text \<open>
  C38: A range-based for visits the elements in order, a reverse loop in reverse order, and a loop over
  the wrapper with their keys.
\<close>

theorem loops_visit_elements:
  assumes "length (elements (h a)) < fuel" and "length (elements (h a)) < 2 ^ 64"
  shows "for_each h a fuel = Inr (elements (h a)) \<and>
         for_each_reverse h a fuel = Inr (rev (elements (h a))) \<and>
         for_each_entry h a fuel = Inr (zip (keys_of (h a)) (elements (h a)))"
proof (intro conjI)
  have "json_begin h a = iter_at a (begin_pos (h a) + int 0)" by (simp add: json_begin_def iter_at_def)
  then show "for_each h a fuel = Inr (elements (h a))"
    using forward.collect_all [where h=h and a=a and fuel=fuel] assms by (simp add: for_each_def)
  have "json_rbegin h a = iter_at a (end_pos (h a) - int 0)" by (simp add: json_rbegin_def json_end_def iter_at_def)
  then show "for_each_reverse h a fuel = Inr (rev (elements (h a)))"
    using backward.collect_all [where h=h and a=a and fuel=fuel] assms by (simp add: for_each_reverse_def)
  have "proxy_begin h a = \<lparr>anchor = iter_at a (begin_pos (h a) + int 0), array_index = 0\<rparr>"
    by (simp add: proxy_begin_def json_begin_def iter_at_def)
  then show "for_each_entry h a fuel = Inr (zip (keys_of (h a)) (elements (h a)))"
    using traversal.collect_all [OF proxy_steps, of h a fuel] assms by (simp add: for_each_entry_def keys_of_length)
qed

lemma loops_visit_elements_witness:
  "for_each (\<lambda>_. Array [Null, String ''a'']) 7 3 = Inr [Null, String ''a''] \<and>
   for_each_reverse (\<lambda>_. Array [Null, String ''a'']) 7 3 = Inr [String ''a'', Null] \<and>
   for_each_entry (\<lambda>_. Array [Null, String ''a'']) 7 3 = Inr [(decimal 0, Null), (decimal 1, String ''a'')]"
  using loops_visit_elements [of "\<lambda>_. Array [Null, String ''a'']" 7 3] by (simp add: upt_rec)

section \<open>Ranges\<close>

lemma cut_whole: "cut 0 (int (length xs)) xs = Inr ([], xs, [])"
  by (simp add: cut_def)

lemma cut_parts: "cut f l xs = Inr (x, y, z) \<Longrightarrow> xs = x @ y @ z \<and> f = int (length x) \<and> l = int (length (x @ y))"
proof (auto simp: cut_def split: if_splits)
  assume "0 \<le> f" "f \<le> l" "l \<le> int (length xs)"
  then have "take (nat f) (take (nat l) xs) = take (nat f) xs" by (simp add: min_def)
  then show "xs = take (nat f) xs @ drop (nat f) (take (nat l) xs) @ drop (nat l) xs"
    by (metis append_assoc append_take_drop_id)
qed

lemma cut_append: "cut (int (length x)) (int (length x)) (x @ z) = Inr (x, [], z)"
  by (simp add: cut_def)

text \<open>The copy of the range from begin to end is the value, if it can be iterated over.\<close>

lemma range_copy:
  "h a \<noteq> Null \<Longrightarrow> h a \<noteq> Discarded \<Longrightarrow> json_range h (json_begin h a) (json_end h a) = Inr (h a)"
  by (cases "h a") (simp_all add: json_range_def json_begin_def json_end_def the_object_def cut_whole [simplified])

lemma range_copy_null: "h a = Null \<Longrightarrow> \<exists>e. json_range h (json_begin h a) (json_end h a) = Inl e"
  by (simp add: json_range_def json_begin_def json_end_def the_object_def domain_error_def)

text \<open>
  Elements erased from an array and inserted at the returned iterator, from a copy that is another
  value, give the array again.
\<close>

theorem erase_then_insert:
  assumes "h a = Array xs" and "length xs \<le> array_max" and "a \<noteq> b"
    and "erase_range h a (iter_at a f) (iter_at a l) = Inr (pos, j)"
  shows "insert_other (h(a := j, b := Array xs)) a pos (iter_at b f) (iter_at b l) = Inr (pos, Array xs)"
proof -
  from assms obtain x y z where c: "cut f l xs = Inr (x, y, z)" and j: "j = Array (x @ z)" "pos = iter_at a f"
    by (auto simp: erase_range_def iter_at_def rbind_def split: sum.splits)
  from cut_parts [OF c] have "xs = x @ y @ z" "f = int (length x)" by auto
  moreover from this have "\<not> length y > array_max - length (x @ z)" using assms(2) by simp
  ultimately show ?thesis using c assms(3) by (simp add: insert_other_def insert_elements_def iter_at_def j cut_append)
qed

lemma erase_then_insert_witness:
  "insert_other ((\<lambda>_. Null)(3 := Array [Null], 4 := Array [Null, String ''a''])) 3 (iter_at 3 1) (iter_at 4 1) (iter_at 4 2)
     = Inr (iter_at 3 1, Array [Null, String ''a''])"
  using erase_then_insert [of "(\<lambda>_. Null)(3 := Array [Null, String ''a''])" 3 "[Null, String ''a'']" 4 1 2 "iter_at 3 1" "Array [Null]"]
  by (simp add: erase_range_def iter_at_def cut_def array_max_def)

text \<open>Erasing the range from begin to end leaves no elements.\<close>

lemma erase_all:
  "h a \<noteq> Null \<Longrightarrow> h a \<noteq> Discarded \<Longrightarrow>
   \<exists>it j. erase_range h a (json_begin h a) (json_end h a) = Inr (it, j) \<and> elements j = []"
  by (cases "h a") (simp_all add: erase_range_def json_begin_def json_end_def cut_whole [simplified])

text \<open>Erasing at the iterator that \<open>find\<close> returns is erasing the key.\<close>

lemma position_bound: "k \<in> fst ` set m \<Longrightarrow> entry_position k m < length m"
  by (induction k m rule: entry_position.induct) (auto simp: image_iff)

lemma drop_at_Suc: "drop_at (Suc i) (x # xs) = x # drop_at i xs"
  by (simp add: drop_at_def)

lemma remove_key_position: "k \<in> fst ` set m \<Longrightarrow> remove_key k m = drop_at (entry_position k m) m"
  by (induction k m rule: remove_key.induct) (auto simp: drop_at_Suc, simp_all add: drop_at_def)

lemma erase_found:
  assumes "h a = Object m" and "k \<in> fst ` set m"
  shows "rmap snd (erase_iter h a (find_iter h a k)) = rmap snd (erase_key k (h a))"
  using assms position_bound [OF assms(2)]
  by (simp add: erase_iter_def find_iter_def iter_at_def nth_int_def remove_key_position)

lemma find_missing: "h a = Object m \<Longrightarrow> k \<notin> fst ` set m \<Longrightarrow> find_iter h a k = json_end h a"
proof -
  have "k \<notin> fst ` set m \<Longrightarrow> entry_position k m = length m" for m :: "(string \<times> json) list" by (induction m) auto
  then show "h a = Object m \<Longrightarrow> k \<notin> fst ` set m \<Longrightarrow> find_iter h a k = json_end h a"
    by (simp add: find_iter_def json_end_def iter_at_def)
qed

section \<open>Random access\<close>

text \<open>
  In an array, the iterator \<open>i\<close> places on reads what \<open>operator[]\<close> reads, is \<open>i\<close> away and after the
  first one just when \<open>i\<close> is positive; for an object all of these are errors.
\<close>

lemma array_access:
  assumes "h a = Array xs" and "iter_plus h (iter_at a p) i = Inr it"
  shows "iter_diff h it (iter_at a p) = Inr i \<and> iter_less h (iter_at a p) it = Inr (0 < i) \<and>
         (p + i < int (length xs) \<longrightarrow> deref h it = iter_nth h (iter_at a p) i)"
  using assms
  by (auto simp: iter_plus_def iter_diff_def iter_less_def iter_nth_def deref_def the_object_def iter_at_def advance_def
      nth_int_def split: if_splits)

lemma object_no_offsets:
  "h a = Object m \<Longrightarrow>
   \<exists>e1 e2 e3 e4. iter_plus h (iter_at a p) i = Inl e1 \<and> iter_diff h (iter_at a p) (iter_at a q) = Inl e2 \<and>
     iter_less h (iter_at a p) (iter_at a q) = Inl e3 \<and> iter_nth h (iter_at a p) i = Inl e4"
  by (simp add: iter_plus_def iter_diff_def iter_less_def iter_nth_def the_object_def iter_at_def domain_error_def)

lemma copies_distance:
  assumes "json_copies n v = Inr (h a)"
  shows "iter_diff h (json_end h a) (json_begin h a) = Inr (int n)"
proof -
  have "h a = Array (replicate n v)" using assms by (simp add: json_copies_def split: if_splits)
  then show ?thesis by (simp add: iter_diff_def json_begin_def json_end_def the_object_def)
qed

text \<open>Going forward and back again is going nowhere.\<close>

lemma incr_decr: "incr h it = Inr it' \<Longrightarrow> 0 \<le> m_it it \<Longrightarrow> decr h it' = Inr it"
proof -
  assume *: "incr h it = Inr it'" "0 \<le> m_it it"
  then obtain a where a: "m_object it = Some a" by (cases "m_object it") (simp_all add: incr_def step_by_def the_object_def)
  show "decr h it' = Inr it"
    using * a by (cases "h a") (auto simp: incr_def decr_def step_by_def the_object_def advance_def shift_def ptrdiff_def split: if_splits)
qed

text \<open>
  The difference of reverse iterators is that of their bases: it has the wrong sign, so that
  \<open>rend() - rbegin()\<close> is minus the size.
\<close>

theorem reverse_difference_negated:
  assumes "h a = Array xs"
  shows "iter_diff h (json_end h a) (json_begin h a) = Inr (int (length xs)) \<and>
         rev_diff h (json_rend h a) (json_rbegin h a) = Inr (- int (length xs))"
  using assms
  by (simp add: rev_diff_def iter_diff_def json_rend_def json_rbegin_def json_begin_def json_end_def the_object_def)

lemma reverse_difference_negated_witness:
  "rev_diff (\<lambda>_. Array [Null]) (json_rend (\<lambda>_. Array [Null]) 5) (json_rbegin (\<lambda>_. Array [Null]) 5) = Inr (- 1)"
  using reverse_difference_negated [of "\<lambda>_. Array [Null]" 5 "[Null]"] by simp

text \<open>A null value has no elements, yet a decremented end iterator of it can be dereferenced with \<open>operator->\<close>.\<close>

lemma null_arrow:
  "h a = Null \<Longrightarrow> json_begin h a = json_end h a \<and>
   rbind (decr h (json_end h a)) (arrow h) = Inr Null \<and> rbind (decr h (json_end h a)) (deref h) = cannot_get"
  by (simp add: json_begin_def json_end_def decr_def step_by_def shift_def ptrdiff_def arrow_def deref_def the_object_def
      primitive_begin_def primitive_end_def)

end
