(* ===== verification/JsonPointer.thy ===== *)
theory JsonPointer
  imports JsonOps
begin

text \<open>
  The class \<open>json_pointer\<close> of \<open>json.hpp\<close>: parsing and printing of pointers, and the walk from a
  value along the reference tokens, with and without range checks and with creation of what is
  missing. A function that returns a reference is modelled by what a caller does with it: reading
  gives the value, writing takes the function \<open>f\<close> that is applied to the value referred to and
  gives the whole changed value. What a walk that ends with an exception has created before is not
  modelled.
\<close>

section \<open>Text of a pointer\<close>

text \<open>The only member is \<open>reference_tokens\<close>.\<close>

type_synonym json_pointer = "string list"

text \<open>
  \<open>std::string::find_first_of\<close> with one character and \<open>std::string::find\<close>, from a position on;
  \<open>npos\<close> is \<open>None\<close>.
\<close>

definition find_char :: "char \<Rightarrow> string \<Rightarrow> nat \<Rightarrow> nat option" where
  "find_char c s pos =
     (let r = dropWhile (\<lambda>x. x \<noteq> c) (drop pos s) in if r = [] then None else Some (length s - length r))"

fun search :: "string \<Rightarrow> string \<Rightarrow> nat option" where
  "search f [] = (if f = [] then Some 0 else None)"
| "search f (c # s) = (if take (length f) (c # s) = f then Some 0 else map_option Suc (search f s))"

definition find_string :: "string \<Rightarrow> string \<Rightarrow> nat \<Rightarrow> nat option" where
  "find_string f s pos = (if pos \<le> length s then map_option ((+) pos) (search f (drop pos s)) else None)"

lemma find_char_bounds: "find_char c s pos = Some p \<Longrightarrow> pos \<le> p \<and> p < length s"
proof -
  assume p: "find_char c s pos = Some p"
  let ?r = "dropWhile (\<lambda>x. x \<noteq> c) (drop pos s)"
  from p have r: "?r \<noteq> []" and "p = length s - length ?r" by (auto simp: find_char_def Let_def split: if_splits)
  moreover have "length ?r \<le> length s - pos" using length_dropWhile_le [of "\<lambda>x. x \<noteq> c" "drop pos s"] by simp
  moreover have "length ?r > 0" using r by simp
  ultimately show ?thesis by linarith
qed

lemma search_bounds: "search f s = Some p \<Longrightarrow> p + length f \<le> length s"
proof (induction s arbitrary: p)
  case (Cons c s)
  then show ?case
    by (auto split: if_splits) (metis length_Cons length_take min.absorb_iff2 min.commute)
qed (auto split: if_splits)

lemma find_string_bounds: "find_string f s pos = Some p \<Longrightarrow> pos \<le> p \<and> p + length f \<le> length s"
  by (auto simp: find_string_def split: if_splits dest!: search_bounds)

lemma replace_shrinks:
  assumes "s' = take pos s @ t @ drop (pos + length f) s" "f \<noteq> []" "find_string f s' (pos + length t) = Some p"
  shows "length s' - p < length s - pos"
proof -
  from find_string_bounds [OF assms(3)] have p: "pos + length t \<le> p" "p + length f \<le> length s'" by simp_all
  from assms(2) obtain c f' where f: "f = c # f'" by (cases f) auto
  show ?thesis using p unfolding assms(1) f by (cases "pos + length f \<le> length s") auto
qed

text \<open>
  The loop of \<open>replace_substring\<close>. The assertion that \<open>f\<close> is not empty holds in every call; the
  loop would not end without it.
\<close>

function replace_loop :: "string \<Rightarrow> string \<Rightarrow> string \<Rightarrow> nat option \<Rightarrow> string" where
  "replace_loop f t s None = s"
| "replace_loop f t s (Some pos) =
     (let s' = take pos s @ t @ drop (pos + length f) s
      in if f = [] then s else replace_loop f t s' (find_string f s' (pos + length t)))"
  by pat_completeness auto

termination
proof (relation "measure (\<lambda>(f, t, s, pos). case pos of None \<Rightarrow> 0 | Some p \<Rightarrow> Suc (length s - p))")
  fix f t s :: string and pos s'
  assume "s' = take pos s @ t @ drop (pos + length f) s" "f \<noteq> []"
  from replace_shrinks [OF this]
  show "((f, t, s', find_string f s' (pos + length t)), (f, t, s, Some pos))
      \<in> measure (\<lambda>(f, t, s, pos). case pos of None \<Rightarrow> 0 | Some p \<Rightarrow> Suc (length s - p))"
    by (auto split: option.splits)
qed simp

definition replace_substring :: "string \<Rightarrow> string \<Rightarrow> string \<Rightarrow> string" where
  "replace_substring s f t = replace_loop f t s (find_string f s 0)"

definition escape :: "string \<Rightarrow> string" where
  "escape s = replace_substring (replace_substring s ''~'' ''~0'') ''/'' ''~1''"

definition unescape :: "string \<Rightarrow> string" where
  "unescape s = replace_substring (replace_substring s ''~1'' ''/'') ''~0'' ''~''"

text \<open>The loop of \<open>split\<close> over the tildes of a reference token.\<close>

function tildes_ok :: "string \<Rightarrow> nat option \<Rightarrow> bool" where
  "tildes_ok t None \<longleftrightarrow> True"
| "tildes_ok t (Some pos) \<longleftrightarrow>
     \<not> (pos = length t - 1 \<or> t ! (pos + 1) \<noteq> CHR ''0'' \<and> t ! (pos + 1) \<noteq> CHR ''1'')
     \<and> tildes_ok t (find_char (CHR ''~'') t (pos + 1))"
  by pat_completeness auto

termination
  by (relation "measure (\<lambda>(t, pos). case pos of None \<Rightarrow> 0 | Some p \<Rightarrow> Suc (length t - p))")
     (auto split: option.splits dest!: find_char_bounds)

text \<open>The loop over the slashes: \<open>start\<close> is the position after one of them.\<close>

function split_loop :: "string \<Rightarrow> nat \<Rightarrow> json_pointer res" where
  "split_loop s start =
     (let slash = find_char (CHR ''/'') s start;
          tok = (case slash of None \<Rightarrow> drop start s | Some p \<Rightarrow> take (p - start) (drop start s))
      in if \<not> tildes_ok tok (find_char (CHR ''~'') tok 0)
         then domain_error (''escape error: '' @ [CHR 0x27] @ ''~'' @ [CHR 0x27] @ '' must be followed with '' @ [CHR 0x27] @ ''0''
                            @ [CHR 0x27] @ '' or '' @ [CHR 0x27] @ ''1'' @ [CHR 0x27])
         else case slash of
                None \<Rightarrow> Inr [unescape tok]
              | Some p \<Rightarrow> rmap ((#) (unescape tok)) (split_loop s (p + 1)))"
  by pat_completeness auto

termination
  by (relation "measure (\<lambda>(s, start). length s - start)") (auto dest!: find_char_bounds [OF sym])

declare split_loop.simps [simp del]

definition split :: "string \<Rightarrow> json_pointer res" where
  "split s =
     (if s = [] then Inr []
      else if s ! 0 \<noteq> CHR ''/''
      then domain_error (''JSON pointer must be empty or begin with '' @ [CHR 0x27] @ ''/'' @ [CHR 0x27])
      else split_loop s 1)"

definition to_string :: "json_pointer \<Rightarrow> string" where
  "to_string ts = foldl (\<lambda>a b. a @ ''/'' @ escape b) [] ts"

definition pop_back :: "json_pointer \<Rightarrow> (string \<times> json_pointer) res" where
  "pop_back ts = (if ts = [] then domain_error ''JSON pointer has no parent'' else Inr (last ts, butlast ts))"

definition top :: "json_pointer \<Rightarrow> json_pointer res" where
  "top ts = (if ts = [] then domain_error ''JSON pointer has no parent'' else Inr [ts ! 0])"

section \<open>The value a pointer refers to\<close>

text \<open>\<open>static_cast<size_type>\<close> of an \<open>int\<close>.\<close>

definition size_of_int :: "int \<Rightarrow> nat" where
  "size_of_int i = nat (i mod 2 ^ 64)"

definition unresolved :: "string \<Rightarrow> 'a res" where
  "unresolved t = out_of_range (''unresolved reference token '' @ [CHR 0x27] @ t @ [CHR 0x27])"

definition dash_error :: "json list \<Rightarrow> 'a res" where
  "dash_error xs = out_of_range (''array index '' @ [CHR 0x27] @ ''-'' @ [CHR 0x27] @ '' ('' @ decimal (length xs) @ '') is out of range'')"

definition zero_error :: "'a res" where
  "zero_error = domain_error (''array index must not begin with '' @ [CHR 0x27] @ ''0'' @ [CHR 0x27])"

definition leading_zero :: "string \<Rightarrow> bool" where
  "leading_zero t \<longleftrightarrow> length t > 1 \<and> t ! 0 = CHR ''0''"

text \<open>The index that a reference token stands for, with the checks of \<open>get_checked\<close>.\<close>

definition checked_index :: "string \<Rightarrow> json list \<Rightarrow> nat res" where
  "checked_index t xs =
     (if t = ''-'' then dash_error xs
      else if leading_zero t then zero_error
      else rmap size_of_int (stoi t))"

fun get_checked :: "json_pointer \<Rightarrow> json \<Rightarrow> json res" where
  "get_checked [] j = Inr j"
| "get_checked (t # ts) (Object m) = rbind (at_key t (Object m)) (get_checked ts)"
| "get_checked (t # ts) (Array xs) =
     rbind (checked_index t xs) (\<lambda>i. rbind (at_index i (Array xs)) (get_checked ts))"
| "get_checked (t # ts) j = unresolved t"

text \<open>Writing through the reference that \<open>get_checked\<close> returns.\<close>

fun with_checked :: "json_pointer \<Rightarrow> (json \<Rightarrow> json res) \<Rightarrow> json \<Rightarrow> json res" where
  "with_checked [] f j = f j"
| "with_checked (t # ts) f (Object m) =
     rbind (at_key t (Object m)) (\<lambda>x. rbind (with_checked ts f x) (\<lambda>y. Inr (set_key t y (Object m))))"
| "with_checked (t # ts) f (Array xs) =
     rbind (checked_index t xs) (\<lambda>i. rbind (at_index i (Array xs)) (\<lambda>x.
       rbind (with_checked ts f x) (\<lambda>y. Inr (set_index i y (Array xs)))))"
| "with_checked (t # ts) f j = unresolved t"

text \<open>The constant \<open>get_unchecked\<close>.\<close>

fun const_get_unchecked :: "json_pointer \<Rightarrow> json \<Rightarrow> json res" where
  "const_get_unchecked [] j = Inr j"
| "const_get_unchecked (t # ts) (Object m) = rbind (const_index_key t (Object m)) (const_get_unchecked ts)"
| "const_get_unchecked (t # ts) (Array xs) =
     rbind (checked_index t xs) (\<lambda>i. rbind (const_index_at i (Array xs)) (const_get_unchecked ts))"
| "const_get_unchecked (t # ts) j = unresolved t"

text \<open>Writing through \<open>operator[]\<close>, with a key and with an index.\<close>

definition via_key :: "string \<Rightarrow> (json \<Rightarrow> json res) \<Rightarrow> json \<Rightarrow> json res" where
  "via_key k f j = rbind (index_key k j) (\<lambda>(x, j'). rbind (f x) (\<lambda>y. Inr (set_key k y j')))"

definition via_index :: "nat \<Rightarrow> (json \<Rightarrow> json res) \<Rightarrow> json \<Rightarrow> json res" where
  "via_index i f j = rbind (index_at i j) (\<lambda>(x, j'). rbind (f x) (\<lambda>y. Inr (set_index i y j')))"

fun with_unchecked :: "json_pointer \<Rightarrow> (json \<Rightarrow> json res) \<Rightarrow> json \<Rightarrow> json res" where
  "with_unchecked [] f j = f j"
| "with_unchecked (t # ts) f (Object m) = via_key t (with_unchecked ts f) (Object m)"
| "with_unchecked (t # ts) f (Array xs) =
     (if leading_zero t then zero_error
      else if t = ''-'' then via_index (length xs) (with_unchecked ts f) (Array xs)
      else rbind (stoi t) (\<lambda>i. via_index (size_of_int i) (with_unchecked ts f) (Array xs)))"
| "with_unchecked (t # ts) f j = unresolved t"

fun with_created :: "json_pointer \<Rightarrow> (json \<Rightarrow> json res) \<Rightarrow> json \<Rightarrow> json res" where
  "with_created [] f j = f j"
| "with_created (t # ts) f Null =
     (if t = ''0'' then via_index 0 (with_created ts f) Null else via_key t (with_created ts f) Null)"
| "with_created (t # ts) f (Object m) = via_key t (with_created ts f) (Object m)"
| "with_created (t # ts) f (Array xs) =
     rbind (stoi t) (\<lambda>i. via_index (size_of_int i) (with_created ts f) (Array xs))"
| "with_created (t # ts) f j = domain_error ''invalid value to unflatten''"

section \<open>Facts about the text\<close>

text \<open>Replacing as a recursion over the text.\<close>

function replaced :: "string \<Rightarrow> string \<Rightarrow> string \<Rightarrow> string" where
  "replaced f t [] = []"
| "replaced f t (c # s) =
     (if f \<noteq> [] \<and> take (length f) (c # s) = f then t @ replaced f t (drop (length f) (c # s))
      else c # replaced f t s)"
  by pat_completeness auto

termination
  by (relation "measure (\<lambda>(f, t, s). length s)") (auto simp: neq_Nil_conv)

lemma search_None: "f \<noteq> [] \<Longrightarrow> search f s = None \<Longrightarrow> replaced f t s = s"
  by (induction s) (auto split: if_splits)

lemma search_Some:
  "f \<noteq> [] \<Longrightarrow> search f s = Some p \<Longrightarrow>
   replaced f t s = take p s @ t @ replaced f t (drop (p + length f) s)"
proof (induction s arbitrary: p)
  case (Cons c s)
  show ?case
  proof (cases "take (length f) (c # s) = f")
    case True
    then show ?thesis using Cons.prems by simp
  next
    case False
    then obtain q where "search f s = Some q" "p = Suc q" using Cons.prems by auto
    then show ?thesis using Cons False by simp
  qed
qed simp

lemma find_string_append: "find_string f (u @ s) (length u) = map_option ((+) (length u)) (search f s)"
  by (simp add: find_string_def)

lemma replace_loop_eq:
  "f \<noteq> [] \<Longrightarrow> replace_loop f t (u @ s) (find_string f (u @ s) (length u)) = u @ replaced f t s"
proof (induction "length s" arbitrary: u s rule: less_induct)
  case less
  show ?case
  proof (cases "search f s")
    case None
    then show ?thesis using less.prems by (simp add: find_string_append search_None)
  next
    case (Some p)
    let ?s = "drop (p + length f) s" and ?u = "u @ take p s @ t"
    have p: "p + length f \<le> length s" by (rule search_bounds [OF Some])
    have len: "length u + p + length t = length ?u" using p by simp
    have s': "take (length u + p) (u @ s) @ t @ drop (length u + p + length f) (u @ s) = ?u @ ?s" using p by simp
    have "length ?s < length s" using p less.prems by (cases f) auto
    from less.hyps [OF this less.prems, of ?u] show ?thesis
      using less.prems search_Some [OF less.prems Some, of t]
      by (simp only: find_string_append [of f u s] Some option.map replace_loop.simps Let_def s' len if_False append_assoc)
  qed
qed

lemma replace_substring_eq: "f \<noteq> [] \<Longrightarrow> replace_substring s f t = replaced f t s"
  using replace_loop_eq [of f t "[]" s] by (simp add: replace_substring_def)

definition tilde_char :: "char \<Rightarrow> string" where
  "tilde_char c = (if c = CHR ''~'' then ''~0'' else if c = CHR ''/'' then ''~1'' else [c])"

lemma replaced_char: "replaced [a] t s = concat (map (\<lambda>c. if c = a then t else [c]) s)"
  by (induction s) simp_all

lemma escape_eq: "escape s = concat (map tilde_char s)"
  by (induction s) (simp_all add: escape_def replace_substring_eq replaced_char tilde_char_def)

lemma unescape_escape: "unescape (escape s) = s"
proof -
  have "replaced ''~1'' ''/'' (escape s) = concat (map (\<lambda>c. if c = CHR ''~'' then ''~0'' else [c]) s)"
    by (induction s) (simp_all add: escape_eq tilde_char_def)
  moreover have "replaced ''~0'' ''~'' (concat (map (\<lambda>c. if c = CHR ''~'' then ''~0'' else [c]) s)) = s"
    by (induction s) simp_all
  ultimately show ?thesis by (simp add: unescape_def replace_substring_eq)
qed

lemma escape_inj: "escape s = escape t \<longleftrightarrow> s = t"
  by (metis unescape_escape)

lemma escape_no_slash: "CHR ''/'' \<notin> set (escape s)"
  by (auto simp: escape_eq tilde_char_def split: if_splits)

text \<open>Every tilde is the first character of an escape sequence.\<close>

fun escaped :: "string \<Rightarrow> bool" where
  "escaped [] \<longleftrightarrow> True"
| "escaped (c # s) \<longleftrightarrow> (c = CHR ''~'' \<longrightarrow> s \<noteq> [] \<and> hd s \<in> {CHR ''0'', CHR ''1''}) \<and> escaped s"

lemma find_char_append: "find_char c (u @ s) (length u) = map_option ((+) (length u)) (find_char c s 0)"
proof (cases "dropWhile (\<lambda>x. x \<noteq> c) s = []")
  case False
  then show ?thesis using length_dropWhile_le [of "\<lambda>x. x \<noteq> c" s] by (simp add: find_char_def)
qed (simp add: find_char_def)

lemma find_char_Cons: "find_char c (x # s) 0 = (if x = c then Some 0 else map_option Suc (find_char c s 0))"
proof (cases "dropWhile (\<lambda>x. x \<noteq> c) s = []")
  case False
  then show ?thesis
    using length_dropWhile_le [of "\<lambda>x. x \<noteq> c" s] by (simp add: find_char_def Let_def Suc_diff_le del: dropWhile_eq_Nil_conv)
qed (simp add: find_char_def)

lemma find_char_Nil: "find_char c [] 0 = None"
  by (simp add: find_char_def)

lemma tildes_ok_escaped: "tildes_ok (u @ t) (find_char (CHR ''~'') (u @ t) (length u)) \<longleftrightarrow> escaped t"
proof (induction t arbitrary: u)
  case Nil
  show ?case by (simp add: find_char_def)
next
  case (Cons c t)
  have next': "tildes_ok (u @ c # t) (find_char (CHR ''~'') (u @ c # t) (Suc (length u))) \<longleftrightarrow> escaped t"
    using Cons.IH [of "u @ [c]"] by simp
  show ?case
  proof (cases "c = CHR ''~''")
    case True
    then have "find_char (CHR ''~'') (u @ c # t) (length u) = Some (length u)"
      by (simp add: find_char_append find_char_Cons)
    then show ?thesis using True next' by (cases t) (simp_all add: nth_append)
  next
    case False
    then have "find_char (CHR ''~'') (u @ c # t) (length u) = find_char (CHR ''~'') (u @ c # t) (Suc (length u))"
      using find_char_append [of "CHR ''~''" "u @ [c]" t]
      by (cases "find_char (CHR ''~'') t 0") (simp_all add: find_char_append find_char_Cons)
    then show ?thesis using False next' by simp
  qed
qed

lemma escaped_escape: "escaped (escape s)"
proof (induction s)
  case (Cons c s)
  then show ?case by (simp add: escape_eq tilde_char_def)
qed (simp add: escape_eq)

lemma escaped_is_escape: "escaped t \<Longrightarrow> CHR ''/'' \<notin> set t \<Longrightarrow> \<exists>s. t = escape s"
proof (induction "length t" arbitrary: t rule: less_induct)
  case less
  show ?case
  proof (cases t)
    case Nil
    then show ?thesis by (intro exI [of _ "[]"]) (simp add: escape_eq)
  next
    case (Cons c r)
    show ?thesis
    proof (cases "c = CHR ''~''")
      case False
      then obtain s where "r = escape s" using less Cons by auto
      moreover have "c \<noteq> CHR ''/''" using less.prems(2) Cons by auto
      ultimately show ?thesis using False Cons by (intro exI [of _ "c # s"]) (simp add: escape_eq tilde_char_def)
    next
      case True
      with less.prems Cons obtain d r' where r: "r = d # r'" and d: "d = CHR ''0'' \<or> d = CHR ''1''" by (cases r) auto
      then have "escaped r'" "CHR ''/'' \<notin> set r'" using less.prems Cons by auto
      then obtain s where "r' = escape s" using less.hyps [of r'] Cons r by auto
      then show ?thesis using True Cons r d
        by (intro exI [of _ "(if d = CHR ''0'' then CHR ''~'' else CHR ''/'') # s"]) (auto simp: escape_eq tilde_char_def)
    qed
  qed
qed

lemma to_string_eq: "to_string ts = concat (map (\<lambda>t. CHR ''/'' # escape t) ts)"
proof -
  have "foldl (\<lambda>a b. a @ ''/'' @ escape b) a ts = a @ concat (map (\<lambda>t. CHR ''/'' # escape t) ts)" for a
    by (induction ts arbitrary: a) simp_all
  then show ?thesis by (simp add: to_string_def)
qed

definition escape_error :: "'a res" where
  "escape_error = domain_error (''escape error: '' @ [CHR 0x27] @ ''~'' @ [CHR 0x27] @ '' must be followed with '' @ [CHR 0x27] @ ''0''
     @ [CHR 0x27] @ '' or '' @ [CHR 0x27] @ ''1'' @ [CHR 0x27])"

lemma find_char_None: "c \<notin> set r \<Longrightarrow> find_char c r 0 = None"
  by (induction r) (auto simp: find_char_Cons find_char_Nil)

lemma find_char_Some: "c \<notin> set a \<Longrightarrow> find_char c (a @ c # b) 0 = Some (length a)"
  by (induction a) (auto simp: find_char_Cons)

lemma split_last:
  "CHR ''/'' \<notin> set r \<Longrightarrow> split_loop (u @ r) (length u) = (if escaped r then Inr [unescape r] else escape_error)"
  using tildes_ok_escaped [of "[]" r]
  by (subst split_loop.simps) (simp add: find_char_append find_char_None escape_error_def)

lemma split_next:
  assumes "CHR ''/'' \<notin> set a"
  shows "split_loop (u @ a @ CHR ''/'' # b) (length u) =
    (if escaped a then rmap ((#) (unescape a)) (split_loop ((u @ a @ ''/'') @ b) (length (u @ a @ ''/''))) else escape_error)"
  using tildes_ok_escaped [of "[]" a] assms
  by (subst split_loop.simps) (simp add: find_char_append find_char_Some escape_error_def)

lemma split_loop_escape: "split_loop (u @ escape t @ to_string ts) (length u) = Inr (t # ts)"
proof (induction ts arbitrary: t u)
  case Nil
  show ?case by (simp add: to_string_eq split_last escape_no_slash escaped_escape unescape_escape)
next
  case (Cons t' ts)
  have "to_string (t' # ts) = CHR ''/'' # escape t' @ to_string ts" by (simp add: to_string_eq)
  then show ?case using Cons.IH [of "u @ escape t @ ''/''" t']
    by (simp only: split_next escape_no_slash not_False_eq_True escaped_escape unescape_escape if_True rmap_simps)
qed

lemma split_loop_sound: "split_loop (u @ r) (length u) = Inr ts \<Longrightarrow> to_string ts = CHR ''/'' # r"
proof (induction "length r" arbitrary: u r ts rule: less_induct)
  case less
  show ?case
  proof (cases "CHR ''/'' \<in> set r")
    case False
    then have "escaped r" "ts = [unescape r]"
      using less.prems by (auto simp: split_last escape_error_def domain_error_def split: if_splits)
    moreover obtain s where "r = escape s" using escaped_is_escape False \<open>escaped r\<close> by blast
    ultimately show ?thesis by (simp add: to_string_eq unescape_escape)
  next
    case True
    then obtain a b where r: "r = a @ CHR ''/'' # b" and a: "CHR ''/'' \<notin> set a" by (meson split_list_first)
    then obtain ts' where "escaped a" and ts: "ts = unescape a # ts'"
      and rest: "split_loop ((u @ a @ ''/'') @ b) (length (u @ a @ ''/'')) = Inr ts'"
      using less.prems unfolding r split_next [OF a]
      by (auto simp: escape_error_def domain_error_def rmap_def rbind_eq_Inr simp del: append_assoc split: if_splits)
    moreover obtain s where "a = escape s" using escaped_is_escape a \<open>escaped a\<close> by blast
    moreover have "to_string ts' = CHR ''/'' # b" using less.hyps [of b "u @ a @ ''/''" ts'] rest by (simp add: r)
    ultimately show ?thesis by (simp add: to_string_eq unescape_escape r)
  qed
qed

lemma split_to_string: "split (to_string ts) = Inr ts"
proof (cases ts)
  case (Cons t ts')
  then have "to_string ts = ''/'' @ escape t @ to_string ts'" by (simp add: to_string_eq)
  then show ?thesis using split_loop_escape [of "''/''" t ts'] Cons by (simp add: split_def)
qed (simp add: split_def to_string_eq)

lemma split_sound: "split s = Inr ts \<Longrightarrow> to_string ts = s"
proof (cases s)
  case (Cons c r)
  assume "split s = Inr ts"
  then have c: "c = CHR ''/''" and "split_loop s 1 = Inr ts"
    by (simp_all add: split_def domain_error_def Cons split: if_splits)
  then show ?thesis using split_loop_sound [of "''/''" r ts] by (simp add: Cons)
qed (simp add: split_def to_string_eq)

lemma to_string_inj: "to_string ts = to_string us \<longleftrightarrow> ts = us"
  by (metis split_to_string sum.inject(2))

lemma pointer_text_iff: "split s = Inr ts \<longleftrightarrow> to_string ts = s"
  using split_to_string split_sound by blast

text \<open>
  C22: A text is a pointer exactly when it is the text of its reference tokens, and it is the text of no
  other tokens: \<open>ptr == json_pointer(ptr.to_string())\<close>, as documented, and nothing else is parsed.
\<close>

theorem pointer_text: "split s = Inr ts \<longleftrightarrow> to_string ts = s"
  by (rule pointer_text_iff)

section \<open>References\<close>

text \<open>
  What a reference to a part of a value promises: a value that was written is read back, the last
  write counts, and writing what is there changes nothing. Code that only works through the
  reference is then known by what it does to the part.
\<close>

locale reference =
  fixes get :: "'s \<Rightarrow> 'v res" and put :: "'v \<Rightarrow> 's \<Rightarrow> 's"
  assumes get_put: "get s = Inr x \<Longrightarrow> get (put y s) = Inr y"
    and put_put: "get s = Inr x \<Longrightarrow> put z (put y s) = put z s"
    and put_get: "get s = Inr x \<Longrightarrow> put x s = s"
begin

lemma sequence:
  assumes "\<And>s. get s = Inr x \<Longrightarrow> F s = Inr (put y s)" and "\<And>s. get s = Inr y \<Longrightarrow> G s = Inr (put z s)"
    and "get s = Inr x"
  shows "rbind (F s) G = Inr (put z s)"
  using assms(1) [OF assms(3)] assms(2) [OF get_put [OF assms(3)]] put_put [OF assms(3)] by simp

lemma nothing: "get s = Inr x \<Longrightarrow> Inr s = Inr (put x s)"
  by (simp add: put_get)

end

text \<open>Writing at a pointer that can be resolved.\<close>

fun put_pointed :: "json_pointer \<Rightarrow> json \<Rightarrow> json \<Rightarrow> json" where
  "put_pointed [] y j = y"
| "put_pointed (t # ts) y (Object m) = (case map_of m t of None \<Rightarrow> Object m | Some x \<Rightarrow> set_key t (put_pointed ts y x) (Object m))"
| "put_pointed (t # ts) y (Array xs) =
     (case checked_index t xs of
        Inl e \<Rightarrow> Array xs
      | Inr i \<Rightarrow> if i < length xs then set_index i (put_pointed ts y (xs ! i)) (Array xs) else Array xs)"
| "put_pointed (t # ts) y j = j"

lemma get_object: "get_checked (t # ts) (Object m) = Inr x \<longleftrightarrow> (\<exists>v. map_of m t = Some v \<and> get_checked ts v = Inr x)"
  by (auto simp: rbind_eq_Inr out_of_range_def split: option.splits)

lemma get_array:
  "get_checked (t # ts) (Array xs) = Inr x \<longleftrightarrow>
   (\<exists>i. checked_index t xs = Inr i \<and> i < length xs \<and> get_checked ts (xs ! i) = Inr x)"
  by (auto simp: rbind_eq_Inr out_of_range_def split: if_splits)

lemma get_other: "get_checked (t # ts) j = Inr x \<Longrightarrow> (\<exists>m. j = Object m) \<or> (\<exists>xs. j = Array xs)"
  by (cases j) (simp_all add: unresolved_def out_of_range_def)

lemma checked_index_length: "length xs = length ys \<Longrightarrow> checked_index t xs = checked_index t ys"
  by (simp add: checked_index_def dash_error_def)

lemma get_checked_cases:
  assumes "get_checked ts j = Inr x"
  obtains "ts = []" "j = x"
  | t us m v where "ts = t # us" "j = Object m" "map_of m t = Some v" "get_checked us v = Inr x"
  | t us xs i where "ts = t # us" "j = Array xs" "checked_index t xs = Inr i" "i < length xs"
      "get_checked us (xs ! i) = Inr x"
proof (cases ts)
  case (Cons t us)
  then show ?thesis using get_other [of t us j x] assms that(2,3) get_object get_array by metis
qed (use assms that(1) in simp)

lemma get_put_at: "get_checked ts j = Inr x \<Longrightarrow> get_checked ts (put_pointed ts y j) = Inr y"
proof (induction ts arbitrary: j)
  case (Cons t ts)
  from Cons.prems show ?case
    by (rule get_checked_cases)
       (auto simp: Cons.IH set_entry_lookup rbind_eq_Inr checked_index_length [of "list_update _ _ _"])
qed simp

lemma put_put_at: "get_checked ts j = Inr x \<Longrightarrow> put_pointed ts z (put_pointed ts y j) = put_pointed ts z j"
proof (induction ts arbitrary: j)
  case (Cons t ts)
  from Cons.prems show ?case
    by (rule get_checked_cases)
       (auto simp: Cons.IH set_entry_lookup set_entry_twice checked_index_length [of "list_update _ _ _"])
qed simp

lemma put_get_at: "get_checked ts j = Inr x \<Longrightarrow> put_pointed ts x j = j"
proof (induction ts arbitrary: j)
  case (Cons t ts)
  from Cons.prems show ?case
    by (rule get_checked_cases) (auto simp: Cons.IH set_entry_same)
qed simp

interpretation pointee: reference "get_checked ts" "put_pointed ts" for ts
  by unfold_locales (fact get_put_at put_put_at put_get_at)+

lemma get_checked_append: "get_checked (ts @ us) j = rbind (get_checked ts j) (get_checked us)"
proof (induction ts arbitrary: j)
  case (Cons t ts)
  then have "get_checked (ts @ us) = (\<lambda>j. rbind (get_checked ts j) (get_checked us))" by blast
  then show ?case by (cases j) (simp_all add: unresolved_def out_of_range_def rbind_assoc)
qed simp

lemma put_pointed_append: "get_checked ts j = Inr x \<Longrightarrow> put_pointed (ts @ us) y j = put_pointed ts (put_pointed us y x) j"
proof (induction ts arbitrary: j)
  case (Cons t ts)
  from Cons.prems show ?case by (rule get_checked_cases) (auto simp: Cons.IH)
qed simp

lemma with_checked_eq:
  "with_checked ts f j = rbind (get_checked ts j) (\<lambda>x. rbind (f x) (\<lambda>y. Inr (put_pointed ts y j)))"
proof (induction ts arbitrary: j)
  case Nil
  show ?case by (cases "f j") simp_all
next
  case (Cons t ts)
  show ?case
  proof (cases j)
    case (Object m)
    then show ?thesis by (cases "map_of m t") (simp_all add: Cons.IH rbind_assoc out_of_range_def)
  next
    case (Array xs)
    then show ?thesis
      by (cases "checked_index t xs") (simp_all add: Cons.IH rbind_assoc out_of_range_def)
  qed (simp_all add: unresolved_def out_of_range_def)
qed

text \<open>Where a pointer can be resolved, all ways to follow it lead to the same value.\<close>

lemma index_key_there: "map_of m t = Some v \<Longrightarrow> index_key t (Object m) = Inr (v, Object m)"
  by simp

lemma index_at_there: "i < length xs \<Longrightarrow> index_at i (Array xs) = Inr (xs ! i, Array xs)"
  by (simp add: fill_to_def element_def Let_def)

lemma checked_index_Inr:
  "checked_index t xs = Inr i \<longleftrightarrow> t \<noteq> ''-'' \<and> \<not> leading_zero t \<and> (\<exists>k. stoi t = Inr k \<and> size_of_int k = i)"
  by (auto simp: checked_index_def dash_error_def zero_error_def domain_error_def out_of_range_def rmap_def rbind_eq_Inr)

lemma with_unchecked_there: "get_checked ts j = Inr x \<Longrightarrow> with_unchecked ts f j = with_checked ts f j"
proof (induction ts arbitrary: j)
  case (Cons t ts)
  from Cons.prems show ?case
  proof (rule get_checked_cases)
    fix u us xs i
    assume a: "t # ts = u # us" "j = Array xs" "checked_index u xs = Inr i" "i < length xs" "get_checked us (xs ! i) = Inr x"
    then show ?thesis using Cons.IH [of "xs ! i"] iffD1 [OF checked_index_Inr a(3)]
      by (auto simp: via_index_def index_at_there simp del: index_at.simps)
  qed (auto simp: Cons.IH via_key_def)
qed simp

lemma with_created_there: "get_checked ts j = Inr x \<Longrightarrow> with_created ts f j = with_checked ts f j"
proof (induction ts arbitrary: j)
  case (Cons t ts)
  from Cons.prems show ?case
  proof (rule get_checked_cases)
    fix u us xs i
    assume a: "t # ts = u # us" "j = Array xs" "checked_index u xs = Inr i" "i < length xs" "get_checked us (xs ! i) = Inr x"
    then show ?thesis using Cons.IH [of "xs ! i"] iffD1 [OF checked_index_Inr a(3)]
      by (auto simp: via_index_def index_at_there simp del: index_at.simps)
  qed (auto simp: Cons.IH via_key_def)
qed simp

lemma const_get_unchecked_there: "get_checked ts j = Inr x \<Longrightarrow> const_get_unchecked ts j = Inr x"
proof (induction ts arbitrary: j)
  case (Cons t ts)
  from Cons.prems show ?case by (rule get_checked_cases) (auto simp: Cons.IH element_def)
qed simp

text \<open>
  Where \<open>at\<close> finds a value, the unchecked accesses and \<open>get_and_create\<close> refer to the same value and
  create nothing, and a value written through any of them is what is read then.
\<close>

theorem accesses_agree:
  assumes "get_checked ts j = Inr x"
  shows "const_get_unchecked ts j = Inr x \<and> with_unchecked ts f j = with_checked ts f j
    \<and> with_created ts f j = with_checked ts f j
    \<and> (\<forall>j'. with_checked ts f j = Inr j' \<longrightarrow> get_checked ts j' = f x)"
  using assms const_get_unchecked_there with_unchecked_there with_created_there pointee.get_put
  by (auto simp: with_checked_eq rbind_eq_Inr)

theorem accesses_agree_witness:
  "with_unchecked [''a'', ''1''] (\<lambda>x. Inr (String ''x'')) (Object [(''a'', Array [Null, Boolean True])])
    = Inr (Object [(''a'', Array [Null, String ''x''])])"
proof -
  let ?j = "Object [(''a'', Array [Null, Boolean True])]"
  have "get_checked [''a'', ''1''] ?j = Inr (Boolean True)"
    by (simp add: checked_index_def leading_zero_def stoi_def isspace_def isdigit_def digits_val_def digit_val_def size_of_int_def)
  from accesses_agree [OF this, of "\<lambda>x. Inr (String ''x'')"] show ?thesis
    by (simp add: checked_index_def leading_zero_def stoi_def isspace_def isdigit_def digits_val_def digit_val_def size_of_int_def)
qed

section \<open>Well-formed values\<close>

lemma set_key_wf: "wf_json j \<Longrightarrow> wf_json y \<Longrightarrow> wf_json (set_key k y j)"
proof (cases j)
  case (Object m)
  assume "wf_json j" "wf_json y"
  moreover have "kv \<in> set (set_entry k y m) \<Longrightarrow> kv \<in> set m \<or> snd kv = y" for kv
    by (induction m) (auto split: if_splits)
  ultimately show ?thesis by (auto simp: Object)
qed simp_all

lemma set_index_wf: "wf_json j \<Longrightarrow> wf_json y \<Longrightarrow> wf_json (set_index i y j)"
  by (cases j) (auto dest!: set_update_subset_insert [THEN subsetD])

lemma index_key_wf: "wf_json j \<Longrightarrow> index_key k j = Inr (x, j') \<Longrightarrow> wf_json x \<and> wf_json j'"
proof (cases j)
  case (Object m)
  assume wf: "wf_json j" and eq: "index_key k j = Inr (x, j')"
  have new: "kv \<in> set (emplace k Null m) \<Longrightarrow> kv \<in> set m \<or> kv = (k, Null)" for kv
    by (induction m) (auto split: if_splits)
  show ?thesis
  proof (cases "map_of m k")
    case None
    have "wf_json (snd kv)" if "kv \<in> set (emplace k Null m)" for kv
      using new [OF that] wf by (auto simp: Object)
    then show ?thesis using None eq wf by (auto simp: Object emplace_sorted)
  next
    case (Some v)
    then show ?thesis using eq wf wf_lookup [of m k v] by (simp add: Object)
  qed
qed (auto simp: domain_error_def)

lemma fill_to_wf: "fill_to i xs = Inr ys \<Longrightarrow> \<forall>x \<in> set xs. wf_json x \<Longrightarrow> \<forall>x \<in> set ys. wf_json x"
  by (auto simp: fill_to_def Let_def split: if_splits)

lemma element_wf: "element i xs = Inr x \<Longrightarrow> \<forall>x \<in> set xs. wf_json x \<Longrightarrow> wf_json x"
  by (auto simp: element_def split: if_splits)

lemma index_at_wf: "wf_json j \<Longrightarrow> index_at i j = Inr (x, j') \<Longrightarrow> wf_json x \<and> wf_json j'"
  using fill_to_wf [of i "[]"] fill_to_wf [of i] element_wf
  by (cases j) (auto simp: rbind_eq_Inr rmap_def domain_error_def)

lemma via_key_wf:
  assumes "wf_json j" "via_key k f j = Inr j'" "\<And>x y. wf_json x \<Longrightarrow> f x = Inr y \<Longrightarrow> wf_json y"
  shows "wf_json j'"
proof -
  from assms(2) obtain x j1 y where "index_key k j = Inr (x, j1)" "f x = Inr y" "j' = set_key k y j1"
    by (auto simp: via_key_def rbind_eq_Inr)
  then show ?thesis using index_key_wf [OF assms(1)] assms(3) set_key_wf by blast
qed

lemma via_index_wf:
  assumes "wf_json j" "via_index i f j = Inr j'" "\<And>x y. wf_json x \<Longrightarrow> f x = Inr y \<Longrightarrow> wf_json y"
  shows "wf_json j'"
proof -
  from assms(2) obtain x j1 y where "index_at i j = Inr (x, j1)" "f x = Inr y" "j' = set_index i y j1"
    by (auto simp: via_index_def rbind_eq_Inr)
  then show ?thesis using index_at_wf [OF assms(1)] assms(3) set_index_wf by blast
qed

lemma with_unchecked_wf:
  assumes f: "\<And>x y. wf_json x \<Longrightarrow> f x = Inr y \<Longrightarrow> wf_json y"
  shows "wf_json j \<Longrightarrow> with_unchecked ts f j = Inr j' \<Longrightarrow> wf_json j'"
proof (induction ts arbitrary: j j')
  case (Cons t ts)
  note key = via_key_wf [OF Cons.prems(1) _ Cons.IH] and index = via_index_wf [OF Cons.prems(1) _ Cons.IH]
  show ?case
  proof (cases j)
    case (Object m)
    show ?thesis by (rule key) (use Cons.prems(2) Object in simp)
  next
    case (Array xs)
    then obtain i where "via_index i (with_unchecked ts f) j = Inr j'" using Cons.prems(2)
      by (auto simp: zero_error_def domain_error_def rbind_eq_Inr split: if_splits)
    then show ?thesis by (rule index)
  qed (use Cons.prems in \<open>simp_all add: unresolved_def out_of_range_def\<close>)
qed (use f in simp)

lemma with_created_wf:
  assumes f: "\<And>x y. wf_json x \<Longrightarrow> f x = Inr y \<Longrightarrow> wf_json y"
  shows "wf_json j \<Longrightarrow> with_created ts f j = Inr j' \<Longrightarrow> wf_json j'"
proof (induction ts arbitrary: j j')
  case (Cons t ts)
  note key = via_key_wf [OF Cons.prems(1) _ Cons.IH] and index = via_index_wf [OF Cons.prems(1) _ Cons.IH]
  show ?case
  proof (cases j)
    case Null
    then consider "via_index 0 (with_created ts f) j = Inr j'" | "via_key t (with_created ts f) j = Inr j'"
      using Cons.prems(2) by (auto split: if_splits)
    then show ?thesis
    proof cases
      case 1
      then show ?thesis by (rule index)
    next
      case 2
      then show ?thesis by (rule key)
    qed
  next
    case (Object m)
    show ?thesis by (rule key) (use Cons.prems(2) Object in simp)
  next
    case (Array xs)
    then obtain i where "via_index i (with_created ts f) j = Inr j'" using Cons.prems(2) by (auto simp: rbind_eq_Inr)
    then show ?thesis by (rule index)
  qed (use Cons.prems in \<open>simp_all add: domain_error_def\<close>)
qed (use f in simp)

lemma get_checked_wf: "wf_json j \<Longrightarrow> get_checked ts j = Inr x \<Longrightarrow> wf_json x"
proof (induction ts arbitrary: j)
  case (Cons t ts)
  from Cons.prems(2) show ?case
  proof (rule get_checked_cases)
    fix u us xs i
    assume a: "t # ts = u # us" "j = Array xs" "i < length xs" "get_checked us (xs ! i) = Inr x"
    then have "wf_json (xs ! i)" using Cons.prems(1) by simp
    then show ?thesis using a Cons.IH [of "xs ! i"] by simp
  next
    fix u us m v
    assume "t # ts = u # us" "j = Object m" "map_of m u = Some v" "get_checked us v = Inr x"
    then show ?thesis using Cons.prems(1) Cons.IH [of v] wf_lookup [of m u v] by simp
  qed simp
qed simp

lemma put_pointed_wf:
  assumes "wf_json j" "wf_json y" "get_checked ts j = Inr x"
  shows "wf_json (put_pointed ts y j)"
proof (rule with_unchecked_wf [of "\<lambda>_. Inr y" j ts])
  show "with_unchecked ts (\<lambda>_. Inr y) j = Inr (put_pointed ts y j)"
    using assms(3) by (simp add: with_unchecked_there with_checked_eq)
qed (use assms in auto)

end
