(* ===== verification/JsonTypes.thy ===== *)
theory JsonTypes
  imports JsonPointer
begin

text \<open>
  The constructors and conversions of \<open>json.hpp\<close>: values from types and initializer lists, the
  questions for the type, \<open>get\<close>, pointers and references to the stored value, access with a
  default. The conversion templates take the conversion of the elements as an argument; the locale
  \<open>convertible\<close> is the contract of a type that can be stored and read.
\<close>

section \<open>Constructors\<close>

text \<open>The value that \<open>basic_json(value_t)\<close> makes.\<close>

fun json_of_type :: "value_t \<Rightarrow> json" where
  "json_of_type T_object = Object []"
| "json_of_type T_array = Array []"
| "json_of_type T_string = String []"
| "json_of_type T_boolean = Boolean False"
| "json_of_type T_number_integer = Number_integer 0"
| "json_of_type T_number_unsigned = Number_unsigned 0"
| "json_of_type T_number_float = Number_float 0"
| "json_of_type T_null = Null"
| "json_of_type T_discarded = Discarded"

text \<open>A floating-point number that is not finite becomes null.\<close>

definition json_of_double :: "double \<Rightarrow> json" where
  "json_of_double d = (if d_finite d then Number_float d else Null)"

definition json_of_int :: "'a::len word \<Rightarrow> json" where
  "json_of_int i = Number_integer (scast i)"

definition json_of_unsigned :: "'a::len word \<Rightarrow> json" where
  "json_of_unsigned n = Number_unsigned (ucast n)"

definition json_of_range :: "('v \<Rightarrow> json) \<Rightarrow> 'v list \<Rightarrow> json" where
  "json_of_range put vs = Array (map put vs)"

text \<open>The constructor of a \<open>std::map\<close> from a range keeps the first entry of each key.\<close>

definition json_of_entries :: "('v \<Rightarrow> json) \<Rightarrow> (string \<times> 'v) list \<Rightarrow> json" where
  "json_of_entries put vs = Object (foldl (\<lambda>m (k, v). emplace k (put v) m) [] vs)"

definition json_init_list :: "bool \<Rightarrow> value_t \<Rightarrow> json list \<Rightarrow> json res" where
  "json_init_list type_deduction manual_type init =
     (let is_an_object = list_all is_pair init;
          wanted = (if \<not> type_deduction \<and> manual_type = T_array then False else is_an_object)
      in if \<not> type_deduction \<and> manual_type = T_object \<and> \<not> wanted
         then domain_error ''cannot create object from initializer list''
         else if wanted then Inr (Object (foldl emplace_pair [] init))
         else Inr (Array init))"

definition json_array :: "json list \<Rightarrow> json res" where
  "json_array init = json_init_list False T_array init"

definition json_object :: "json list \<Rightarrow> json res" where
  "json_object init = json_init_list False T_object init"

text \<open>
  A copy is the same value. A move leaves null behind, as new value and value of the moved object;
  \<open>swap\<close> gives the new values of both.
\<close>

definition json_move :: "json \<Rightarrow> json \<times> json" where
  "json_move other = (other, Null)"

definition json_swap :: "json \<Rightarrow> json \<Rightarrow> json \<times> json" where
  "json_swap this other = (other, this)"

text \<open>\<open>max_size\<close>, with that of \<open>std::map\<close> as an argument.\<close>

definition max_size :: "nat \<Rightarrow> json \<Rightarrow> nat" where
  "max_size object_max j =
     (case j of Array xs \<Rightarrow> array_max | Object m \<Rightarrow> object_max | _ \<Rightarrow> json_size j)"

section \<open>Types\<close>

definition is_null :: "json \<Rightarrow> bool" where "is_null j \<longleftrightarrow> m_type j = T_null"
definition is_boolean :: "json \<Rightarrow> bool" where "is_boolean j \<longleftrightarrow> m_type j = T_boolean"
definition is_number_integer :: "json \<Rightarrow> bool" where
  "is_number_integer j \<longleftrightarrow> m_type j = T_number_integer \<or> m_type j = T_number_unsigned"
definition is_number_unsigned :: "json \<Rightarrow> bool" where "is_number_unsigned j \<longleftrightarrow> m_type j = T_number_unsigned"
definition is_number_float :: "json \<Rightarrow> bool" where "is_number_float j \<longleftrightarrow> m_type j = T_number_float"
definition is_number :: "json \<Rightarrow> bool" where "is_number j \<longleftrightarrow> is_number_integer j \<or> is_number_float j"
definition is_object :: "json \<Rightarrow> bool" where "is_object j \<longleftrightarrow> m_type j = T_object"
definition is_array :: "json \<Rightarrow> bool" where "is_array j \<longleftrightarrow> m_type j = T_array"
definition is_string :: "json \<Rightarrow> bool" where "is_string j \<longleftrightarrow> m_type j = T_string"
definition is_discarded :: "json \<Rightarrow> bool" where "is_discarded j \<longleftrightarrow> m_type j = T_discarded"
definition is_structured :: "json \<Rightarrow> bool" where "is_structured j \<longleftrightarrow> is_array j \<or> is_object j"

lemmas type_questions = is_null_def is_boolean_def is_number_integer_def is_number_unsigned_def is_number_float_def
  is_number_def is_object_def is_array_def is_string_def is_discarded_def is_structured_def

section \<open>Conversions\<close>

definition wrong_type :: "string \<Rightarrow> json \<Rightarrow> 'a res" where
  "wrong_type t j = domain_error (''type must be '' @ t @ '', but is '' @ type_name j)"

fun get_object :: "json \<Rightarrow> (string \<times> json) list res" where
  "get_object (Object m) = Inr m"
| "get_object j = wrong_type ''object'' j"

fun get_array :: "json \<Rightarrow> json list res" where
  "get_array (Array xs) = Inr xs"
| "get_array j = wrong_type ''array'' j"

fun get_boolean :: "json \<Rightarrow> bool res" where
  "get_boolean (Boolean b) = Inr b"
| "get_boolean j = wrong_type ''boolean'' j"

text \<open>Containers of another element type: every element is converted, up to the first error.\<close>

definition get_vector :: "(json \<Rightarrow> 'v res) \<Rightarrow> json \<Rightarrow> 'v list res" where
  "get_vector get j = rbind (get_array j) (map_res get)"

definition get_map :: "(json \<Rightarrow> 'v res) \<Rightarrow> json \<Rightarrow> (string \<times> 'v) list res" where
  "get_map get j = rbind (get_object j) (map_res (\<lambda>(k, x). rmap (Pair k) (get x)))"

text \<open>
  What \<open>get_ptr\<close> points to. A pointer to a signed number is also given for an unsigned one: it
  reads the same bits.
\<close>

fun object_ptr :: "json \<Rightarrow> (string \<times> json) list option" where
  "object_ptr (Object m) = Some m"
| "object_ptr j = None"

fun array_ptr :: "json \<Rightarrow> json list option" where
  "array_ptr (Array xs) = Some xs"
| "array_ptr j = None"

fun string_ptr :: "json \<Rightarrow> string option" where
  "string_ptr (String s) = Some s"
| "string_ptr j = None"

fun boolean_ptr :: "json \<Rightarrow> bool option" where
  "boolean_ptr (Boolean b) = Some b"
| "boolean_ptr j = None"

fun integer_ptr :: "json \<Rightarrow> 64 word option" where
  "integer_ptr (Number_integer i) = Some i"
| "integer_ptr (Number_unsigned n) = Some n"
| "integer_ptr j = None"

fun unsigned_ptr :: "json \<Rightarrow> u64 option" where
  "unsigned_ptr (Number_unsigned n) = Some n"
| "unsigned_ptr j = None"

fun float_ptr :: "json \<Rightarrow> double option" where
  "float_ptr (Number_float d) = Some d"
| "float_ptr j = None"

definition get_ref :: "(json \<Rightarrow> 'v option) \<Rightarrow> json \<Rightarrow> 'v res" where
  "get_ref get_ptr j =
     (case get_ptr j of
        Some x \<Rightarrow> Inr x
      | None \<Rightarrow> domain_error (''incompatible ReferenceType for get_ref, actual type is '' @ type_name j))"

text \<open>Access with a default, of the type that \<open>get\<close> converts to; only \<open>out_of_range\<close> is caught.\<close>

definition value_with :: "(json \<Rightarrow> 'v res) \<Rightarrow> string \<Rightarrow> 'v \<Rightarrow> json \<Rightarrow> 'v res" where
  "value_with get k d j =
     (if is_object j then (case json_find k j of Some v \<Rightarrow> get v | None \<Rightarrow> Inr d)
      else domain_error (''cannot use value() with '' @ type_name j))"

definition value_at :: "(json \<Rightarrow> 'v res) \<Rightarrow> json_pointer \<Rightarrow> 'v \<Rightarrow> json \<Rightarrow> 'v res" where
  "value_at get ptr d j =
     (if is_object j then
        (case rbind (get_checked ptr j) get of
           Inl (Out_of_range s) \<Rightarrow> Inr d
         | r \<Rightarrow> r)
      else domain_error (''cannot use value() with '' @ type_name j))"

text \<open>\<open>operator<<\<close>: the width of the stream is the indentation.\<close>

definition print_json :: "int \<Rightarrow> json \<Rightarrow> string" where
  "print_json width j = (if width > 0 then dump True (nat (width mod 2 ^ 32)) 0 j else dump False 0 0 j)"

section \<open>Facts\<close>

lemma json_of_type_type [simp]: "m_type (json_of_type t) = t"
  by (cases t) simp_all

text \<open>Exactly one of the questions has the answer yes; a primitive value is none of the containers.\<close>

lemma one_type:
  "length (filter (\<lambda>q. q j) [is_null, is_boolean, is_number_integer, is_number_float, is_object, is_array, is_string,
     is_discarded]) = 1"
  by (cases j) (simp_all add: type_questions)

lemma number_kinds: "is_number_unsigned j \<Longrightarrow> is_number_integer j" "is_number_integer j \<Longrightarrow> is_number j"
  by (simp_all add: type_questions)

text \<open>\<open>get\<close> and the question for the type agree, and so do references.\<close>

lemma get_iff_type:
  "(\<exists>m. get_object j = Inr m) \<longleftrightarrow> is_object j" "(\<exists>xs. get_array j = Inr xs) \<longleftrightarrow> is_array j"
  "(\<exists>b. get_boolean j = Inr b) \<longleftrightarrow> is_boolean j" "(\<exists>s. get_string j = Inr s) \<longleftrightarrow> is_string j"
  by (cases j; simp add: type_questions wrong_type_def domain_error_def)+

lemma ref_iff_get:
  "get_ref object_ptr j = Inr m \<longleftrightarrow> get_object j = Inr m" "get_ref array_ptr j = Inr xs \<longleftrightarrow> get_array j = Inr xs"
  "get_ref boolean_ptr j = Inr b \<longleftrightarrow> get_boolean j = Inr b" "get_ref string_ptr j = Inr s \<longleftrightarrow> get_string j = Inr s"
  by (cases j; simp add: get_ref_def wrong_type_def domain_error_def)+

lemma ref_number:
  "get_ref unsigned_ptr j = Inr n \<Longrightarrow> get_number j = Inr n" "get_ref integer_ptr j = Inr i \<Longrightarrow> get_number j = Inr i"
  by (cases j; simp add: get_ref_def domain_error_def)+

text \<open>A reference to a signed number reads a large unsigned one as negative.\<close>

lemma integer_ref_negative: "2 ^ 63 \<le> unat n \<Longrightarrow> \<exists>i. get_ref integer_ptr (Number_unsigned n) = Inr i \<and> sint i = int (unat n) - 2 ^ 64"
proof (intro exI conjI)
  assume "2 ^ 63 \<le> unat n"
  then have "int (2 ^ 63) \<le> int (unat n)" by (simp only: of_nat_le_iff)
  then have "2 ^ 63 \<le> uint n" by simp
  moreover have "uint n < 2 ^ 64" using uint_lt2p [of n] by simp
  ultimately have "(uint n - 2 ^ 63 + 2 ^ 64) mod 2 ^ 64 = uint n - 2 ^ 63"
    unfolding mod_add_self2 by (intro mod_pos_pos_trivial) simp_all
  then show "sint n = int (unat n) - 2 ^ 64"
    by (simp add: sint_uint signed_take_bit_eq_take_bit_shift take_bit_eq_mod algebra_simps)
qed (simp add: get_ref_def)

text \<open>Initializer lists: an array of pairs that start with a string can only be made with \<open>json_array\<close>.\<close>

lemma json_init_deduced: "json_init_list True t init = Inr (json_init init)"
  by (simp add: json_init_list_def json_init_def)

lemma json_array_elements: "json_array init = Inr (Array init)"
  by (simp add: json_array_def json_init_list_def)

lemma json_object_deduced:
  "json_object init = (if list_all is_pair init then Inr (json_init init)
     else domain_error ''cannot create object from initializer list'')"
  by (simp add: json_object_def json_init_list_def json_init_def)

section \<open>Round trips\<close>

text \<open>A type that can be stored in a value and read from it again.\<close>

locale convertible =
  fixes put :: "'v \<Rightarrow> json" and get :: "json \<Rightarrow> 'v res"
  assumes get_put: "get (put x) = Inr x"
begin

lemma get_vector_range: "get_vector get (json_of_range put vs) = Inr vs"
  by (simp add: get_vector_def json_of_range_def get_put map_res_ok)

lemma foldl_emplace:
  "sorted_keys (m @ map (map_prod id put) vs) \<Longrightarrow>
   foldl (\<lambda>m (k, v). emplace k (put v) m) m vs = m @ map (map_prod id put) vs"
proof (induction vs arbitrary: m)
  case (Cons kv vs)
  obtain k v where kv: "kv = (k, v)" by force
  have "emplace k (put v) m = m @ [(k, put v)]"
    using Cons.prems kv emplace_last [of m k "put v"] by (auto simp: sorted_wrt_append)
  then show ?case using Cons.IH [of "m @ [(k, put v)]"] Cons.prems kv by simp
qed simp

lemma get_map_entries:
  assumes "sorted_keys (map (map_prod id put) vs)"
  shows "get_map get (json_of_entries put vs) = Inr vs"
proof -
  have "map_res (\<lambda>(k, x). rmap (Pair k) (get x)) (map (map_prod id put) vs) = Inr vs"
    by (rule map_res_ok) (auto simp: get_put)
  then show ?thesis using foldl_emplace [of "[]" vs] assms by (simp add: get_map_def json_of_entries_def)
qed

lemma value_stored: "value_with get k d (Object (emplace k (put x) [])) = Inr x"
  by (simp add: value_with_def is_object_def get_put)

end

interpretation texts: convertible String get_string
  by unfold_locales simp

interpretation truths: convertible Boolean get_boolean
  by unfold_locales simp

interpretation ints: convertible json_of_int "get_number :: json \<Rightarrow> 32 word res"
proof unfold_locales
  fix x :: "32 word"
  have "n < 32 \<Longrightarrow> \<not> n < 31 \<Longrightarrow> n = 31" for n :: nat by simp
  then have "(scast (scast x :: 64 word) :: 32 word) = x"
    by (intro bit_word_eqI) (fastforce simp: bit_signed_iff min_def)
  then show "get_number (json_of_int x) = Inr x" by (simp add: json_of_int_def)
qed

interpretation unsigneds: convertible json_of_unsigned "get_number :: json \<Rightarrow> u32 res"
  by unfold_locales (simp add: json_of_unsigned_def, rule bit_word_eqI, simp add: bit_unsigned_iff)

interpretation longs: convertible json_of_unsigned "get_number :: json \<Rightarrow> u64 res"
  by unfold_locales (simp add: json_of_unsigned_def)

interpretation text_lists: convertible "json_of_range String" "get_vector get_string"
  by unfold_locales (rule texts.get_vector_range)

text \<open>
  Vectors and maps of texts and numbers, and vectors of vectors, come back from the value they
  were stored in.
\<close>

theorem containers_roundtrip:
  "get_vector get_string (json_of_range String ss) = Inr ss \<and>
   get_vector (get_vector get_string) (json_of_range (json_of_range String) sss) = Inr sss \<and>
   get_vector get_number (json_of_range json_of_int is) = Inr (is :: 32 word list) \<and>
   get_vector get_number (json_of_range json_of_unsigned ns) = Inr (ns :: u64 list) \<and>
   (sorted_wrt (<) (map fst kvs) \<longrightarrow> get_map get_number (json_of_entries json_of_unsigned kvs) = Inr (kvs :: (string \<times> u64) list))"
  using texts.get_vector_range text_lists.get_vector_range ints.get_vector_range longs.get_vector_range
    longs.get_map_entries [of kvs] by simp

text \<open>
  \<open>value\<close> with a pointer gives the default where \<open>at\<close> throws \<open>out_of_range\<close>; other exceptions of the
  walk, as for an index with a leading zero, and of the conversion are not caught.
\<close>

theorem value_at_cases:
  assumes "is_object j"
  shows "value_at get ptr d j = (case get_checked ptr j of
      Inr x \<Rightarrow> (case get x of Inl (Out_of_range s) \<Rightarrow> Inr d | r \<Rightarrow> r)
    | Inl (Out_of_range s) \<Rightarrow> Inr d
    | Inl e \<Rightarrow> Inl e)"
  using assms by (cases "get_checked ptr j") (auto simp: value_at_def split: exn.splits)

lemma value_at_leading_zero:
  "leading_zero t \<Longrightarrow> map_of m k = Some (Array xs) \<Longrightarrow> value_at get [k, t] d (Object m) = zero_error"
  by (auto simp: value_at_cases is_object_def checked_index_def leading_zero_def zero_error_def domain_error_def)

end
