(* ===== verification/JsonPatch.thy ===== *)
theory JsonPatch
  imports JsonPointer
begin

text \<open>
  \<open>patch\<close> and \<open>diff\<close> of \<open>json.hpp\<close>: the operations of a JSON Patch document, their errors, and
  the patch that \<open>diff\<close> computes for two values. In an assignment and in a comparison the order in
  which the operands are evaluated is not specified before C++17; it is the parameter \<open>lhs\<close>, true
  if the left operand comes first.
\<close>

section \<open>Applying a patch\<close>

datatype patch_operations = Add | Remove | Replace | Move | Copy | Test | Invalid

definition get_op :: "string \<Rightarrow> patch_operations" where
  "get_op op =
     (if op = ''add'' then Add
      else if op = ''remove'' then Remove
      else if op = ''replace'' then Replace
      else if op = ''move'' then Move
      else if op = ''copy'' then Copy
      else if op = ''test'' then Test
      else Invalid)"

definition invalid_argument :: "string \<Rightarrow> 'a res" where
  "invalid_argument s = Inl (Invalid_argument s)"

definition quoted :: "string \<Rightarrow> string" where
  "quoted s = [CHR 0x27] @ s @ [CHR 0x27]"

definition int_decimal :: "int \<Rightarrow> string" where
  "int_decimal i = (if i < 0 then CHR ''-'' # decimal (nat (- i)) else decimal (nat i))"

text \<open>The lambda \<open>get_value\<close> on the entries of an operation.\<close>

definition get_value :: "string \<Rightarrow> string \<Rightarrow> bool \<Rightarrow> (string \<times> json) list \<Rightarrow> json res" where
  "get_value op member string_type m =
     (let error_msg = (if op = ''op'' then ''operation'' else ''operation '' @ quoted op)
      in case map_of m member of
           None \<Rightarrow> invalid_argument (error_msg @ '' must have member '' @ quoted member)
         | Some v \<Rightarrow>
             if string_type \<and> m_type v \<noteq> T_string
             then invalid_argument (error_msg @ '' must have string member '' @ quoted member)
             else Inr v)"

definition string_value :: "string \<Rightarrow> string \<Rightarrow> (string \<times> json) list \<Rightarrow> string res" where
  "string_value op member m = rbind (get_value op member True m) get_string"

text \<open>The lambda \<open>operation_add\<close>: what is done to the parent, then the whole operation.\<close>

fun add_to_parent :: "string \<Rightarrow> json \<Rightarrow> json \<Rightarrow> json res" where
  "add_to_parent last_path val Null = via_key last_path (\<lambda>_. Inr val) Null"
| "add_to_parent last_path val (Object m) = via_key last_path (\<lambda>_. Inr val) (Object m)"
| "add_to_parent last_path val (Array xs) =
     (if last_path = ''-'' then push_back val (Array xs)
      else rbind (stoi last_path) (\<lambda>idx.
             if size_of_int idx > length xs
             then out_of_range (''array index '' @ int_decimal idx @ '' is out of range'')
             else insert_value (nat idx) val (Array xs)))"
| "add_to_parent last_path val j = Inl (Assertion ''false'')"

definition operation_add :: "json_pointer \<Rightarrow> json \<Rightarrow> json \<Rightarrow> json res" where
  "operation_add ptr val result =
     (if ptr = [] then Inr val
      else rbind (top ptr) (\<lambda>top_pointer.
           rbind (if json_neq (String (to_string top_pointer)) (String (to_string ptr))
                  then get_checked top_pointer result else Inr Null) (\<lambda>_.
           rbind (pop_back ptr) (\<lambda>(last_path, ptr).
             with_unchecked ptr (add_to_parent last_path val) result))))"

fun remove_from_parent :: "string \<Rightarrow> json \<Rightarrow> json res" where
  "remove_from_parent last_path (Object m) =
     (if map_of m last_path \<noteq> None then Inr (Object (remove_key last_path m)) else out_of_range (key_message last_path))"
| "remove_from_parent last_path (Array xs) = rbind (stoi last_path) (\<lambda>i. erase_index (size_of_int i) (Array xs))"
| "remove_from_parent last_path j = Inr j"

definition operation_remove :: "json_pointer \<Rightarrow> json \<Rightarrow> json res" where
  "operation_remove ptr result =
     rbind (pop_back ptr) (\<lambda>(last_path, ptr). with_checked ptr (remove_from_parent last_path) result)"

definition operation_replace :: "bool \<Rightarrow> json_pointer \<Rightarrow> (string \<times> json) list \<Rightarrow> json \<Rightarrow> json res" where
  "operation_replace lhs ptr m result =
     rbind (if lhs then get_checked ptr result else Inr Null) (\<lambda>_.
     rbind (get_value ''replace'' ''value'' False m) (\<lambda>v.
       with_checked ptr (\<lambda>_. Inr v) result))"

definition operation_move :: "json_pointer \<Rightarrow> (string \<times> json) list \<Rightarrow> json \<Rightarrow> json res" where
  "operation_move ptr m result =
     rbind (string_value ''move'' ''from'' m) (\<lambda>from_path.
     rbind (split from_path) (\<lambda>from_ptr.
     rbind (get_checked from_ptr result) (\<lambda>v.
     rbind (operation_remove from_ptr result) (operation_add ptr v))))"

text \<open>If the left operand comes first, the value is read from what \<open>operator[]\<close> has created.\<close>

definition operation_copy :: "bool \<Rightarrow> json_pointer \<Rightarrow> (string \<times> json) list \<Rightarrow> json \<Rightarrow> json res" where
  "operation_copy lhs ptr m result =
     rbind (string_value ''copy'' ''from'' m) (\<lambda>from_path.
     rbind (split from_path) (\<lambda>from_ptr.
     rbind (if lhs then with_unchecked ptr Inr result else Inr result) (\<lambda>created.
     rbind (get_checked from_ptr created) (\<lambda>v.
       with_unchecked ptr (\<lambda>_. Inr v) result))))"

definition operation_test :: "bool \<Rightarrow> json_pointer \<Rightarrow> (string \<times> json) list \<Rightarrow> json \<Rightarrow> json res" where
  "operation_test lhs ptr m result =
     (let found = get_checked ptr result;
          expected = get_value ''test'' ''value'' False m;
          equal = (if lhs then rbind found (\<lambda>x. rbind expected (\<lambda>y. Inr (json_eq x y)))
                   else rbind expected (\<lambda>y. rbind found (\<lambda>x. Inr (json_eq x y))));
          success = (case equal of Inl (Out_of_range _) \<Rightarrow> Inr False | r \<Rightarrow> r)
      in rbind success (\<lambda>success.
           if success then Inr result else domain_error (''unsuccessful: '' @ dump_json (- 1) (Object m))))"

fun patch_step :: "bool \<Rightarrow> json \<Rightarrow> json \<Rightarrow> json res" where
  "patch_step lhs (Object m) result =
     rbind (string_value ''op'' ''op'' m) (\<lambda>op.
     rbind (string_value op ''path'' m) (\<lambda>path.
     rbind (split path) (\<lambda>ptr.
       case get_op op of
         Add \<Rightarrow> rbind (get_value ''add'' ''value'' False m) (\<lambda>v. operation_add ptr v result)
       | Remove \<Rightarrow> operation_remove ptr result
       | Replace \<Rightarrow> operation_replace lhs ptr m result
       | Move \<Rightarrow> operation_move ptr m result
       | Copy \<Rightarrow> operation_copy lhs ptr m result
       | Test \<Rightarrow> operation_test lhs ptr m result
       | Invalid \<Rightarrow> invalid_argument (''operation value '' @ quoted op @ '' is invalid''))))"
| "patch_step lhs val result = invalid_argument ''JSON patch must be an array of objects''"

fun patch_loop :: "bool \<Rightarrow> json list \<Rightarrow> json \<Rightarrow> json res" where
  "patch_loop lhs [] result = Inr result"
| "patch_loop lhs (val # vals) result = rbind (patch_step lhs val result) (patch_loop lhs vals)"

fun patch :: "bool \<Rightarrow> json \<Rightarrow> json \<Rightarrow> json res" where
  "patch lhs (Array vals) j = patch_loop lhs vals j"
| "patch lhs json_patch j = invalid_argument ''JSON patch must be an array of objects''"

section \<open>Computing a patch\<close>

text \<open>The operations, built from initializer lists.\<close>

definition op_object :: "(string \<times> json) list \<Rightarrow> json" where
  "op_object members = json_init (map (\<lambda>(k, v). json_init [String k, v]) members)"

definition add_op :: "string \<Rightarrow> json \<Rightarrow> json" where
  "add_op path v = op_object [(''op'', String ''add''), (''path'', String path), (''value'', v)]"

definition remove_op :: "string \<Rightarrow> json" where
  "remove_op path = op_object [(''op'', String ''remove''), (''path'', String path)]"

definition replace_op :: "string \<Rightarrow> json \<Rightarrow> json" where
  "replace_op path v = op_object [(''op'', String ''replace''), (''path'', String path), (''value'', v)]"

text \<open>
  The result of \<open>diff\<close> is the array of these operations. The loop over the common elements of two
  arrays, starting at index \<open>i\<close>, and the first loop over the entries of two objects are functions
  of their own. The operations that remove elements are each inserted at \<open>end_index\<close>, which
  reverses their order.
\<close>

function (sequential) diff :: "json \<Rightarrow> json \<Rightarrow> string \<Rightarrow> json list"
  and diff_elements :: "json list \<Rightarrow> json list \<Rightarrow> nat \<Rightarrow> string \<Rightarrow> json list"
  and diff_entries :: "(string \<times> json) list \<Rightarrow> (string \<times> json) list \<Rightarrow> string \<Rightarrow> json list" where
  "diff source target path =
     (if json_eq source target then []
      else if m_type source \<noteq> m_type target then [replace_op path target]
      else case (source, target) of
             (Array xs, Array ys) \<Rightarrow>
               (let result = diff_elements xs ys 0 path;
                    end_index = length result;
                    result = foldl (\<lambda>r i. take end_index r @ remove_op (path @ ''/'' @ decimal i) # drop end_index r)
                               result [length ys ..< length xs]
                in result @ map (\<lambda>i. add_op (path @ ''/'' @ decimal i) (ys ! i)) [length xs ..< length ys])
           | (Object m, Object m') \<Rightarrow>
               diff_entries m m' path
                 @ concat (map (\<lambda>(k, v). if map_of m k = None then [add_op (path @ ''/'' @ escape k) v] else []) m')
           | _ \<Rightarrow> [replace_op path target])"
| "diff_elements (x # xs) (y # ys) i path = diff x y (path @ ''/'' @ decimal i) @ diff_elements xs ys (Suc i) path"
| "diff_elements [] ys i path = []"
| "diff_elements (x # xs) [] i path = []"
| "diff_entries [] m' path = []"
| "diff_entries ((k, v) # m) m' path =
     (case map_of m' k of
        Some w \<Rightarrow> diff v w (path @ ''/'' @ escape k)
      | None \<Rightarrow> [remove_op (path @ ''/'' @ escape k)]) @ diff_entries m m' path"
  by pat_completeness auto

termination
  by (relation "measure (\<lambda>c. case c of
       Inl (s, t, p) \<Rightarrow> size s
     | Inr (Inl (xs, ys, i, p)) \<Rightarrow> size_list size xs
     | Inr (Inr (m, m', p)) \<Rightarrow> size_list (size_prod (\<lambda>_. 0) size) m)") auto

declare diff.simps [simp del]

section \<open>Facts about the operations\<close>

lemma add_op_eq: "add_op p v = Object [(''op'', String ''add''), (''path'', String p), (''value'', v)]"
  by (simp add: add_op_def op_object_def json_init_def)

lemma remove_op_eq: "remove_op p = Object [(''op'', String ''remove''), (''path'', String p)]"
  by (simp add: remove_op_def op_object_def json_init_def)

lemma replace_op_eq: "replace_op p v = Object [(''op'', String ''replace''), (''path'', String p), (''value'', v)]"
  by (simp add: replace_op_def op_object_def json_init_def)

lemmas values_of_op = string_value_def get_value_def get_op_def split_to_string

lemma step_add: "patch_step lhs (add_op (to_string ts) v) j = operation_add ts v j"
  by (simp add: add_op_eq values_of_op)

lemma step_remove: "patch_step lhs (remove_op (to_string ts)) j = operation_remove ts j"
  by (simp add: remove_op_eq values_of_op)

lemma step_replace: "get_checked ts j = Inr x \<Longrightarrow> patch_step lhs (replace_op (to_string ts) v) j = Inr (put_pointed ts v j)"
  by (simp add: replace_op_eq values_of_op operation_replace_def with_checked_eq)

lemma operation_add_there:
  assumes "get_checked ts j = Inr x"
  shows "operation_add (ts @ [t]) v j = rbind (add_to_parent t v x) (\<lambda>y. Inr (put_pointed ts y j))"
proof -
  have "get_checked [(ts @ [t]) ! 0] j \<noteq> Inl e" if "ts \<noteq> []" for e
    using that assms get_checked_append [of "[hd ts]" "tl ts" j] by (cases ts) (auto simp: rbind_eq_Inr)
  then obtain x' where "ts \<noteq> [] \<Longrightarrow> get_checked [(ts @ [t]) ! 0] j = Inr x'" by (metis sum.exhaust)
  then show ?thesis using assms
    by (cases ts) (simp_all add: operation_add_def top_def pop_back_def json_neq_def to_string_inj with_unchecked_there
        with_checked_eq del: with_unchecked.simps get_checked.simps)
qed

lemma operation_remove_there:
  assumes "get_checked ts j = Inr x"
  shows "operation_remove (ts @ [t]) j = rbind (remove_from_parent t x) (\<lambda>y. Inr (put_pointed ts y j))"
  using assms by (simp add: operation_remove_def pop_back_def with_checked_eq)

text \<open>A list of operations changes the value at a pointer and nothing else.\<close>

definition transforms :: "bool \<Rightarrow> json list \<Rightarrow> json_pointer \<Rightarrow> json \<Rightarrow> json \<Rightarrow> bool" where
  "transforms lhs ops ts v w \<longleftrightarrow> (\<forall>j. get_checked ts j = Inr v \<longrightarrow> patch_loop lhs ops j = Inr (put_pointed ts w j))"

lemma patch_loop_append: "patch_loop lhs (ops @ ops') j = rbind (patch_loop lhs ops j) (patch_loop lhs ops')"
  by (induction ops arbitrary: j) (simp_all add: rbind_assoc cong: rbind_cong)

lemma transforms_Nil: "transforms lhs [] ts v v"
  by (simp add: transforms_def pointee.nothing)

lemma transforms_append:
  "transforms lhs ops ts u v \<Longrightarrow> transforms lhs ops' ts v w \<Longrightarrow> transforms lhs (ops @ ops') ts u w"
  unfolding transforms_def patch_loop_append by (blast intro: pointee.sequence)

lemma transforms_Cons:
  "transforms lhs [op] ts u v \<Longrightarrow> transforms lhs ops ts v w \<Longrightarrow> transforms lhs (op # ops) ts u w"
  using transforms_append [of lhs "[op]"] by simp

lemma transforms_add: "add_to_parent t x v = Inr w \<Longrightarrow> transforms lhs [add_op (to_string (ts @ [t])) x] ts v w"
  by (simp add: transforms_def step_add operation_add_there)

lemma transforms_remove: "remove_from_parent t v = Inr w \<Longrightarrow> transforms lhs [remove_op (to_string (ts @ [t]))] ts v w"
  by (simp add: transforms_def step_remove operation_remove_there)

lemma transforms_replace: "transforms lhs [replace_op (to_string ts) w] ts v w"
  by (simp add: transforms_def step_replace)

lemma transforms_deeper:
  assumes "transforms lhs ops (ts @ [t]) c d" "get_checked [t] v = Inr c"
  shows "transforms lhs ops ts v (put_pointed [t] d v)"
  using assms by (auto simp: transforms_def get_checked_append put_pointed_append simp del: get_checked.simps put_pointed.simps)

lemma to_string_snoc: "to_string (ts @ [t]) = to_string ts @ ''/'' @ escape t"
  by (simp add: to_string_eq)

section \<open>The patch that \<open>diff\<close> computes\<close>

text \<open>Indices fit into the result of \<open>stoi\<close>.\<close>

fun short_arrays :: "json \<Rightarrow> bool" where
  "short_arrays (Object m) \<longleftrightarrow> (\<forall>kv \<in> set m. short_arrays (snd kv))"
| "short_arrays (Array xs) \<longleftrightarrow> length xs \<le> 2 ^ 31 \<and> (\<forall>x \<in> set xs. short_arrays x)"
| "short_arrays j \<longleftrightarrow> True"

lemma digit_not: "isdigit c \<Longrightarrow> \<not> isspace c \<and> c \<noteq> CHR ''-'' \<and> c \<noteq> CHR ''+'' \<and> c \<noteq> CHR ''~'' \<and> c \<noteq> CHR ''/''"
  by (auto simp: isdigit_def isspace_def)

lemma decimal_Cons: "\<exists>c ds. decimal n = c # ds \<and> isdigit c \<and> list_all isdigit ds"
  using decimal_digits [of n] by (cases "decimal n") auto

lemma stoi_decimal: "n < 2 ^ 31 \<Longrightarrow> stoi (decimal n) = Inr (int n)"
proof -
  assume n: "n < 2 ^ 31"
  obtain c ds where d: "decimal n = c # ds" "isdigit c" "list_all isdigit ds" using decimal_Cons by blast
  then have t: "takeWhile isdigit (c # ds) = c # ds" by (auto simp: list_all_iff takeWhile_eq_all_conv)
  have v: "digits_val (c # ds) = n" using decimal_digits [of n] d(1) by simp
  have "int n < 2147483648" using n by simp
  then show ?thesis using digit_not [OF d(2)] t v by (simp add: stoi_def d(1) Let_def)
qed

lemma escape_decimal: "escape (decimal n) = decimal n"
proof -
  have "concat (map tilde_char s) = s" if "list_all isdigit s" for s
    using that by (induction s) (auto simp: tilde_char_def dest: digit_not)
  then show ?thesis using decimal_digits [of n] by (simp add: escape_eq)
qed

lemma decimal_no_dash: "decimal n \<noteq> ''-''"
  using decimal_Cons [of n] by (auto dest: digit_not)

lemma decimal_no_leading_zero: "\<not> leading_zero (decimal n)"
  using decimal_head [of n] by (cases "n = 0"; cases "decimal n") (auto simp: leading_zero_def)

lemma size_of_int_nat: "n < 2 ^ 31 \<Longrightarrow> size_of_int (int n) = n"
  by (simp add: size_of_int_def)

lemma checked_index_decimal: "n < 2 ^ 31 \<Longrightarrow> checked_index (decimal n) xs = Inr n"
  by (simp add: checked_index_Inr decimal_no_dash decimal_no_leading_zero stoi_decimal size_of_int_nat)

lemma pointer_index: "to_string ts @ ''/'' @ decimal i = to_string (ts @ [decimal i])"
  by (simp add: to_string_snoc escape_decimal)

lemmas pointer_path = pointer_index to_string_snoc [symmetric]

text \<open>Arrays.\<close>

lemma transforms_element:
  assumes "transforms lhs ops (ts @ [decimal (length as)]) x y" "length as < 2 ^ 31"
  shows "transforms lhs ops ts (Array (as @ x # xs)) (Array (as @ y # xs))"
  using transforms_deeper [OF assms(1), of "Array (as @ x # xs)"] assms(2) by (simp add: checked_index_decimal)

lemma transforms_append_element:
  "length xs < 2 ^ 31 \<Longrightarrow>
   transforms lhs [add_op (to_string ts @ ''/'' @ decimal (length xs)) v] ts (Array xs) (Array (xs @ [v]))"
  unfolding pointer_index
  by (rule transforms_add) (simp add: decimal_no_dash stoi_decimal size_of_int_nat)

lemma transforms_drop_element:
  "length xs < 2 ^ 31 \<Longrightarrow>
   transforms lhs [remove_op (to_string ts @ ''/'' @ decimal (length xs))] ts (Array (xs @ [v])) (Array xs)"
  unfolding pointer_index
  by (rule transforms_remove) (simp add: stoi_decimal size_of_int_nat drop_at_def)

lemma transforms_append_elements:
  "length xs + length ys \<le> 2 ^ 31 \<Longrightarrow>
   transforms lhs (map (\<lambda>i. add_op (to_string ts @ ''/'' @ decimal i) ((xs @ ys) ! i)) [length xs ..< length xs + length ys])
     ts (Array xs) (Array (xs @ ys))"
proof (induction ys rule: rev_induct)
  case (snoc y ys)
  have less: "(xs @ ys @ [y]) ! i = (xs @ ys) ! i" if "i < length xs + length ys" for i
    using that nth_append [of "xs @ ys" "[y]" i] by simp
  let ?op = "\<lambda>zs i. add_op (to_string ts @ ''/'' @ decimal i) (zs ! i)"
  have same: "map (?op (xs @ ys @ [y])) [length xs ..< length xs + length ys] = map (?op (xs @ ys)) [length xs ..< length xs + length ys]"
    using less by simp
  have "transforms lhs (map (?op (xs @ ys @ [y])) [length xs ..< length xs + length ys]) ts (Array xs) (Array (xs @ ys))"
    unfolding same using snoc by simp
  moreover have "transforms lhs [add_op (to_string ts @ ''/'' @ decimal (length (xs @ ys))) y] ts (Array (xs @ ys)) (Array ((xs @ ys) @ [y]))"
    using snoc.prems by (intro transforms_append_element) simp
  ultimately show ?case using transforms_append by (fastforce simp: nth_append)
qed (simp add: transforms_Nil)

lemma transforms_drop_elements:
  "length xs + length ys \<le> 2 ^ 31 \<Longrightarrow>
   transforms lhs (rev (map (\<lambda>i. remove_op (to_string ts @ ''/'' @ decimal i)) [length xs ..< length xs + length ys]))
     ts (Array (xs @ ys)) (Array xs)"
proof (induction ys rule: rev_induct)
  case (snoc y ys)
  have "transforms lhs [remove_op (to_string ts @ ''/'' @ decimal (length (xs @ ys)))] ts (Array ((xs @ ys) @ [y])) (Array (xs @ ys))"
    using snoc.prems by (intro transforms_drop_element) simp
  from transforms_append [OF this snoc.IH] snoc.prems show ?case by simp
qed (simp add: transforms_Nil)

lemma insertions_reversed:
  "foldl (\<lambda>r i. take (length b) r @ f i # drop (length b) r) (b @ c) is = b @ rev (map f is) @ c"
proof (induction "is" arbitrary: c)
  case (Cons i "is")
  from Cons.IH [of "f i # c"] show ?case by simp
qed simp

text \<open>Objects.\<close>

lemma via_key_object:
  assumes "sorted_keys m"
  obtains n where "via_key k (\<lambda>_. Inr v) (Object m) = Inr (Object n)" "sorted_keys n" "map_of n = (map_of m)(k \<mapsto> v)"
proof (cases "map_of m k")
  case None
  then show ?thesis using assms
    by (intro that [of "set_entry k v (emplace k Null m)"])
       (simp_all add: via_key_def emplace_sorted emplace_lookup set_entry_lookup)
next
  case (Some x)
  then show ?thesis using assms
    by (intro that [of "set_entry k v m"]) (simp_all add: via_key_def set_entry_lookup)
qed

text \<open>The entries of \<open>n\<close> are entries of \<open>m\<close>, with equal values.\<close>

definition agrees :: "(string \<times> json) list \<Rightarrow> (string \<times> json) list \<Rightarrow> bool" where
  "agrees n m \<longleftrightarrow> (\<forall>k v. map_of n k = Some v \<longrightarrow> (\<exists>w. map_of m k = Some w \<and> json_eq v w))"

lemma transforms_add_entries:
  assumes "\<forall>(k, v) \<in> set es. map_of m' k = Some v \<and> comparable v" "sorted_keys n" "agrees n m'"
  shows "\<exists>n'. transforms lhs (concat (map (\<lambda>(k, v). if map_of m k = None then [add_op (to_string ts @ ''/'' @ escape k) v] else []) es))
      ts (Object n) (Object n') \<and> sorted_keys n' \<and> agrees n' m'
      \<and> dom (map_of n') = dom (map_of n) \<union> {k \<in> fst ` set es. map_of m k = None}"
  using assms
proof (induction es arbitrary: n)
  case Nil
  then show ?case using transforms_Nil by auto
next
  case (Cons kv es)
  obtain k v where kv: "kv = (k, v)" by (cases kv)
  show ?case
  proof (cases "map_of m k")
    case (Some x)
    then have "{k' \<in> fst ` set (kv # es). map_of m k' = None} = {k' \<in> fst ` set es. map_of m k' = None}" by (auto simp: kv)
    with Cons Some show ?thesis by (simp add: kv)
  next
    case None
    obtain n1 where n1: "via_key k (\<lambda>_. Inr v) (Object n) = Inr (Object n1)" "sorted_keys n1" "map_of n1 = (map_of n)(k \<mapsto> v)"
      using via_key_object [OF Cons.prems(2)] by blast
    have "agrees n1 m'" using Cons.prems by (auto simp: agrees_def n1(3) kv json_eq_refl)
    with Cons n1(2) obtain n' where n': "transforms lhs
        (concat (map (\<lambda>(k, v). if map_of m k = None then [add_op (to_string ts @ ''/'' @ escape k) v] else []) es))
        ts (Object n1) (Object n')" "sorted_keys n'" "agrees n' m'"
      "dom (map_of n') = dom (map_of n1) \<union> {k \<in> fst ` set es. map_of m k = None}"
      by (metis (no_types, lifting) list.set_intros(2))
    have "transforms lhs [add_op (to_string (ts @ [k])) v] ts (Object n) (Object n1)"
      by (rule transforms_add) (simp add: n1(1))
    from transforms_append [OF this n'(1)] n' None show ?thesis
      by (intro exI [of _ n']) (auto simp: kv to_string_snoc n1(3))
  qed
qed

text \<open>Two sorted lists with the same keys and equal values are equal as objects.\<close>

lemma entries_eqI:
  assumes "sorted_keys n" "sorted_keys m" "dom (map_of n) = dom (map_of m)" "agrees n m"
  shows "entries_eq n m"
proof -
  have sorted: "sorted_wrt (<) (map fst n)" "sorted_wrt (<) (map fst m)" using assms(1,2) by auto
  have "set (map fst n) = set (map fst m)" using assms(3) by (simp add: dom_map_of_conv_image_fst)
  then have keys: "map fst n = map fst m"
    using sorted strict_sorted_equal by blast
  then have len: "length n = length m" by (metis length_map)
  show ?thesis unfolding entries_eq_iff list_all2_conv_all_nth
  proof (intro conjI allI impI len)
    fix i assume i: "i < length n"
    show key: "fst (n ! i) = fst (m ! i)" using keys i len by (metis nth_map)
    have "map_of n (fst (n ! i)) = Some (snd (n ! i))" "map_of m (fst (m ! i)) = Some (snd (m ! i))"
      using assms(1,2) i len sorted_keys_distinct by (simp_all add: map_of_eq_Some_iff)
    then show "json_eq (snd (n ! i)) (snd (m ! i))" using assms(4) key unfolding agrees_def by fastforce
  qed
qed

text \<open>The three loops of \<open>diff\<close>.\<close>

definition diffable :: "json \<Rightarrow> bool" where
  "diffable j \<longleftrightarrow> wf_json j \<and> comparable j \<and> short_arrays j"

definition patches :: "bool \<Rightarrow> json list \<Rightarrow> json_pointer \<Rightarrow> json \<Rightarrow> json \<Rightarrow> bool" where
  "patches lhs ops ts s t \<longleftrightarrow> (\<exists>r. transforms lhs ops ts s r \<and> json_eq r t)"

lemma diffable_Array: "diffable (Array xs) \<Longrightarrow> length xs \<le> 2 ^ 31 \<and> (\<forall>x \<in> set xs. diffable x)"
  by (simp add: diffable_def)

lemma diffable_Object: "diffable (Object m) \<Longrightarrow> sorted_keys m \<and> (\<forall>kv \<in> set m. diffable (snd kv))"
  by (simp add: diffable_def)

lemma patches_arrays:
  assumes common: "transforms lhs ops ts (Array xs) (Array zs)" "length zs = length xs"
      "list_all2 json_eq (take (length ys) zs) (take (length xs) ys)"
    and "diffable (Array xs)" "diffable (Array ys)"
  shows "patches lhs (ops @ rev (map (\<lambda>i. remove_op (to_string ts @ ''/'' @ decimal i)) [length ys ..< length xs])
      @ map (\<lambda>i. add_op (to_string ts @ ''/'' @ decimal i) (ys ! i)) [length xs ..< length ys]) ts (Array xs) (Array ys)"
proof (cases "length ys \<le> length xs")
  case True
  let ?zs = "take (length ys) zs"
  have "transforms lhs (rev (map (\<lambda>i. remove_op (to_string ts @ ''/'' @ decimal i)) [length ?zs ..< length ?zs + length (drop (length ys) zs)]))
      ts (Array (?zs @ drop (length ys) zs)) (Array ?zs)"
    using assms(2) True diffable_Array [OF assms(4)] by (intro transforms_drop_elements) simp
  then have "transforms lhs (rev (map (\<lambda>i. remove_op (to_string ts @ ''/'' @ decimal i)) [length ys ..< length xs])) ts (Array zs) (Array ?zs)"
    using True assms(2) by simp
  from transforms_append [OF common(1) this] show ?thesis
    using True assms(3) by (auto simp: patches_def elements_eq_iff)
next
  case False
  let ?ys = "drop (length xs) ys"
  let ?op = "\<lambda>zs i. add_op (to_string ts @ ''/'' @ decimal i) (zs ! i)"
  have add: "transforms lhs (map (?op (zs @ ?ys)) [length zs ..< length zs + length ?ys]) ts (Array zs) (Array (zs @ ?ys))"
    using False assms(2) diffable_Array [OF assms(5)] by (intro transforms_append_elements) simp
  have same: "map (?op (zs @ ?ys)) [length zs ..< length zs + length ?ys] = map (?op ys) [length xs ..< length ys]"
    using assms(2) False by (simp add: nth_append)
  have step: "transforms lhs (map (?op ys) [length xs ..< length ys]) ts (Array zs) (Array (zs @ ?ys))"
    using add unfolding same .
  have "list_all2 json_eq ?ys ?ys"
    using assms(5) by (auto simp: list_all2_same json_eq_refl diffable_def dest: in_set_dropD)
  then have "list_all2 json_eq (zs @ ?ys) (take (length xs) ys @ ?ys)"
    using assms(2,3) False by (intro list_all2_appendI) simp_all
  then have "json_eq (Array (zs @ ?ys)) (Array ys)" by (simp add: elements_eq_iff)
  with transforms_append [OF common(1) step] show ?thesis using False by (auto simp: patches_def)
qed

lemma patches_objects:
  assumes common: "transforms lhs ops ts (Object m) (Object b)" "map fst b = filter (\<lambda>k. map_of m' k \<noteq> None) (map fst m)"
      "\<forall>(k, v) \<in> set b. \<exists>w. map_of m' k = Some w \<and> json_eq v w"
    and "diffable (Object m)" "diffable (Object m')"
  shows "patches lhs (ops @ concat (map (\<lambda>(k, v). if map_of m k = None then [add_op (to_string ts @ ''/'' @ escape k) v] else []) m'))
      ts (Object m) (Object m')"
proof -
  have sorted: "sorted_keys m" "sorted_keys m'" using assms(4,5) by (simp_all add: diffable_def)
  then have "sorted_keys b" unfolding common(2) by (intro sorted_wrt_filter)
  moreover have "agrees b m'" using common(3) by (auto simp: agrees_def dest!: map_of_SomeD)
  moreover have "\<forall>(k, v) \<in> set m'. map_of m' k = Some v \<and> comparable v"
    using assms(5) sorted_keys_distinct [OF sorted(2)] by (auto simp: diffable_def)
  ultimately obtain n where n: "transforms lhs
      (concat (map (\<lambda>(k, v). if map_of m k = None then [add_op (to_string ts @ ''/'' @ escape k) v] else []) m')) ts (Object b) (Object n)"
      "sorted_keys n" "agrees n m'" "dom (map_of n) = dom (map_of b) \<union> {k \<in> fst ` set m'. map_of m k = None}"
    using transforms_add_entries [of m' m' b lhs m ts] by blast
  have "fst ` set b = {k \<in> fst ` set m. map_of m' k \<noteq> None}" using arg_cong [OF common(2), of set] by auto
  then have "dom (map_of n) = dom (map_of m')"
    unfolding n(4) by (auto simp: dom_map_of_conv_image_fst map_of_eq_None_iff)
  then have "json_eq (Object n) (Object m')" using entries_eqI [OF n(2) sorted(2)] n(3) by simp
  with transforms_append [OF common(1) n(1)] show ?thesis by (auto simp: patches_def)
qed

lemma entry_mid: "k \<notin> fst ` set a \<Longrightarrow> set_entry k y (a @ (k, v) # m) = a @ (k, y) # m
    \<and> map_of (a @ (k, v) # m) k = Some v \<and> remove_key k (a @ (k, v) # m) = a @ m"
  by (induction a) auto

lemma diff_correct:
  "path = to_string ts \<Longrightarrow> diffable s \<Longrightarrow> diffable t \<Longrightarrow> patches lhs (diff s t path) ts s t"
  "path = to_string ts \<Longrightarrow> length as = i \<Longrightarrow> i + length xs \<le> 2 ^ 31 \<Longrightarrow>
     (\<forall>x \<in> set xs. diffable x) \<Longrightarrow> (\<forall>y \<in> set ys. diffable y) \<Longrightarrow>
   \<exists>zs. transforms lhs (diff_elements xs ys i path) ts (Array (as @ xs)) (Array (as @ zs)) \<and> length zs = length xs
     \<and> list_all2 json_eq (take (length ys) zs) (take (length xs) ys)"
  "path = to_string ts \<Longrightarrow> sorted_keys (a @ m) \<Longrightarrow> sorted_keys m' \<Longrightarrow>
     (\<forall>kv \<in> set m. diffable (snd kv)) \<Longrightarrow> (\<forall>kv \<in> set m'. diffable (snd kv)) \<Longrightarrow>
   \<exists>b. transforms lhs (diff_entries m m' path) ts (Object (a @ m)) (Object (a @ b))
     \<and> map fst b = filter (\<lambda>k. map_of m' k \<noteq> None) (map fst m)
     \<and> (\<forall>(k, v) \<in> set b. \<exists>w. map_of m' k = Some w \<and> json_eq v w)"
proof (induction s t path and xs ys i path and m m' path arbitrary: ts and ts as and ts a
    rule: diff_diff_elements_diff_entries.induct)
  case (1 source target path)
  consider "json_eq source target" | "\<not> json_eq source target" "diff source target path = [replace_op path target]"
    | xs ys where "\<not> json_eq source target" "source = Array xs" "target = Array ys"
    | m m' where "\<not> json_eq source target" "source = Object m" "target = Object m'"
    by (cases "json_eq source target"; cases source; cases target) (simp_all add: diff.simps)
  then show ?case
  proof cases
    case 1
    then show ?thesis by (subst diff.simps) (auto simp: patches_def intro: transforms_Nil)
  next
    case 2
    have "json_eq target target" using "1.prems"(3) by (simp add: json_eq_refl diffable_def)
    then show ?thesis unfolding 2(2) patches_def using transforms_replace "1.prems"(1) by blast
  next
    case 3
    have d: "diffable (Array xs)" "diffable (Array ys)" using "1.prems"(2,3) 3 by simp_all
    have "\<exists>zs. transforms lhs (diff_elements xs ys 0 path) ts (Array ([] @ xs)) (Array ([] @ zs)) \<and> length zs = length xs
        \<and> list_all2 json_eq (take (length ys) zs) (take (length xs) ys)"
      by (rule "1.IH"(2) [OF 3(1) _ refl 3(2,3) "1.prems"(1)])
         (use 3 diffable_Array [OF d(1)] diffable_Array [OF d(2)] in simp_all)
    then obtain zs where zs: "transforms lhs (diff_elements xs ys 0 path) ts (Array xs) (Array zs)" "length zs = length xs"
        "list_all2 json_eq (take (length ys) zs) (take (length xs) ys)"
      by auto
    show ?thesis using patches_arrays [OF zs] "1.prems" 3
      by (subst diff.simps) (simp add: Let_def insertions_reversed [where c = "[]", simplified])
  next
    case 4
    have d: "diffable (Object m)" "diffable (Object m')" using "1.prems"(2,3) 4 by simp_all
    have "\<exists>b. transforms lhs (diff_entries m m' path) ts (Object ([] @ m)) (Object ([] @ b))
        \<and> map fst b = filter (\<lambda>k. map_of m' k \<noteq> None) (map fst m)
        \<and> (\<forall>(k, v) \<in> set b. \<exists>w. map_of m' k = Some w \<and> json_eq v w)"
      by (rule "1.IH"(1) [OF 4(1) _ refl 4(2,3) "1.prems"(1)])
         (use 4 diffable_Object [OF d(1)] diffable_Object [OF d(2)] in simp_all)
    then obtain b where b: "transforms lhs (diff_entries m m' path) ts (Object m) (Object b)"
      "map fst b = filter (\<lambda>k. map_of m' k \<noteq> None) (map fst m)" "\<forall>(k, v) \<in> set b. \<exists>w. map_of m' k = Some w \<and> json_eq v w"
      by auto
    show ?thesis using patches_objects [OF b d] 4 unfolding "1.prems"(1) [symmetric] by (subst diff.simps) simp
  qed
next
  case (2 x xs y ys i path)
  have "patches lhs (diff x y (path @ ''/'' @ decimal i)) (ts @ [decimal i]) x y"
  proof (rule "2.IH"(1))
    show "path @ ''/'' @ decimal i = to_string (ts @ [decimal i])" unfolding "2.prems"(1) by (rule pointer_index)
  qed (use "2.prems" in simp_all)
  then obtain r where r: "transforms lhs (diff x y (path @ ''/'' @ decimal i)) (ts @ [decimal i]) x r" "json_eq r y"
    by (auto simp: patches_def)
  have step: "transforms lhs (diff x y (path @ ''/'' @ decimal i)) ts (Array (as @ x # xs)) (Array ((as @ [r]) @ xs))"
    using transforms_element [of lhs _ ts as x r xs] r(1) "2.prems" by simp
  obtain zs where zs: "transforms lhs (diff_elements xs ys (Suc i) path) ts (Array ((as @ [r]) @ xs)) (Array ((as @ [r]) @ zs))"
      "length zs = length xs" "list_all2 json_eq (take (length ys) zs) (take (length xs) ys)"
    using "2.IH"(2) [of ts "as @ [r]"] "2.prems" by auto
  show ?case
    using transforms_append [OF step zs(1)] zs r(2) by (intro exI [of _ "r # zs"]) simp
next
  case (3 ys i path)
  show ?case by (rule exI [of _ "[]"]) (simp add: transforms_Nil)
next
  case (4 x xs i path)
  show ?case by (rule exI [of _ "x # xs"]) (simp add: transforms_Nil)
next
  case (5 m' path)
  show ?case by (rule exI [of _ "[]"]) (simp add: transforms_Nil)
next
  case (6 k v m m' path)
  have k: "k \<notin> fst ` set a" using "6.prems"(2) by (auto simp: sorted_wrt_append)
  note mid = entry_mid [OF k]
  show ?case
  proof (cases "map_of m' k")
    case (Some w)
    then have w: "diffable w" using "6.prems"(5) map_of_SomeD by fastforce
    have "patches lhs (diff v w (path @ ''/'' @ escape k)) (ts @ [k]) v w"
    proof (rule "6.IH"(1) [OF Some])
      show "path @ ''/'' @ escape k = to_string (ts @ [k])" unfolding "6.prems"(1) to_string_snoc ..
    qed (use "6.prems" w in simp_all)
    then obtain r where r: "transforms lhs (diff v w (path @ ''/'' @ escape k)) (ts @ [k]) v r" "json_eq r w"
      by (auto simp: patches_def)
    have step: "transforms lhs (diff v w (path @ ''/'' @ escape k)) ts (Object (a @ (k, v) # m)) (Object ((a @ [(k, r)]) @ m))"
      using transforms_deeper [OF r(1), of "Object (a @ (k, v) # m)"] mid by simp
    have "sorted_keys ((a @ [(k, r)]) @ m)" using "6.prems"(2) by (simp add: sorted_wrt_append)
    then obtain b where b: "transforms lhs (diff_entries m m' path) ts (Object ((a @ [(k, r)]) @ m)) (Object ((a @ [(k, r)]) @ b))"
      "map fst b = filter (\<lambda>k. map_of m' k \<noteq> None) (map fst m)" "\<forall>(k, v) \<in> set b. \<exists>w. map_of m' k = Some w \<and> json_eq v w"
      using "6.IH"(2) [of ts "a @ [(k, r)]"] "6.prems" by auto
    show ?thesis using transforms_append [OF step b(1)] b r(2) Some by (intro exI [of _ "(k, r) # b"]) simp
  next
    case None
    have step: "transforms lhs [remove_op (path @ ''/'' @ escape k)] ts (Object (a @ (k, v) # m)) (Object (a @ m))"
      unfolding "6.prems"(1) to_string_snoc [symmetric] by (rule transforms_remove) (use mid in simp)
    have "sorted_keys (a @ m)" using "6.prems"(2) by (simp add: sorted_wrt_append)
    then obtain b where b: "transforms lhs (diff_entries m m' path) ts (Object (a @ m)) (Object (a @ b))"
      "map fst b = filter (\<lambda>k. map_of m' k \<noteq> None) (map fst m)" "\<forall>(k, v) \<in> set b. \<exists>w. map_of m' k = Some w \<and> json_eq v w"
      using "6.IH"(2) [of ts a] "6.prems" by auto
    show ?thesis using transforms_append [OF step b(1)] b None by (intro exI [of _ b]) simp
  qed
qed

text \<open>
  C20: \<open>source.patch(diff(source, target)) == target\<close>: the patch that \<open>diff\<close> computes is applied without
  an error, whatever the order of evaluation, and the result is equal to the target. The values
  have no NaN, which is not equal to itself, and the indices of the arrays fit in an \<open>int\<close>.
\<close>

theorem patch_diff:
  assumes "diffable source" "diffable target"
  shows "\<exists>r. patch lhs (Array (diff source target [])) source = Inr r \<and> json_eq r target"
  using diff_correct(1) [of "[]" "[]" source target lhs] assms
  by (auto simp: to_string_eq patches_def transforms_def)

theorem patch_diff_witness:
  "\<exists>r. patch True (Array (diff (Object [(''a'', Array [Null, Boolean True, Number_unsigned 7]), (''b'', Null)])
         (Object [(''a'', Array [String ''x'', Boolean True]), (''c'', Array [])]) []))
       (Object [(''a'', Array [Null, Boolean True, Number_unsigned 7]), (''b'', Null)]) = Inr r
     \<and> json_eq r (Object [(''a'', Array [String ''x'', Boolean True]), (''c'', Array [])])"
  by (rule patch_diff) (simp_all add: diffable_def)

section \<open>What a patch keeps and what it refuses\<close>

lemma remove_key_wf: "wf_json (Object m) \<Longrightarrow> wf_json (Object (remove_key k m))"
  using remove_key_keys [of k m] by (auto simp: remove_key_sorted)

lemma via_key_const_wf: "wf_json j \<Longrightarrow> wf_json v \<Longrightarrow> via_key k (\<lambda>_. Inr v) j = Inr q \<Longrightarrow> wf_json q"
  by (rule via_key_wf) auto

lemma array_parts_wf:
  assumes "wf_json (Array xs)"
  shows "wf_json v \<Longrightarrow> wf_json (Array (take i xs @ v # drop i xs))" and "wf_json (Array (drop_at i xs))"
  using assms set_take_subset [of i xs] set_drop_subset [of _ xs] by (auto simp: drop_at_def)

lemma add_to_parent_wf:
  assumes "wf_json p" "wf_json v" "add_to_parent t v p = Inr q"
  shows "wf_json q"
proof (cases p)
  case Null
  then show ?thesis using assms via_key_const_wf [of Null v t q] by simp
next
  case (Object m)
  then show ?thesis using assms via_key_const_wf [of p v t q] by simp
next
  case (Array xs)
  then consider "q = Array (xs @ [v])" | i where "q = Array (take i xs @ v # drop i xs)"
    using assms(3) by (auto simp: rbind_eq_Inr out_of_range_def split: if_splits)
  then show ?thesis using assms(1,2) array_parts_wf(1) [of xs v] by cases (auto simp: Array)
qed (use assms in auto)

lemma remove_from_parent_wf:
  assumes "wf_json p" "remove_from_parent t p = Inr q"
  shows "wf_json q"
proof (cases p)
  case (Object m)
  then show ?thesis using assms remove_key_wf [of m t] by (auto simp: out_of_range_def split: if_splits)
next
  case (Array xs)
  then obtain i where "q = Array (drop_at i xs)"
    using assms(2) by (auto simp: rbind_eq_Inr out_of_range_def split: if_splits)
  then show ?thesis using assms(1) array_parts_wf(2) [of xs i] by (simp add: Array)
qed (use assms in auto)

lemma with_checked_wf:
  assumes "\<And>x y. wf_json x \<Longrightarrow> f x = Inr y \<Longrightarrow> wf_json y" "wf_json j" "with_checked ts f j = Inr j'"
  shows "wf_json j'"
proof -
  from assms(3) obtain x y where "get_checked ts j = Inr x" "f x = Inr y" "j' = put_pointed ts y j"
    by (auto simp: with_checked_eq rbind_eq_Inr)
  then show ?thesis using assms(1,2) get_checked_wf put_pointed_wf by blast
qed

lemma operation_add_wf:
  assumes "wf_json j" "wf_json v" "operation_add ts v j = Inr j'"
  shows "wf_json j'"
proof (cases "ts = []")
  case False
  with assms(3) obtain t us where "with_unchecked us (add_to_parent t v) j = Inr j'"
    by (auto simp: operation_add_def rbind_eq_Inr)
  then show ?thesis using with_unchecked_wf [of "add_to_parent t v" j us j'] add_to_parent_wf assms(1,2) by blast
qed (use assms in \<open>simp add: operation_add_def\<close>)

lemma operation_remove_wf:
  assumes "wf_json j" "operation_remove ts j = Inr j'"
  shows "wf_json j'"
proof -
  from assms(2) obtain t us where "with_checked us (remove_from_parent t) j = Inr j'"
    by (auto simp: operation_remove_def rbind_eq_Inr)
  then show ?thesis using with_checked_wf [of "remove_from_parent t" j us j'] remove_from_parent_wf assms(1) by blast
qed

lemma get_value_wf: "wf_json (Object m) \<Longrightarrow> get_value op k b m = Inr v \<Longrightarrow> wf_json v"
  using wf_lookup by (fastforce simp: get_value_def invalid_argument_def Let_def split: option.splits if_splits)

lemma operation_replace_wf:
  assumes "wf_json (Object m)" "wf_json j" "operation_replace lhs ts m j = Inr j'"
  shows "wf_json j'"
proof -
  from assms(3) obtain v where "get_value ''replace'' ''value'' False m = Inr v" "with_checked ts (\<lambda>_. Inr v) j = Inr j'"
    by (auto simp: operation_replace_def rbind_eq_Inr)
  then show ?thesis using with_checked_wf [of "\<lambda>_. Inr v" j ts j'] get_value_wf [OF assms(1)] assms(2) by auto
qed

lemma operation_move_wf:
  assumes "wf_json j" "operation_move ts m j = Inr j'"
  shows "wf_json j'"
proof -
  from assms(2) obtain us v k where "get_checked us j = Inr v" "operation_remove us j = Inr k" "operation_add ts v k = Inr j'"
    by (auto simp: operation_move_def rbind_eq_Inr)
  then show ?thesis using assms(1) get_checked_wf operation_remove_wf operation_add_wf by blast
qed

lemma operation_copy_wf:
  assumes "wf_json j" "operation_copy lhs ts m j = Inr j'"
  shows "wf_json j'"
proof -
  from assms(2) obtain us k v where k: "(if lhs then with_unchecked ts Inr j else Inr j) = Inr k"
      and v: "get_checked us k = Inr v" "with_unchecked ts (\<lambda>_. Inr v) j = Inr j'"
    by (auto simp: operation_copy_def rbind_eq_Inr)
  have "wf_json k" using k assms(1) with_unchecked_wf [of Inr j ts k] by (auto split: if_splits)
  then have "wf_json v" using v(1) get_checked_wf by blast
  then show ?thesis using v(2) assms(1) with_unchecked_wf [of "\<lambda>_. Inr v" j ts j'] by auto
qed

lemma operation_test_same: "operation_test lhs ts m j = Inr j' \<Longrightarrow> j' = j"
  by (auto simp: operation_test_def rbind_eq_Inr Let_def domain_error_def split: if_splits)

lemma patch_step_wf: "wf_json op \<Longrightarrow> wf_json j \<Longrightarrow> patch_step lhs op j = Inr j' \<Longrightarrow> wf_json j'"
proof (cases op)
  case (Object m)
  assume wf: "wf_json op" "wf_json j" and step: "patch_step lhs op j = Inr j'"
  note wf_m = wf(1) [unfolded Object]
  obtain ts o' where "(case get_op o' of
         Add \<Rightarrow> rbind (get_value ''add'' ''value'' False m) (\<lambda>v. operation_add ts v j)
       | Remove \<Rightarrow> operation_remove ts j
       | Replace \<Rightarrow> operation_replace lhs ts m j
       | Move \<Rightarrow> operation_move ts m j
       | Copy \<Rightarrow> operation_copy lhs ts m j
       | Test \<Rightarrow> operation_test lhs ts m j
       | Invalid \<Rightarrow> invalid_argument (''operation value '' @ quoted o' @ '' is invalid'')) = Inr j'"
    using step by (auto simp: Object rbind_eq_Inr)
  then consider v where "get_value ''add'' ''value'' False m = Inr v" "operation_add ts v j = Inr j'"
    | "operation_remove ts j = Inr j'" | "operation_replace lhs ts m j = Inr j'" | "operation_move ts m j = Inr j'"
    | "operation_copy lhs ts m j = Inr j'" | "operation_test lhs ts m j = Inr j'"
    by (cases "get_op o'") (auto simp: rbind_eq_Inr invalid_argument_def)
  then show ?thesis
  proof cases
    case 1
    then show ?thesis using wf(2) get_value_wf [OF wf_m] operation_add_wf by blast
  next
    case 6
    then show ?thesis using wf(2) operation_test_same by blast
  qed (use wf(2) wf_m in \<open>blast intro: operation_remove_wf operation_replace_wf operation_move_wf operation_copy_wf\<close>)+
qed (simp_all add: invalid_argument_def)



text \<open>
  The parent of an operation may be a value that has no members. \<open>remove\<close> then does nothing and
  reports nothing, and \<open>add\<close> fails in an assertion, unless the parent is null.
\<close>

theorem patch_below_primitive:
  assumes "get_checked ts j = Inr x" "m_type x \<notin> {T_object, T_array}"
  shows "operation_remove (ts @ [t]) j = Inr j
    \<and> (x \<noteq> Null \<longrightarrow> operation_add (ts @ [t]) v j = Inl (Assertion ''false''))"
  using assms by (cases x) (simp_all add: operation_remove_there operation_add_there pointee.put_get)

theorem patch_below_primitive_witness:
  "operation_remove [''a'', ''b''] (Object [(''a'', Boolean True)]) = Inr (Object [(''a'', Boolean True)])
    \<and> operation_add [''a'', ''b''] Null (Object [(''a'', Boolean True)]) = Inl (Assertion ''false'')"
  using patch_below_primitive [of "[''a'']" "Object [(''a'', Boolean True)]" "Boolean True" "''b''" Null] by simp

text \<open>Reference tokens that name the same element when an element is added and when it is read.\<close>

definition plain_token :: "string \<Rightarrow> bool" where
  "plain_token t \<longleftrightarrow> t \<noteq> ''-'' \<and> \<not> leading_zero t \<and> (case stoi t of Inr i \<Rightarrow> 0 \<le> i | Inl e \<Rightarrow> True)"

lemma index_key_there': "wf_json j \<Longrightarrow> index_key k j = Inr (x, j') \<Longrightarrow> \<exists>m. j' = Object m \<and> map_of m k = Some x"
proof (cases j)
  case (Object m)
  assume "wf_json j" "index_key k j = Inr (x, j')"
  then show ?thesis by (cases "map_of m k") (auto simp: Object emplace_lookup)
qed (auto simp: domain_error_def)

lemma via_key_read:
  assumes "wf_json j" "via_key k f j = Inr j'"
  shows "\<exists>x y. wf_json x \<and> f x = Inr y \<and> get_checked (k # ts) j' = get_checked ts y"
proof -
  from assms(2) obtain x j1 y where k: "index_key k j = Inr (x, j1)" "f x = Inr y" "j' = set_key k y j1"
    by (auto simp: via_key_def rbind_eq_Inr)
  then show ?thesis using index_key_wf [OF assms(1) k(1)] index_key_there' [OF assms(1) k(1)]
    by (auto simp: set_entry_lookup)
qed

lemma via_index_read:
  assumes "wf_json j" "via_index i f j = Inr j'"
  shows "\<exists>x y xs. wf_json x \<and> f x = Inr y \<and> j' = Array xs \<and> i < length xs \<and> xs ! i = y"
proof -
  from assms(2) obtain x j1 y where k: "index_at i j = Inr (x, j1)" "f x = Inr y" "j' = set_index i y j1"
    by (auto simp: via_index_def rbind_eq_Inr)
  moreover obtain ys where "j1 = Array ys" "i < length ys"
    using k(1) by (cases j) (auto simp: rbind_eq_Inr rmap_def element_def domain_error_def split: if_splits)
  ultimately show ?thesis using index_at_wf [OF assms(1) k(1)] by auto
qed

lemma plain_checked_index: "plain_token t \<Longrightarrow> stoi t = Inr i \<Longrightarrow> checked_index t xs = Inr (size_of_int i)"
  by (simp add: checked_index_Inr plain_token_def)

lemma with_unchecked_read:
  "wf_json j \<Longrightarrow> list_all plain_token ts \<Longrightarrow> with_unchecked ts f j = Inr j' \<Longrightarrow>
   \<exists>x y. wf_json x \<and> f x = Inr y \<and> get_checked ts j' = Inr y"
proof (induction ts arbitrary: j j')
  case (Cons t ts)
  show ?case
  proof (cases j)
    case (Object m)
    then obtain x y where "wf_json x" "with_unchecked ts f x = Inr y" "get_checked (t # ts) j' = get_checked ts y"
      using Cons.prems via_key_read [of j t "with_unchecked ts f" j' ts] by auto
    then show ?thesis using Cons.IH [of x y] Cons.prems(2) by auto
  next
    case (Array xs)
    then obtain i where i: "stoi t = Inr i" "via_index (size_of_int i) (with_unchecked ts f) j = Inr j'"
      using Cons.prems(2,3) by (auto simp: rbind_eq_Inr plain_token_def)
    from via_index_read [OF Cons.prems(1) i(2)] obtain x y ys where "wf_json x" "with_unchecked ts f x = Inr y"
        "j' = Array ys" "size_of_int i < length ys" "ys ! size_of_int i = y"
      by blast
    then show ?thesis using Cons.IH [of x y] Cons.prems(2) plain_checked_index [OF _ i(1)] by auto
  qed (use Cons.prems in \<open>simp_all add: unresolved_def out_of_range_def\<close>)
qed auto

lemma size_of_int_small: "0 \<le> i \<Longrightarrow> i < 2 ^ 31 \<Longrightarrow> size_of_int i = nat i"
  by (simp add: size_of_int_def)

lemma stoi_less: "stoi t = Inr i \<Longrightarrow> i < 2 ^ 31"
  by (auto simp: stoi_def Let_def split: if_splits)

lemma add_to_parent_read:
  assumes "wf_json p" "plain_token t" "add_to_parent t v p = Inr q"
  shows "get_checked [t] q = Inr v"
proof (cases p)
  case (Array xs)
  then obtain i where i: "stoi t = Inr i" "size_of_int i \<le> length xs" "q = Array (take (nat i) xs @ v # drop (nat i) xs)"
    using assms(2,3) by (auto simp: rbind_eq_Inr out_of_range_def plain_token_def split: if_splits)
  then have "size_of_int i = nat i" using assms(2) stoi_less [OF i(1)] by (simp add: plain_token_def size_of_int_small)
  then show ?thesis using i plain_checked_index [OF assms(2) i(1)] by (simp add: nth_append)
next
  case Null
  then show ?thesis using assms via_key_read [of p t "\<lambda>_. Inr v" q "[]"] by auto
next
  case (Object m)
  then show ?thesis using assms via_key_read [of p t "\<lambda>_. Inr v" q "[]"] by auto
qed (use assms in auto)

text \<open>
  A value that is added is found at its pointer, unless a token names an array element in a way
  that only one of the two accesses accepts.
\<close>

theorem add_then_read:
  assumes "operation_add ts v j = Inr j'" "wf_json j" "list_all plain_token ts"
  shows "get_checked ts j' = Inr v"
proof (cases ts rule: rev_cases)
  case Nil
  then show ?thesis using assms(1) by (simp add: operation_add_def)
next
  case (snoc us t)
  then have "with_unchecked us (add_to_parent t v) j = Inr j'"
    using assms(1) by (auto simp: operation_add_def pop_back_def rbind_eq_Inr)
  then obtain x y where "wf_json x" "add_to_parent t v x = Inr y" "get_checked us j' = Inr y"
    using with_unchecked_read [of j us "add_to_parent t v" j'] assms(2,3) snoc by auto
  then show ?thesis using add_to_parent_read [of x t v y] assms(3) snoc by (simp add: get_checked_append)
qed

theorem add_then_read_witness:
  "get_checked [''a'', ''1''] (Object [(''a'', Array [Null, Boolean True])]) = Inr (Boolean True)"
proof (rule add_then_read)
  have "stoi ''1'' = Inr 1" by (simp add: stoi_def isspace_def isdigit_def digits_val_def digit_val_def)
  then show "operation_add [''a'', ''1''] (Boolean True) (Object [(''a'', Array [Null])])
      = Inr (Object [(''a'', Array [Null, Boolean True])])" "list_all plain_token [''a'', ''1'']"
    by (simp_all add: operation_add_def top_def pop_back_def json_neq_def to_string_eq escape_eq tilde_char_def
        via_key_def size_of_int_def plain_token_def leading_zero_def stoi_def isspace_def isdigit_def)
qed simp

end
