(* ===== verification/JsonFlatten.thy ===== *)
theory JsonFlatten
  imports JsonPatch
begin

text \<open>
  \<open>flatten\<close> and \<open>unflatten\<close> of \<open>json.hpp\<close>: an object that maps the text of a pointer to each
  primitive value, and the value that is built from such an object.
\<close>

section \<open>Flattening\<close>

text \<open>\<open>result[reference_string] = value\<close>.\<close>

definition flat_assign :: "string \<Rightarrow> json \<Rightarrow> json \<Rightarrow> json res" where
  "flat_assign k v = via_key k (\<lambda>_. Inr v)"

fun flatten_into :: "string \<Rightarrow> json \<Rightarrow> json \<Rightarrow> json res"
  and flatten_elements :: "string \<Rightarrow> nat \<Rightarrow> json list \<Rightarrow> json \<Rightarrow> json res"
  and flatten_entries :: "string \<Rightarrow> (string \<times> json) list \<Rightarrow> json \<Rightarrow> json res" where
  "flatten_into ref (Array xs) result =
     (if xs = [] then flat_assign ref Null result else flatten_elements ref 0 xs result)"
| "flatten_into ref (Object m) result =
     (if m = [] then flat_assign ref Null result else flatten_entries ref m result)"
| "flatten_into ref j result = flat_assign ref j result"
| "flatten_elements ref i [] result = Inr result"
| "flatten_elements ref i (x # xs) result =
     rbind (flatten_into (ref @ ''/'' @ decimal i) x result) (flatten_elements ref (Suc i) xs)"
| "flatten_entries ref [] result = Inr result"
| "flatten_entries ref ((k, v) # m) result =
     rbind (flatten_into (ref @ ''/'' @ escape k) v result) (flatten_entries ref m)"

definition flatten :: "json \<Rightarrow> json res" where
  "flatten j = flatten_into [] j (Object [])"

fun is_primitive :: "json \<Rightarrow> bool" where
  "is_primitive (Object m) \<longleftrightarrow> False"
| "is_primitive (Array xs) \<longleftrightarrow> False"
| "is_primitive Discarded \<longleftrightarrow> False"
| "is_primitive j \<longleftrightarrow> True"

fun unflatten_loop :: "(string \<times> json) list \<Rightarrow> json \<Rightarrow> json res" where
  "unflatten_loop [] result = Inr result"
| "unflatten_loop ((k, v) # m) result =
     (if \<not> is_primitive v then domain_error ''values in object must be primitive''
      else rbind (split k) (\<lambda>ptr. rbind (with_created ptr (\<lambda>_. Inr v) result) (unflatten_loop m)))"

fun unflatten :: "json \<Rightarrow> json res" where
  "unflatten (Object m) = unflatten_loop m Null"
| "unflatten j = domain_error ''only objects can be unflattened''"

section \<open>The primitive values of a value\<close>

fun leaf_at :: "json_pointer \<Rightarrow> json \<Rightarrow> json \<Rightarrow> bool" where
  "leaf_at [] j v \<longleftrightarrow> j = v \<and> is_primitive j"
| "leaf_at (t # ts) (Object m) v \<longleftrightarrow> (\<exists>x. map_of m t = Some x \<and> leaf_at ts x v)"
| "leaf_at (t # ts) (Array xs) v \<longleftrightarrow> (\<exists>i < length xs. t = decimal i \<and> leaf_at ts (xs ! i) v)"
| "leaf_at (t # ts) j v \<longleftrightarrow> False"

text \<open>
  Values that \<open>flatten\<close> keeps: no container is empty, and no member of an object is named \<open>0\<close>, which
  \<open>get_and_create\<close> would take for the first index of an array.
\<close>

fun flattenable :: "json \<Rightarrow> bool" where
  "flattenable (Object m) \<longleftrightarrow> m \<noteq> [] \<and> sorted_keys m \<and> ''0'' \<notin> fst ` set m \<and> (\<forall>kv \<in> set m. flattenable (snd kv))"
| "flattenable (Array xs) \<longleftrightarrow> xs \<noteq> [] \<and> length xs \<le> 2 ^ 31 \<and> (\<forall>x \<in> set xs. flattenable x)"
| "flattenable Discarded \<longleftrightarrow> False"
| "flattenable j \<longleftrightarrow> True"

lemma decimal_inj: "decimal i = decimal k \<longleftrightarrow> i = k"
  by (metis decimal_digits)

lemma leaf_exists: "flattenable j \<Longrightarrow> \<exists>ts v. leaf_at ts j v"
proof (induction j)
  case (Object m)
  then obtain k x m' where m: "m = (k, x) # m'" by (cases m) auto
  have "flattenable x" "x \<in> Basic_BNFs.snds (k, x)" using Object.prems m by (auto simp: snds.intros)
  then obtain ts v where "leaf_at ts x v" using Object.IH m by (metis list.set_intros(1))
  then have "leaf_at (k # ts) (Object m) v" by (simp add: m)
  then show ?case by blast
next
  case (Array xs)
  then obtain x xs' where xs: "xs = x # xs'" by (cases xs) auto
  then obtain ts v where "leaf_at ts x v" using Array.IH [of x] Array.prems by auto
  then have "leaf_at (decimal 0 # ts) (Array xs) v" by (auto simp: xs simp del: decimal_0)
  then show ?case by blast
next
  case Discarded
  then show ?case by simp
qed (rule exI [of _ "[]"], rule exI, simp)+

section \<open>The flattened value\<close>

text \<open>The entries written below \<open>ts\<close>: what is a leaf is there, everything else is as before.\<close>

definition written :: "json_pointer \<Rightarrow> (json_pointer \<Rightarrow> json \<Rightarrow> bool) \<Rightarrow> (string \<times> json) list \<Rightarrow> (string \<times> json) list \<Rightarrow> bool" where
  "written ts leaf F G \<longleftrightarrow> sorted_keys G
     \<and> (\<forall>p v. leaf p v \<longrightarrow> map_of G (to_string (ts @ p)) = Some v)
     \<and> (\<forall>q. (\<nexists>p v. leaf p v \<and> q = to_string (ts @ p)) \<longrightarrow> map_of G q = map_of F q)"

lemma flat_assign_written:
  assumes "sorted_keys F"
  shows "\<exists>G. flat_assign (to_string ts) v (Object F) = Inr (Object G) \<and> written ts (\<lambda>p w. p = [] \<and> w = v) F G"
proof -
  obtain G where "via_key (to_string ts) (\<lambda>_. Inr v) (Object F) = Inr (Object G)" "sorted_keys G"
      "map_of G = (map_of F)(to_string ts \<mapsto> v)"
    using via_key_object [OF assms] by blast
  then show ?thesis by (intro exI [of _ G]) (auto simp: flat_assign_def written_def)
qed

lemma written_step:
  assumes "written (ts @ [t]) leaf F G" "written ts others G H"
    and "\<And>p v w q. leaf p v \<Longrightarrow> others q w \<Longrightarrow> q \<noteq> t # p"
  shows "written ts (\<lambda>p v. (\<exists>q. p = t # q \<and> leaf q v) \<or> others p v) F H"
  unfolding written_def
proof (intro conjI allI impI)
  show "sorted_keys H" using assms(2) by (simp add: written_def)
  fix p v assume "(\<exists>q. p = t # q \<and> leaf q v) \<or> others p v"
  then show "map_of H (to_string (ts @ p)) = Some v"
  proof
    assume "\<exists>q. p = t # q \<and> leaf q v"
    then obtain q where q: "p = t # q" "leaf q v" by blast
    then have "map_of G (to_string (ts @ p)) = Some v" using assms(1) by (simp add: written_def)
    moreover have "\<nexists>p' v'. others p' v' \<and> to_string (ts @ p) = to_string (ts @ p')"
      using assms(3) q by (auto simp: to_string_inj)
    ultimately show ?thesis using assms(2) by (simp add: written_def)
  qed (use assms(2) in \<open>simp add: written_def\<close>)
next
  fix k assume k: "\<nexists>p v. ((\<exists>q. p = t # q \<and> leaf q v) \<or> others p v) \<and> k = to_string (ts @ p)"
  then have "\<nexists>p v. others p v \<and> k = to_string (ts @ p)" "\<nexists>p v. leaf p v \<and> k = to_string ((ts @ [t]) @ p)"
    by auto
  then show "map_of H k = map_of F k" using assms(1,2) by (simp add: written_def)
qed

lemma written_cong: "written ts leaf F G \<Longrightarrow> (\<And>p v. leaf p v \<longleftrightarrow> leaf' p v) \<Longrightarrow> written ts leaf' F G"
  by (simp add: written_def)

lemma leaf_at_primitive: "is_primitive j \<Longrightarrow> leaf_at p j v \<longleftrightarrow> p = [] \<and> v = j"
  by (cases p; cases j) auto

lemma assign_primitive:
  assumes "sorted_keys F" "is_primitive j"
  shows "\<exists>G. flat_assign (to_string ts) j (Object F) = Inr (Object G) \<and> written ts (\<lambda>p v. leaf_at p j v) F G"
  using flat_assign_written [OF assms(1), of ts j] by (simp add: leaf_at_primitive [OF assms(2)])

lemma flatten_written:
  "ref = to_string ts \<Longrightarrow> flattenable j \<Longrightarrow> sorted_keys F \<Longrightarrow> r = Object F \<Longrightarrow>
   \<exists>G. flatten_into ref j r = Inr (Object G) \<and> written ts (\<lambda>p v. leaf_at p j v) F G"
  "ref = to_string ts \<Longrightarrow> \<forall>x \<in> set xs. flattenable x \<Longrightarrow> sorted_keys F \<Longrightarrow> r = Object F \<Longrightarrow>
   \<exists>G. flatten_elements ref i xs r = Inr (Object G)
     \<and> written ts (\<lambda>p v. \<exists>k < length xs. \<exists>q. p = decimal (i + k) # q \<and> leaf_at q (xs ! k) v) F G"
  "ref = to_string ts \<Longrightarrow> \<forall>kv \<in> set m. flattenable (snd kv) \<Longrightarrow> sorted_keys m \<Longrightarrow> sorted_keys F \<Longrightarrow> r = Object F \<Longrightarrow>
   \<exists>G. flatten_entries ref m r = Inr (Object G)
     \<and> written ts (\<lambda>p v. \<exists>k x q. map_of m k = Some x \<and> p = k # q \<and> leaf_at q x v) F G"
proof (induction ref j r and ref i xs r and ref m r arbitrary: ts F and ts F and ts F
    rule: flatten_into_flatten_elements_flatten_entries.induct)
  case (1 ref xs result)
  have "xs \<noteq> []" "\<forall>x \<in> set xs. flattenable x" using "1.prems"(2) by simp_all
  from "1.IH" [OF this(1) "1.prems"(1) this(2) "1.prems"(3,4)] obtain G where G: "flatten_elements ref 0 xs result = Inr (Object G)"
      "written ts (\<lambda>p v. \<exists>k < length xs. \<exists>q. p = decimal (0 + k) # q \<and> leaf_at q (xs ! k) v) F G"
    by blast
  have "written ts (\<lambda>p v. leaf_at p (Array xs) v) F G"
    by (rule written_cong [OF G(2)]) (case_tac p, auto)
  then show ?case using G(1) "1.prems" by simp
next
  case (2 ref m result)
  have m: "m \<noteq> []" "\<forall>kv \<in> set m. flattenable (snd kv)" "sorted_keys m" using "2.prems"(2) by simp_all
  from "2.IH" [OF m(1) "2.prems"(1) m(2,3) "2.prems"(3,4)] obtain G where G: "flatten_entries ref m result = Inr (Object G)"
      "written ts (\<lambda>p v. \<exists>k x q. map_of m k = Some x \<and> p = k # q \<and> leaf_at q x v) F G"
    by blast
  have "written ts (\<lambda>p v. leaf_at p (Object m) v) F G"
    by (rule written_cong [OF G(2)]) (case_tac p, auto)
  then show ?case using G(1) "2.prems" by simp
next
  case (5 ref i x xs result)
  obtain G where G: "flatten_into (ref @ ''/'' @ decimal i) x result = Inr (Object G)"
      "written (ts @ [decimal i]) (\<lambda>p v. leaf_at p x v) F G"
    using "5.IH"(1) [of "ts @ [decimal i]" F] "5.prems" pointer_index by auto
  then have "sorted_keys G" by (simp add: written_def)
  then obtain H where H: "flatten_elements ref (Suc i) xs (Object G) = Inr (Object H)"
      "written ts (\<lambda>p v. \<exists>k < length xs. \<exists>q. p = decimal (Suc i + k) # q \<and> leaf_at q (xs ! k) v) G H"
    using "5.IH"(2) [OF G(1) "5.prems"(1), of G] "5.prems"(2) by auto
  have "written ts (\<lambda>p v. (\<exists>q. p = decimal i # q \<and> leaf_at q x v) \<or>
      (\<exists>k < length xs. \<exists>q. p = decimal (Suc i + k) # q \<and> leaf_at q (xs ! k) v)) F H"
    by (rule written_step [OF G(2) H(2)]) (auto simp: decimal_inj)
  then have "written ts (\<lambda>p v. \<exists>k < length (x # xs). \<exists>q. p = decimal (i + k) # q \<and> leaf_at q ((x # xs) ! k) v) F H"
    by (rule written_cong) (auto simp: less_Suc_eq_0_disj)
  then show ?case using G(1) H(1) by (intro exI [of _ H]) simp
next
  case (7 ref k v m result)
  obtain G where G: "flatten_into (ref @ ''/'' @ escape k) v result = Inr (Object G)"
      "written (ts @ [k]) (\<lambda>p w. leaf_at p v w) F G"
    using "7.IH"(1) [of "ts @ [k]" F] "7.prems" to_string_snoc by auto
  then have "sorted_keys G" by (simp add: written_def)
  then obtain H where H: "flatten_entries ref m (Object G) = Inr (Object H)"
      "written ts (\<lambda>p v. \<exists>k x q. map_of m k = Some x \<and> p = k # q \<and> leaf_at q x v) G H"
    using "7.IH"(2) [OF G(1) "7.prems"(1), of G] "7.prems"(2,3) by auto
  have k: "map_of m k = None" using "7.prems"(3) sorted_lookup [of k v m k] by simp
  have "written ts (\<lambda>p w. (\<exists>q. p = k # q \<and> leaf_at q v w) \<or>
      (\<exists>k x q. map_of m k = Some x \<and> p = k # q \<and> leaf_at q x w)) F H"
    by (rule written_step [OF G(2) H(2)]) (use k in auto)
  then have "written ts (\<lambda>p w. \<exists>k' x q. map_of ((k, v) # m) k' = Some x \<and> p = k' # q \<and> leaf_at q x w) F H"
    by (rule written_cong) (use k in \<open>auto split: if_splits, metis option.distinct(1)\<close>)
  then show ?case using G(1) H(1) by (intro exI [of _ H]) simp
qed (use assign_primitive in \<open>auto simp: written_def\<close>)

section \<open>Values that are built\<close>

text \<open>
  What \<open>get_and_create\<close> has built of a value when the leaves at the pointers \<open>S\<close> have been
  assigned: the members that lead to them, and nulls.
\<close>

definition below :: "string \<Rightarrow> json_pointer set \<Rightarrow> json_pointer set" where
  "below t S = {p. t # p \<in> S}"

inductive built :: "json_pointer set \<Rightarrow> json \<Rightarrow> json \<Rightarrow> bool" where
  built_none: "built {} j Null"
| built_leaf: "is_primitive j \<Longrightarrow> built S j j"
| built_object: "sorted_keys n \<Longrightarrow> dom (map_of n) \<subseteq> dom (map_of m) \<Longrightarrow>
    (\<forall>k x. map_of m k = Some x \<and> map_of n k = None \<longrightarrow> below k S = {}) \<Longrightarrow>
    (\<forall>k x y. map_of m k = Some x \<and> map_of n k = Some y \<longrightarrow> built (below k S) x y) \<Longrightarrow>
    built S (Object m) (Object n)"
| built_array: "length ys \<le> length xs \<Longrightarrow>
    (\<forall>i < length ys. built (below (decimal i) S) (xs ! i) (ys ! i)) \<Longrightarrow>
    (\<forall>i. length ys \<le> i \<and> i < length xs \<longrightarrow> below (decimal i) S = {}) \<Longrightarrow>
    built S (Array xs) (Array ys)"

inductive_cases built_objectE: "built S (Object m) r"
inductive_cases built_arrayE: "built S (Array xs) r"

text \<open>The first leaf below an array that is assigned is one of its first element.\<close>

definition first_below :: "json_pointer set \<Rightarrow> json_pointer \<Rightarrow> json \<Rightarrow> bool" where
  "first_below S p j \<longleftrightarrow>
     (\<forall>q i r xs. p = q @ decimal i # r \<and> get_checked q j = Inr (Array xs) \<and> i > 0 \<longrightarrow> (\<exists>s \<in> S. \<exists>u. s = q @ u \<and> u \<noteq> []))"

lemma below_empty: "below t {} = {}"
  by (simp add: below_def)

lemma below_insert: "below t (insert (t' # p) S) = (if t = t' then insert p (below t S) else below t S)"
  by (auto simp: below_def)

lemma first_below_step:
  assumes "first_below S (t # p) j" "get_checked [t] j = Inr x"
  shows "first_below (below t S) p x"
  unfolding first_below_def
proof (intro allI impI)
  fix q i r xs
  assume "p = q @ decimal i # r \<and> get_checked q x = Inr (Array xs) \<and> i > 0"
  moreover from this have "get_checked (t # q) j = Inr (Array xs)"
    using assms(2) get_checked_append [of "[t]" q j] by simp
  ultimately obtain s u where "s \<in> S" "s = (t # q) @ u" "u \<noteq> []"
    using assms(1) unfolding first_below_def by (metis append_Cons)
  then show "\<exists>s \<in> below t S. \<exists>u. s = q @ u \<and> u \<noteq> []" by (auto simp: below_def)
qed

lemma fill_to_small:
  assumes "length ys \<le> 2 ^ 31" "i < 2 ^ 31"
  shows "\<exists>zs. fill_to i ys = Inr zs \<and> length zs = max (length ys) (Suc i) \<and> i < length zs
    \<and> (\<forall>k < length ys. zs ! k = ys ! k) \<and> (\<forall>k. length ys \<le> k \<and> k < length zs \<longrightarrow> zs ! k = Null)"
proof (cases "i < length ys")
  case True
  then show ?thesis by (auto simp: fill_to_def)
next
  case False
  then have n: "size_add i (1 - int (length ys)) = Suc i - length ys"
    using assms by (simp add: size_add_def nat_eq_iff)
  then show ?thesis using assms False by (auto simp: fill_to_def array_max_def nth_append Let_def)
qed

lemma get_step: "map_of m t = Some x \<Longrightarrow> get_checked [t] (Object m) = Inr x"
  "i < length xs \<Longrightarrow> i < 2 ^ 31 \<Longrightarrow> get_checked [decimal i] (Array xs) = Inr (xs ! i)"
  by (simp_all add: checked_index_decimal)

lemma built_object_step:
  assumes "sorted_keys n" "dom (map_of n) \<subseteq> dom (map_of m)"
    and none: "\<forall>k x. map_of m k = Some x \<and> map_of n k = None \<longrightarrow> below k S = {}"
    and some: "\<forall>k x y. map_of m k = Some x \<and> map_of n k = Some y \<longrightarrow> built (below k S) x y"
    and x: "map_of m t = Some x"
    and f: "\<And>y. built (below t S) x y \<Longrightarrow> \<exists>r'. f y = Inr r' \<and> built (insert p (below t S)) x r'"
  shows "\<exists>r'. via_key t f (Object n) = Inr r' \<and> built (insert (t # p) S) (Object m) r'"
proof -
  obtain y n1 where n1: "index_key t (Object n) = Inr (y, Object n1)" "sorted_keys n1" "map_of n1 = (map_of n)(t \<mapsto> y)"
      "built (below t S) x y"
  proof (cases "map_of n t")
    case None
    then have "built (below t S) x Null" using none x by (metis built_none)
    then show ?thesis using None that [of Null "emplace t Null n"] assms(1) by (simp add: emplace_sorted emplace_lookup)
  next
    case (Some y)
    then show ?thesis using that [of y n] some x assms(1) by (auto simp: fun_upd_idem)
  qed
  obtain r' where r': "f y = Inr r'" "built (insert p (below t S)) x r'" using f [OF n1(4)] by blast
  let ?n = "set_entry t r' n1"
  have n: "map_of ?n = (map_of n)(t \<mapsto> r')" by (simp add: set_entry_lookup n1(3))
  have "built (insert (t # p) S) (Object m) (Object ?n)"
  proof (rule built_object)
    show "sorted_keys ?n" using n1(2) by simp
    show "dom (map_of ?n) \<subseteq> dom (map_of m)" using assms(2) x by (auto simp: n)
    show "\<forall>k x. map_of m k = Some x \<and> map_of ?n k = None \<longrightarrow> below k (insert (t # p) S) = {}"
      using none by (auto simp: n below_insert)
    show "\<forall>k x y. map_of m k = Some x \<and> map_of ?n k = Some y \<longrightarrow> built (below k (insert (t # p) S)) x y"
      using some r'(2) x by (auto simp: n below_insert)
  qed
  then show ?thesis using n1(1) r'(1) by (simp add: via_key_def del: index_key.simps)
qed

lemma built_array_step:
  assumes len: "length ys \<le> length xs" "length xs \<le> 2 ^ 31"
    and some: "\<forall>i < length ys. built (below (decimal i) S) (xs ! i) (ys ! i)"
    and none: "\<forall>i. length ys \<le> i \<and> i < length xs \<longrightarrow> below (decimal i) S = {}"
    and i: "i < length xs"
    and f: "\<And>y. built (below (decimal i) S) (xs ! i) y \<Longrightarrow>
      \<exists>r'. f y = Inr r' \<and> built (insert p (below (decimal i) S)) (xs ! i) r'"
  shows "\<exists>r'. via_index i f (Array ys) = Inr r' \<and> built (insert (decimal i # p) S) (Array xs) r'"
proof -
  obtain zs where zs: "fill_to i ys = Inr zs" "length zs = max (length ys) (Suc i)" "i < length zs"
      "\<forall>k < length ys. zs ! k = ys ! k" "\<forall>k. length ys \<le> k \<and> k < length zs \<longrightarrow> zs ! k = Null"
    using fill_to_small [of ys i] len i by auto
  have all: "built (below (decimal k) S) (xs ! k) (zs ! k)" if "k < length zs" for k
  proof (cases "k < length ys")
    case False
    moreover have "k < length xs" using that zs(2) len i by auto
    ultimately show ?thesis using none zs(5) that built_none by simp
  qed (use some zs(4) in simp)
  obtain r' where r': "f (zs ! i) = Inr r'" "built (insert p (below (decimal i) S)) (xs ! i) r'"
    using f [OF all [OF zs(3)]] by blast
  have "built (insert (decimal i # p) S) (Array xs) (Array (zs[i := r']))"
  proof (rule built_array)
    show "length (zs[i := r']) \<le> length xs" using zs(2) len i by simp
    show "\<forall>k < length (zs[i := r']). built (below (decimal k) (insert (decimal i # p) S)) (xs ! k) (zs[i := r'] ! k)"
      using all r'(2) by (auto simp: below_insert decimal_inj nth_list_update)
    show "\<forall>k. length (zs[i := r']) \<le> k \<and> k < length xs \<longrightarrow> below (decimal k) (insert (decimal i # p) S) = {}"
      using none zs(2) by (auto simp: below_insert decimal_inj)
  qed
  then show ?thesis using zs(1,3) r'(1) by (simp add: via_index_def element_def)
qed

lemma built_objectD: "built S (Object m) r \<Longrightarrow> S = {} \<and> r = Null \<or> (\<exists>n. r = Object n \<and> sorted_keys n
    \<and> dom (map_of n) \<subseteq> dom (map_of m) \<and> (\<forall>k x. map_of m k = Some x \<and> map_of n k = None \<longrightarrow> below k S = {})
    \<and> (\<forall>k x y. map_of m k = Some x \<and> map_of n k = Some y \<longrightarrow> built (below k S) x y))"
  by (erule built_objectE) simp_all

lemma built_arrayD: "built S (Array xs) r \<Longrightarrow> S = {} \<and> r = Null \<or> (\<exists>ys. r = Array ys \<and> length ys \<le> length xs
    \<and> (\<forall>i < length ys. built (below (decimal i) S) (xs ! i) (ys ! i))
    \<and> (\<forall>i. length ys \<le> i \<and> i < length xs \<longrightarrow> below (decimal i) S = {}))"
  by (erule built_arrayE) simp_all

lemma built_step:
  assumes "flattenable j" "leaf_at p j v" "built S j r" "first_below S p j"
  shows "\<exists>r'. with_created p (\<lambda>_. Inr v) r = Inr r' \<and> built (insert p S) j r'"
  using assms
proof (induction p arbitrary: j S r)
  case Nil
  then show ?case using built_leaf by auto
next
  case (Cons t p)
  consider m where "j = Object m" | xs where "j = Array xs" using Cons.prems(2) by (cases j) auto
  then show ?case
  proof cases
    case 1
    then obtain x where x: "map_of m t = Some x" "leaf_at p x v" using Cons.prems(2) by auto
    have fx: "flattenable x" and t: "t \<noteq> ''0''" using Cons.prems(1) 1 x(1) by (force dest: map_of_SomeD)+
    have IH: "\<exists>r'. with_created p (\<lambda>_. Inr v) y = Inr r' \<and> built (insert p (below t S)) x r'"
      if "built (below t S) x y" for y
      using Cons.IH [OF fx x(2) that] first_below_step [OF Cons.prems(4)] x(1) 1 by (simp del: get_checked.simps add: get_step)
    from built_objectD [OF Cons.prems(3) [unfolded 1]] show ?thesis
    proof
      assume none: "S = {} \<and> r = Null"
      have "via_key t g Null = via_key t g (Object [])" for g by (simp add: via_key_def)
      then show ?thesis using built_object_step [of "[]" m S t x "with_created p (\<lambda>_. Inr v)" p] IH x(1) t none 1
        by (simp add: below_empty)
    next
      assume "\<exists>n. r = Object n \<and> sorted_keys n
        \<and> dom (map_of n) \<subseteq> dom (map_of m) \<and> (\<forall>k x. map_of m k = Some x \<and> map_of n k = None \<longrightarrow> below k S = {})
        \<and> (\<forall>k x y. map_of m k = Some x \<and> map_of n k = Some y \<longrightarrow> built (below k S) x y)"
      then obtain n where n: "r = Object n" "sorted_keys n" "dom (map_of n) \<subseteq> dom (map_of m)"
        "\<forall>k x. map_of m k = Some x \<and> map_of n k = None \<longrightarrow> below k S = {}"
        "\<forall>k x y. map_of m k = Some x \<and> map_of n k = Some y \<longrightarrow> built (below k S) x y"
        by blast
      from built_object_step [OF n(2-5) x(1), of "with_created p (\<lambda>_. Inr v)" p] IH show ?thesis using n(1) 1 by simp
    qed
  next
    case 2
    then obtain i where i: "i < length xs" "t = decimal i" "leaf_at p (xs ! i) v" using Cons.prems(2) by auto
    have fx: "flattenable (xs ! i)" and len: "length xs \<le> 2 ^ 31" using Cons.prems(1) 2 i(1) by auto
    have IH: "\<exists>r'. with_created p (\<lambda>_. Inr v) y = Inr r' \<and> built (insert p (below (decimal i) S)) (xs ! i) r'"
      if "built (below (decimal i) S) (xs ! i) y" for y
      using Cons.IH [OF fx i(3) that] first_below_step [OF Cons.prems(4)] i len 2 by (simp del: get_checked.simps add: get_step)
    from built_arrayD [OF Cons.prems(3) [unfolded 2]] show ?thesis
    proof
      assume none: "S = {} \<and> r = Null"
      have "i = 0"
      proof (rule ccontr)
        assume "i \<noteq> 0"
        then show False using Cons.prems(4) none 2 i(2) unfolding first_below_def by force
      qed
      moreover have "via_index k g Null = via_index k g (Array [])" for k g by (simp add: via_index_def)
      ultimately show ?thesis using built_array_step [of "[]" xs S i "with_created p (\<lambda>_. Inr v)" p] IH i len none 2
        by (simp add: below_empty)
    next
      assume "\<exists>ys. r = Array ys \<and> length ys \<le> length xs
        \<and> (\<forall>i < length ys. built (below (decimal i) S) (xs ! i) (ys ! i))
        \<and> (\<forall>i. length ys \<le> i \<and> i < length xs \<longrightarrow> below (decimal i) S = {})"
      then obtain ys where ys: "r = Array ys" "length ys \<le> length xs"
        "\<forall>i < length ys. built (below (decimal i) S) (xs ! i) (ys ! i)"
        "\<forall>i. length ys \<le> i \<and> i < length xs \<longrightarrow> below (decimal i) S = {}"
        by blast
      from built_array_step [OF ys(2) len ys(3,4) i(1), of "with_created p (\<lambda>_. Inr v)" p] IH
      show ?thesis using ys(1) 2 i len by (simp add: stoi_decimal size_of_int_nat)
    qed
  qed
qed

section \<open>Flattening and unflattening\<close>

lemma sorted_map_of_eq:
  assumes "sorted_keys n" "sorted_keys m" "map_of n = map_of m"
  shows "n = m"
proof (rule map_sorted_distinct_set_unique [of fst])
  have d: "distinct (map fst n)" "distinct (map fst m)" using assms(1,2) by (simp_all only: sorted_keys_distinct)
  then show "distinct (map fst n)" "distinct (map fst m)" by simp_all
  show s: "set n = set m" using map_of_inject_set [OF d] assms(3) by simp
  show "inj_on fst (set n \<union> set m)" using d(1) s by (simp add: distinct_map)
  show "sorted (map fst n)" "sorted (map fst m)" using assms(1,2) strict_sorted_imp_sorted by auto
qed

lemma leaf_at_append:
  "flattenable j \<Longrightarrow> leaf_at (q @ r) j v \<Longrightarrow> get_checked q j = Inr x \<Longrightarrow>
   flattenable x \<and> leaf_at r x v \<and> (\<forall>r' w. leaf_at r' x w \<longrightarrow> leaf_at (q @ r') j w)"
proof (induction q arbitrary: j)
  case (Cons t q)
  from Cons.prems(3) show ?case
  proof (rule get_checked_cases)
    fix u us m y
    assume a: "t # q = u # us" "j = Object m" "map_of m u = Some y" "get_checked us y = Inr x"
    then have "flattenable y" using Cons.prems(1) by (force dest: map_of_SomeD)
    then show ?thesis using Cons.IH [of y] Cons.prems(2) a by auto
  next
    fix u us xs i
    assume a: "t # q = u # us" "j = Array xs" "checked_index u xs = Inr i" "i < length xs" "get_checked us (xs ! i) = Inr x"
    then obtain k where k: "k < length xs" "t = decimal k" "leaf_at (q @ r) (xs ! k) v" using Cons.prems(2) by auto
    then have "k = i" using a Cons.prems(1) checked_index_decimal [of k xs] by auto
    then show ?thesis using Cons.IH [of "xs ! k"] Cons.prems(1) a k by auto
  qed simp
qed simp

lemma built_all:
  "flattenable j \<Longrightarrow> built {p. \<exists>v. leaf_at p j v} j r \<Longrightarrow> r = j"
proof (induction j arbitrary: r)
  case (Object m)
  let ?S = "{p. \<exists>v. leaf_at p (Object m) v}"
  have S: "?S \<noteq> {}" using leaf_exists [OF Object.prems(1)] by auto
  have below: "below k ?S = {p. \<exists>v. leaf_at p x v}" if "map_of m k = Some x" for k x
    using that by (auto simp: below_def)
  from built_objectD [OF Object.prems(2)] S obtain n where n: "r = Object n" "sorted_keys n" "dom (map_of n) \<subseteq> dom (map_of m)"
      "\<forall>k x. map_of m k = Some x \<and> map_of n k = None \<longrightarrow> below k ?S = {}"
      "\<forall>k x y. map_of m k = Some x \<and> map_of n k = Some y \<longrightarrow> built (below k ?S) x y"
    by blast
  have "map_of n k = Some x" if k: "map_of m k = Some x" for k x
  proof -
    have x: "(k, x) \<in> set m" "x \<in> Basic_BNFs.snds (k, x)" "flattenable x"
      using map_of_SomeD [OF k] Object.prems(1) by (auto simp: snds.intros)
    then have "below k ?S \<noteq> {}" using below [OF k] leaf_exists by auto
    then obtain y where y: "map_of n k = Some y" using n(4) k by (cases "map_of n k") auto
    then have "built {p. \<exists>v. leaf_at p x v} x y" using n(5) k below [OF k] by metis
    then show ?thesis using Object.IH [OF x] y by simp
  qed
  then have "map_of n = map_of m" using n(3) by (intro ext) (metis domIff not_None_eq subsetD)
  then show ?case using sorted_map_of_eq [OF n(2)] Object.prems(1) n(1) by simp
next
  case (Array xs)
  let ?S = "{p. \<exists>v. leaf_at p (Array xs) v}"
  have S: "?S \<noteq> {}" using leaf_exists [OF Array.prems(1)] by auto
  have below: "below (decimal i) ?S = {p. \<exists>v. leaf_at p (xs ! i) v}" if "i < length xs" for i
    using that by (auto simp: below_def decimal_inj)
  from built_arrayD [OF Array.prems(2)] S obtain ys where ys: "r = Array ys" "length ys \<le> length xs"
      "\<forall>i < length ys. built (below (decimal i) ?S) (xs ! i) (ys ! i)"
      "\<forall>i. length ys \<le> i \<and> i < length xs \<longrightarrow> below (decimal i) ?S = {}"
    by blast
  have "below (decimal i) ?S \<noteq> {}" if "i < length xs" for i
    using below [OF that] leaf_exists [of "xs ! i"] Array.prems(1) that by auto
  then have len: "length ys = length xs" using ys(2,4) by (metis le_neq_implies_less order_refl)
  have "ys ! i = xs ! i" if i: "i < length ys" for i
  proof (rule Array.IH)
    show "xs ! i \<in> set xs" "flattenable (xs ! i)" using i len Array.prems(1) by simp_all
    show "built {p. \<exists>v. leaf_at p (xs ! i) v} (xs ! i) (ys ! i)"
      using ys(3) i below [OF i [unfolded len]] by metis
  qed
  then show ?case using len ys(1) by (simp add: nth_equalityI)
qed (erule built.cases; auto dest: spec [of _ "[]"])+

lemma less_append: "(u @ x < u @ y) = (x < (y :: string))"
  by (induction u) simp_all

lemma decimal_0_less: "i > 0 \<Longrightarrow> (decimal 0 @ x :: string) < decimal i @ y"
proof -
  assume i: "i > 0"
  obtain c ds where d: "decimal i = c # ds" "isdigit c" using decimal_Cons by blast
  then have "c \<noteq> CHR ''0''" using decimal_head [OF i] by simp
  then have "(of_char c :: nat) \<noteq> of_char CHR ''0''" by (metis of_char_eq_iff)
  then have "CHR ''0'' < c" using d(2) by (simp add: less_char_def isdigit_def)
  then show ?thesis by (simp add: d(1))
qed

text \<open>The keys of the flattened value are the pointers to the leaves.\<close>

definition flattened :: "json \<Rightarrow> (string \<times> json) list \<Rightarrow> bool" where
  "flattened j F \<longleftrightarrow> sorted_keys F \<and> (\<forall>k v. map_of F k = Some v \<longleftrightarrow> (\<exists>p. k = to_string p \<and> leaf_at p j v))"

lemma leaf_at_fun: "leaf_at p j v \<Longrightarrow> leaf_at p j w \<Longrightarrow> v = w \<and> is_primitive v"
  by (induction p j v rule: leaf_at.induct) (auto simp: decimal_inj)

lemma flatten_flattened:
  assumes "flattenable j"
  shows "\<exists>F. flatten j = Inr (Object F) \<and> flattened j F"
proof -
  obtain G where G: "flatten_into [] j (Object []) = Inr (Object G)" "written [] (\<lambda>p v. leaf_at p j v) [] G"
    using flatten_written(1) [of "[]" "[]" j "[]" "Object []"] assms by (auto simp: to_string_eq)
  have "map_of G k = Some v \<longleftrightarrow> (\<exists>p. k = to_string p \<and> leaf_at p j v)" for k v
  proof (cases "\<exists>p w. leaf_at p j w \<and> k = to_string p")
    case True
    then obtain p w where p: "leaf_at p j w" "k = to_string p" by blast
    then have "map_of G k = Some w" using G(2) by (simp add: written_def)
    then show ?thesis using p leaf_at_fun by (auto simp: to_string_inj)
  next
    case False
    then have "map_of G k = None" using G(2) unfolding written_def by simp
    then show ?thesis using False by auto
  qed
  then show ?thesis using G by (auto simp: flatten_def flattened_def written_def)
qed

lemma flattened_first:
  assumes j: "flattenable j" and F: "flattened j (A @ (to_string p, v) # B)" and p: "leaf_at p j v"
  shows "first_below {q. to_string q \<in> fst ` set A} p j"
  unfolding first_below_def
proof (intro allI impI)
  fix q i r xs
  assume a: "p = q @ decimal i # r \<and> get_checked q j = Inr (Array xs) \<and> i > 0"
  have x: "flattenable (Array xs)" "\<And>r' w. leaf_at r' (Array xs) w \<Longrightarrow> leaf_at (q @ r') j w"
    using leaf_at_append [OF j, of q "decimal i # r" v "Array xs"] p a by auto
  then obtain y ys where xs: "xs = y # ys" by (cases xs) auto
  then obtain s w where "leaf_at s y w" using leaf_exists [of y] x(1) by auto
  then have "leaf_at (decimal 0 # s) (Array xs) w" by (auto simp: xs simp del: decimal_0)
  then have s: "leaf_at (q @ decimal 0 # s) j w" by (rule x(2))
  have "to_string (q @ decimal 0 # s) < to_string p"
    using a decimal_0_less [of i "to_string s" "to_string r"]
    by (simp add: to_string_eq escape_decimal less_append del: decimal_0)
  moreover have "to_string (q @ decimal 0 # s) \<in> fst ` set (A @ (to_string p, v) # B)"
    using F s unfolding flattened_def by (metis map_of_SomeD fst_conv imageI)
  moreover have "\<forall>k \<in> fst ` set B. to_string p < k"
    using F by (auto simp: flattened_def sorted_wrt_append)
  ultimately have "to_string (q @ decimal 0 # s) \<in> fst ` set A" by auto
  then show "\<exists>s \<in> {q. to_string q \<in> fst ` set A}. \<exists>u. s = q @ u \<and> u \<noteq> []" by blast
qed

lemma unflatten_built:
  assumes "flattenable j"
  shows "flattened j (A @ B) \<Longrightarrow> built {p. to_string p \<in> fst ` set A} j r \<Longrightarrow> unflatten_loop B r = Inr j"
proof (induction B arbitrary: A r)
  case Nil
  have "{p. to_string p \<in> fst ` set A} = {p. \<exists>v. leaf_at p j v}"
    using Nil.prems(1) by (simp add: flattened_def to_string_inj dom_map_of_conv_image_fst [symmetric] dom_def)
  then show ?case using built_all [OF assms] Nil.prems(2) by simp
next
  case (Cons kv B)
  obtain k v where kv: "kv = (k, v)" by (cases kv)
  have "map_of (A @ kv # B) k = Some v"
    by (rule map_of_is_SomeI) (use Cons.prems(1) sorted_keys_distinct [of "A @ kv # B"] in \<open>auto simp: flattened_def kv\<close>)
  then obtain p where p: "k = to_string p" "leaf_at p j v" using Cons.prems(1) unfolding flattened_def by blast
  have "first_below {q. to_string q \<in> fst ` set A} p j"
    using flattened_first [OF assms _ p(2), of A B] Cons.prems(1) by (simp add: kv p(1))
  from built_step [OF assms p(2) Cons.prems(2) this] obtain r' where
    r': "with_created p (\<lambda>_. Inr v) r = Inr r'" "built (insert p {p. to_string p \<in> fst ` set A}) j r'" by blast
  have "insert p {p. to_string p \<in> fst ` set A} = {p. to_string p \<in> fst ` set (A @ [kv])}"
    by (auto simp: kv p(1) to_string_inj)
  then have "unflatten_loop B r' = Inr j" using Cons.IH [of "A @ [kv]" r'] Cons.prems(1) r'(2) by simp
  then show ?case using r'(1) leaf_at_fun [OF p(2) p(2)] by (simp add: kv p(1) split_to_string)
qed

text \<open>
  C21: \<open>j == j.flatten().unflatten()\<close>, for values without empty containers, as documented, in which no
  member of an object is named \<open>0\<close> and the indices of the arrays fit in an \<open>int\<close>.
\<close>

theorem unflatten_flatten:
  assumes "flattenable j"
  shows "rbind (flatten j) unflatten = Inr j"
proof -
  obtain F where F: "flatten j = Inr (Object F)" "flattened j F" using flatten_flattened [OF assms] by blast
  have "built {p. to_string p \<in> fst ` set []} j Null" by (simp add: built_none)
  from unflatten_built [OF assms _ this] F show ?thesis by simp
qed

theorem unflatten_flatten_witness:
  "rbind (flatten (Object [(''a'', Array [Null, Object [(''b/'', String ''x'')]])])) unflatten
    = Inr (Object [(''a'', Array [Null, Object [(''b/'', String ''x'')]])])"
  by (rule unflatten_flatten) simp

end
