(* ===== verification/BlockStore.thy ===== *)
theory BlockStore
  imports MsgHandler
begin

text \<open>
  The store of blocks (\<open>iotchain/src/Core/block_index.cpp\<close>, \<open>block_container.cpp\<close>,
  \<open>Blockchain.cpp\<close>, \<open>iotchain/src/db/db.h\<close>). The database behind \<open>g_db\<close> is the vendored
  RocksDB: an ordered map from byte strings to byte strings, here the list of its entries sorted
  by key, with \<open>Put\<close>, \<open>Get\<close> and the scan of an iterator.
\<close>

section \<open>block\_index\<close>

type_synonym hash = bytes
type_synonym block_index = "hash list"

definition index_push :: "hash \<Rightarrow> block_index \<Rightarrow> block_index" where
  "index_push hash container = container @ [hash]"

definition index_pop :: "block_index \<Rightarrow> block_index res" where
  "index_pop container = (if container = [] then Inl (Undefined Out_of_bounds) else Inr (butlast container))"

definition index_clear :: "block_index \<Rightarrow> block_index" where
  "index_clear container = []"

definition index_size :: "block_index \<Rightarrow> nat" where
  "index_size container = length container"

definition has_block :: "hash \<Rightarrow> block_index \<Rightarrow> bool" where
  "has_block hash container \<longleftrightarrow> hash \<in> set container"

fun position :: "hash \<Rightarrow> block_index \<Rightarrow> nat" where
  "position h [] = 0"
| "position h (x # xs) = (if x = h then 0 else Suc (position h xs))"

definition block_height :: "hash \<Rightarrow> block_index \<Rightarrow> u32 res" where
  "block_height hash container =
     (let it = position hash container
      in if it \<noteq> length container then Inr (of_nat it) else Inl (Runtime_error ''cannot find blockhash''))"

definition block_at :: "u32 \<Rightarrow> block_index \<Rightarrow> hash res" where
  "block_at height container =
     (if \<not> length container \<ge> unat height then Inl (Assertion ''container_.size() >= height'')
      else if unat height = length container then Inl (Undefined Out_of_bounds)
      else Inr (container ! unat height))"

definition front_block :: "block_index \<Rightarrow> hash res" where
  "front_block container =
     (if container = [] then Inl (Assertion ''!container_.empty()'') else Inr (container ! 0))"

definition tail_block :: "block_index \<Rightarrow> hash res" where
  "tail_block container =
     (if container = [] then Inl (Assertion ''!container_.empty()'') else Inr (last container))"

section \<open>The database (db.h and the calls on g\_db)\<close>

type_synonym db = "(bytes \<times> bytes) list"

fun db_put :: "bytes \<Rightarrow> bytes \<Rightarrow> db \<Rightarrow> db" where
  "db_put k v [] = [(k, v)]"
| "db_put k v ((k', v') # es) =
     (if k = k' then (k, v) # es else if k < k' then (k, v) # (k', v') # es else (k', v') # db_put k v es)"

definition db_get :: "bytes \<Rightarrow> db \<Rightarrow> bytes option" where
  "db_get k es = map_of es k"

definition make_slice :: "bytes \<Rightarrow> bytes" where
  "make_slice arr = arr"

definition slice_to_hash :: "bytes \<Rightarrow> hash res" where
  "slice_to_hash sl = (if length sl < 32 then Inl (Undefined Out_of_bounds) else Inr (take 32 sl))"

section \<open>block\_container\<close>

text \<open>
  The multimap from the hash of a block's predecessor to its own hash, as the sequence of its
  entries in iteration order.
\<close>

record block_container =
  blocks :: "(hash \<times> hash) list"
  index :: block_index

fun load_entries :: "db \<Rightarrow> (hash \<times> hash) list \<Rightarrow> (hash \<times> hash) list res" where
  "load_entries [] bs = Inr bs"
| "load_entries ((k, v) # es) bs =
     rbind (slice_to_hash k) (\<lambda>block_hash.
     rbind (deserialize_block mr_read (mr_new v)) (\<lambda>(bl, reader).
     load_entries es (bs @ [(prev_block_hash bl, block_hash)])))"

text \<open>The constructor; \<open>opened\<close> tells whether \<open>g_db\<close> is already set, \<open>status\<close> that of \<open>Open\<close>.\<close>

definition block_container_new :: "bool \<Rightarrow> bool \<Rightarrow> db \<Rightarrow> block_container res" where
  "block_container_new opened status es =
     (if opened then Inl (Assertion ''rocksdb already opened'')
      else if \<not> status then Inl (Assertion ''cannot open rocksdb'')
      else rmap (\<lambda>bs. \<lparr>blocks = bs, index = []\<rparr>) (load_entries es []))"

definition find_block :: "hash \<Rightarrow> (hash \<times> hash) list \<Rightarrow> hash res" where
  "find_block k bs = (case map_of bs k of None \<Rightarrow> Inl (Undefined Out_of_bounds) | Some h \<Rightarrow> Inr h)"

definition equal_range :: "hash \<Rightarrow> (hash \<times> hash) list \<Rightarrow> hash list" where
  "equal_range k bs = map snd (filter (\<lambda>(p, c). p = k) bs)"

text \<open>
  One node of a level: the reference to the front is taken, the \<^emph>\<open>last\<close> element is removed, then
  the children of the referenced hash are appended. When the front was also the last element, the
  reference is to a destroyed object; \<open>intact\<close> asks what reading it does: with \<open>True\<close> it still
  shows the old value, with \<open>False\<close> it counts as what it is in C++, undefined.
\<close>

definition visit_front :: "bool \<Rightarrow> (hash \<times> hash) list \<Rightarrow> block_index \<Rightarrow> block_index res" where
  "visit_front intact bs idx =
     rbind (front_block idx) (\<lambda>node.
     rbind (index_pop idx) (\<lambda>rest.
       if rest = [] \<and> \<not> intact then Inl (Undefined Dangling_reference)
       else Inr (foldl (\<lambda>idx h. index_push h idx) rest (equal_range node bs))))"

fun visit_level :: "bool \<Rightarrow> (hash \<times> hash) list \<Rightarrow> nat \<Rightarrow> block_index \<Rightarrow> block_index res" where
  "visit_level intact bs 0 idx = Inr idx"
| "visit_level intact bs (Suc nodeCount) idx =
     rbind (visit_front intact bs idx) (visit_level intact bs nodeCount)"

fun chain_levels :: "bool \<Rightarrow> nat \<Rightarrow> (hash \<times> hash) list \<Rightarrow> nat \<Rightarrow> block_index \<Rightarrow> (nat \<times> block_index) res" where
  "chain_levels intact 0 bs height idx = Inl Diverges"
| "chain_levels intact (Suc fuel) bs height idx =
     (let nodeCount = index_size idx
      in if nodeCount = 0 then Inr (height, idx)
         else rbind (visit_level intact bs nodeCount idx) (chain_levels intact fuel bs (height + 1)))"

definition build_longest_chain :: "bool \<Rightarrow> nat \<Rightarrow> block_container \<Rightarrow> (nat \<times> block_container) res" where
  "build_longest_chain intact fuel c =
     (let c = c\<lparr>index := index_clear (index c)\<rparr>
      in if blocks c = [] then Inr (0, c)
         else rbind (find_block (replicate 32 0) (blocks c)) (\<lambda>genesis.
              rbind (chain_levels intact fuel (blocks c) 0 (index_push genesis (index c))) (\<lambda>(height, idx).
                Inr (height, c\<lparr>index := idx\<rparr>))))"

text \<open>\<open>generate_genesis\<close>, with the time and the content of the padding bytes of the header.\<close>

definition generate_genesis ::
  "digest \<Rightarrow> bytes \<Rightarrow> u64 \<Rightarrow> TX \<Rightarrow> block_container \<Rightarrow> db \<Rightarrow> (Block \<times> db) res" where
  "generate_genesis sha pad now base_tx c es =
     (if index_size (index c) > 0 then Inl (Logic_error ''already has genesis'')
      else let new_block = \<lparr>nonce = 0, timestamp = now, prev_block_hash = replicate 32 0,
                            coinbase = base_tx, tx_list = []\<rparr>;
               block_hash = BlockHash sha pad new_block
           in rbind (serialize_block bs_write new_block bs_new) (\<lambda>writer.
                Inr (new_block, db_put (make_slice block_hash) (make_slice (bs_buf writer)) es)))"

definition genesis_block :: "block_container \<Rightarrow> db \<Rightarrow> Block res" where
  "genesis_block c es =
     rbind (block_at 0 (index c)) (\<lambda>hash.
     rmap fst (deserialize_block mr_read (mr_new (case db_get (make_slice hash) es of Some v \<Rightarrow> v | None \<Rightarrow> []))))"

section \<open>blockchain\<close>

record blockchain =
  container :: "block_container option"
  cfg_folder :: string
  chain_log :: app_log

definition blockchain_new :: blockchain where
  "blockchain_new = \<lparr>container = None, cfg_folder = [], chain_log = []\<rparr>"

definition chain_logs :: "log_level \<Rightarrow> string \<Rightarrow> blockchain \<Rightarrow> blockchain" where
  "chain_logs lvl s b = b\<lparr>chain_log := chain_log b @ [(lvl, s)]\<rparr>"

definition load_blocks :: "bool \<Rightarrow> bool \<Rightarrow> db \<Rightarrow> blockchain \<Rightarrow> (bool \<times> blockchain) res" where
  "load_blocks opened status es b =
     (case container b of
        Some _ \<Rightarrow> Inr (False, chain_logs Log_warn ''canceled loading blocks: blocks have already loaded'' b)
      | None \<Rightarrow>
          rbind (block_container_new opened status es) (\<lambda>c.
            Inr (True, (chain_logs Log_info ''loading blockchain...'' b)\<lparr>container := Some c\<rparr>)))"

text \<open>
  The coinbase of the genesis block \<open>init\<close> creates: \<open>wallet\<close> is the public key of the new wallet
  the user asked for, if any, and \<open>sig\<close> the uninitialised signature.
\<close>

definition genesis_tx :: "u64 \<Rightarrow> bytes option \<Rightarrow> bytes \<Rightarrow> TX" where
  "genesis_tx now wallet sig =
     (case wallet of
        Some pub \<Rightarrow> \<lparr>tx_time = now, tx_inputs = [\<lparr>in_amount = 123456789, in_data = []\<rparr>],
           tx_outputs = [\<lparr>out_amount = 123456789, out_to = pub\<rparr>], tx_extra = [],
           tx_from = replicate 25 0, tx_signature = sig\<rparr>
      | None \<Rightarrow> \<lparr>tx_time = now, tx_inputs = [\<lparr>in_amount = 0, in_data = []\<rparr>],
           tx_outputs = [\<lparr>out_amount = 0, out_to = replicate 25 0\<rparr>], tx_extra = [],
           tx_from = replicate 25 0, tx_signature = sig\<rparr>)"

text \<open>\<open>init\<close>; \<open>wallet\<close> is the public key of the key pair it makes when the answer is yes.\<close>

definition chain_init ::
  "digest \<Rightarrow> bytes \<Rightarrow> u64 \<Rightarrow> string \<Rightarrow> bytes \<Rightarrow> bytes \<Rightarrow> bool \<Rightarrow> bool \<Rightarrow> string \<Rightarrow> db \<Rightarrow> blockchain
     \<Rightarrow> (bool \<times> db \<times> blockchain) res" where
  "chain_init sha pad now ans wallet sig opened status folder es b =
     (if folder = [] then Inr (False, es, chain_logs Log_critical ''init failed: cannot find given folder'' b)
      else
        rbind (load_blocks opened status es (b\<lparr>cfg_folder := folder\<rparr>)) (\<lambda>(loaded, b).
        let b = (if loaded then b else chain_logs Log_critical ''init failed: cannot load blocks'' b)
        in case container b of
             None \<Rightarrow> Inl (Undefined Dangling_reference)
           | Some c \<Rightarrow>
               (if blocks c \<noteq> [] then Inr (True, es, b)
                else
                  let b = chain_logs Log_warn ''create a wallet to send all coins?(y/Y): ''
                            (chain_logs Log_info ''generating genesis block...''
                              (chain_logs Log_warn ''can't find any genesis block'' b));
                      yes = (ans = ''y'' \<or> ans = ''Y'');
                      tx = genesis_tx now (if yes then Some wallet else None) sig;
                      b = (if yes then chain_logs Log_info ''new wallet created and saved.'' b else b)
                  in rbind (generate_genesis sha pad now tx c es) (\<lambda>(bl, es).
                     rbind (json_of_block sha pad bl) (\<lambda>serialized.
                       Inr (True, es, chain_logs Log_info (dump_json 4 serialized) b))))))"


section \<open>The longest chain\<close>

text \<open>
  C40: \<open>build_longest_chain\<close> is undefined for every store that is not empty: the first level has
  one node, and the element that is removed while its reference is still in use is that node.
\<close>

theorem build_longest_chain_undefined:
  assumes "blocks c \<noteq> []"
  shows "\<exists>u. build_longest_chain False (Suc fuel) c = Inl (Undefined u)"
  using assms
  by (auto simp: build_longest_chain_def find_block_def index_clear_def index_push_def index_size_def
      visit_front_def front_block_def index_pop_def split: option.split)

definition two_blocks :: block_container where
  "two_blocks = \<lparr>blocks = [(replicate 32 0, replicate 32 1), (replicate 32 1, replicate 32 2)], index = []\<rparr>"

theorem build_longest_chain_undefined_witness:
  "\<exists>u. build_longest_chain False 5 two_blocks = Inl (Undefined u)"
  using build_longest_chain_undefined [of two_blocks 4] by (simp add: two_blocks_def)

text \<open>A chain without forks below \<open>h\<close>: its blocks from \<open>h\<close> on.\<close>

fun follows :: "(hash \<times> hash) list \<Rightarrow> hash list \<Rightarrow> bool" where
  "follows bs [] \<longleftrightarrow> True"
| "follows bs [h] \<longleftrightarrow> equal_range h bs = []"
| "follows bs (h # x # t) \<longleftrightarrow> equal_range h bs = [x] \<and> follows bs (x # t)"

lemma visit_single:
  "visit_level True bs (Suc 0) [h] = Inr (equal_range h bs)"
proof -
  have "foldl (\<lambda>idx h. index_push h idx) acc xs = acc @ xs" for acc xs
    by (induction xs arbitrary: acc) (simp_all add: index_push_def)
  then show ?thesis by (simp add: visit_front_def front_block_def index_pop_def)
qed

lemma linear_levels:
  "follows bs (h # t) \<Longrightarrow> length t + 2 \<le> fuel \<Longrightarrow>
   chain_levels True fuel bs height [h] = Inr (height + length t + 1, [])"
proof (induction t arbitrary: h height fuel)
  case Nil
  then have "fuel = Suc (Suc (fuel - 2))" by simp
  then obtain f where "fuel = Suc (Suc f)" by blast
  with Nil show ?case by (simp add: index_size_def visit_single [unfolded One_nat_def] del: visit_level.simps)
next
  case (Cons x t)
  then obtain f where f: "fuel = Suc f" "length t + 2 \<le> f" by (cases fuel) auto
  from Cons.prems(1) have "visit_level True bs (Suc 0) [h] = Inr [x]" "follows bs (x # t)"
    by (simp_all add: visit_single del: visit_level.simps)
  with Cons.IH [OF _ f(2), of x "height + 1"] f(1) show ?case
    by (simp add: index_size_def del: visit_level.simps)
qed

lemma fork_loops:
  assumes "equal_range a bs = [d]"
  shows "chain_levels True fuel bs height [a, x] = Inl Diverges"
proof (induction fuel arbitrary: x height)
  case (Suc fuel)
  have "visit_front True bs [a, y] = Inr [a, d]" for y
    using assms by (simp add: visit_front_def front_block_def index_pop_def index_push_def)
  then have "visit_level True bs 2 [a, x] = Inr [a, d]" by (simp add: numeral_2_eq_2)
  with Suc.IH show ?case by (simp add: index_size_def numeral_2_eq_2 del: visit_level.simps)
qed simp

text \<open>
  Even if a destroyed element still showed its value, the function finds the length of the
  chain only when there are no forks, and then leaves the index empty; with a fork at the genesis
  block whose first branch goes on, it removes the wrong end of the queue and never returns.
\<close>

theorem build_longest_chain_forks:
  assumes "map_of (blocks c) (replicate 32 0) = Some g" "blocks c \<noteq> []"
  shows "(follows (blocks c) (g # t) \<longrightarrow>
            build_longest_chain True (length t + 2) c = Inr (length (g # t), c\<lparr>index := []\<rparr>))
    \<and> (equal_range g (blocks c) = [a, b] \<longrightarrow> equal_range a (blocks c) = [d] \<longrightarrow>
            (\<forall>fuel. build_longest_chain True fuel c = Inl Diverges))"
proof (intro conjI impI allI)
  assume "follows (blocks c) (g # t)"
  from linear_levels [OF this, of "length t + 2" 0] assms
  show "build_longest_chain True (length t + 2) c = Inr (length (g # t), c\<lparr>index := []\<rparr>)"
    by (simp add: build_longest_chain_def find_block_def index_clear_def index_push_def del: chain_levels.simps)
next
  fix fuel assume r: "equal_range g (blocks c) = [a, b]" "equal_range a (blocks c) = [d]"
  have "chain_levels True fuel (blocks c) 0 [g] = Inl Diverges"
  proof (cases fuel)
    case (Suc f)
    with visit_single [of "blocks c" g] fork_loops [OF r(2), where x = b and fuel = f] r(1) show ?thesis
      by (simp add: index_size_def del: visit_level.simps)
  qed simp
  with assms show "build_longest_chain True fuel c = Inl Diverges"
    by (simp add: build_longest_chain_def find_block_def index_clear_def index_push_def del: chain_levels.simps)
qed

theorem build_longest_chain_forks_witness:
  "build_longest_chain True 3 two_blocks = Inr (2, two_blocks)"
proof -
  have "follows (blocks two_blocks) (replicate 32 1 # [replicate 32 2])" "blocks two_blocks \<noteq> []"
    "map_of (blocks two_blocks) (replicate 32 0) = Some (replicate 32 1)"
    by (simp_all add: two_blocks_def equal_range_def)
  with build_longest_chain_forks [of two_blocks "replicate 32 1" "[replicate 32 2]"] show ?thesis
    by (simp add: two_blocks_def numeral_2_eq_2 numeral_3_eq_3)
qed

section \<open>The genesis block\<close>

lemma address_encodes: "length a = 25 \<Longrightarrow> \<exists>s. pub_encoded (public_key_of a) = Inr s"
  using decode_encode [of a] by (auto simp: pub_encoded_def public_key_of_def)

definition genesis :: "u64 \<Rightarrow> TX \<Rightarrow> Block" where
  "genesis now tx = \<lparr>nonce = 0, timestamp = now, prev_block_hash = replicate 32 0, coinbase = tx, tx_list = []\<rparr>"

lemma genesis_tx_small:
  assumes "length sig = 65" "case wallet of None \<Rightarrow> True | Some p \<Rightarrow> length p = 25"
  shows "small_tx (genesis_tx now wallet sig)" "length (tx_wire (genesis_tx now wallet sig)) \<le> 1000"
    and "\<exists>j. (\<forall>x. length (sha x) < 2 ^ 31 - 1) \<longrightarrow> json_of_tx sha (genesis_tx now wallet sig) = Inr j"
proof -
  show "small_tx (genesis_tx now wallet sig)"
    using assms by (simp add: genesis_tx_def small_tx_def wf_TX_def wf_output_def split: option.splits)
  show "length (tx_wire (genesis_tx now wallet sig)) \<le> 1000"
    using assms by (simp add: genesis_tx_def tx_wire_def size_bytes_def input_wire_def output_wire_def split: option.splits)
  obtain f where f: "pub_encoded (public_key_of (replicate 25 0)) = Inr f" using address_encodes by fastforce
  obtain w where w: "case wallet of None \<Rightarrow> True | Some p \<Rightarrow> pub_encoded (public_key_of p) = Inr w"
    using assms(2) address_encodes by (cases wallet) auto
  show "\<exists>j. (\<forall>x. length (sha x) < 2 ^ 31 - 1) \<longrightarrow> json_of_tx sha (genesis_tx now wallet sig) = Inr j"
    using f w assms(1)
    by (cases wallet) (auto simp: json_of_tx_def genesis_tx_def json_of_input_def json_of_output_def hex_buffer_text TXHash_image Let_def)
qed

lemma generate_genesis_ok:
  assumes "small_tx tx" "length (tx_wire tx) \<le> 1000" "index c = []"
  shows "generate_genesis sha pad now tx c es = Inr (genesis now tx,
    db_put (BlockHash sha pad (genesis now tx)) (block_wire (genesis now tx)) es)"
proof -
  let ?bl = "genesis now tx"
  have "length (block_wire ?bl) \<le> vec_max"
    using assms(2) by (simp add: block_wire_def genesis_def size_bytes_def vec_max_def)
  with bs_writer.writesD [OF bs_writer.writes_block bs_inv_new, of ?bl] obtain s where
    s: "serialize_block bs_write ?bl bs_new = Inr s" "bs_inv s" "fst (cursor s) = block_wire ?bl"
      "vec_max - bs_size s = vec_max - length (block_wire ?bl)"
    by (auto simp: bs_size_def bs_new_def cursor_def)
  then have "bs_size s = length (block_wire ?bl)"
    using \<open>length (block_wire ?bl) \<le> vec_max\<close> unfolding bs_inv_def by linarith
  with s(3) have "bs_size s = length (fst (cursor s))" by simp
  then have "bs_buf s = fst (cursor s)" by (simp add: cursor_def bs_size_def)
  with s assms(3) show ?thesis
    by (simp add: generate_genesis_def index_size_def make_slice_def genesis_def [symmetric] Let_def)
qed

lemma load_genesis:
  assumes "small_tx tx" "length (tx_wire tx) \<le> 1000" "length h = 32"
  shows "block_container_new False True [(h, block_wire (genesis now tx))]
    = Inr \<lparr>blocks = [(replicate 32 0, h)], index = []\<rparr>"
proof -
  have "small_block (genesis now tx)" "length (block_wire (genesis now tx)) \<le> vec_max"
    using assms(1,2) by (simp_all add: small_block_def genesis_def block_wire_def size_bytes_def vec_max_def)
  from mr_parses(1) [OF mr_reader.parses_block [OF this(1)] this(2)] assms(3) show ?thesis
    by (auto simp: block_container_new_def slice_to_hash_def padded_block_def genesis_def)
qed

text \<open>
  C32: on an empty database \<open>init\<close> creates and stores a genesis block, with all coins for the new
  wallet when the user asks for one; when the program is started again on the same database,
  \<open>init\<close> finds it and changes nothing, whatever the user would answer.
\<close>

theorem genesis_survives_restart:
  assumes "folder \<noteq> []" "\<And>x. length (sha x) = 32" "length wallet = 25" "length sig = 65"
  shows "\<exists>es b bl. chain_init sha pad now ans wallet sig False True folder [] blockchain_new = Inr (True, es, b)
    \<and> es = [(BlockHash sha pad bl, block_wire bl)] \<and> prev_block_hash bl = replicate 32 0
    \<and> tx_outputs (coinbase bl) = (if ans = ''y'' \<or> ans = ''Y'' then [\<lparr>out_amount = 123456789, out_to = wallet\<rparr>]
                                  else [\<lparr>out_amount = 0, out_to = replicate 25 0\<rparr>])
    \<and> (\<forall>pad' now' ans' wallet' sig'. \<exists>b'. chain_init sha pad' now' ans' wallet' sig' False True folder es blockchain_new
           = Inr (True, es, b') \<and> map_option blocks (container b') = Some [(replicate 32 0, BlockHash sha pad bl)])"
proof -
  let ?w = "if ans = ''y'' \<or> ans = ''Y'' then Some wallet else None"
  let ?tx = "genesis_tx now ?w sig"
  let ?bl = "genesis now ?tx"
  have "case ?w of None \<Rightarrow> True | Some p \<Rightarrow> length p = 25" using assms(3) by simp
  note tx = genesis_tx_small [OF assms(4) this]
  from tx(3) [of sha now] assms(2) obtain j where j: "json_of_tx sha ?tx = Inr j" by auto
  then obtain jb where jb: "json_of_block sha pad ?bl = Inr jb"
    using assms(2) by (auto simp: json_of_block_def genesis_def hex_buffer_text BlockHash_image)
  let ?es = "[(BlockHash sha pad ?bl, block_wire ?bl)]"
  have "generate_genesis sha pad now ?tx \<lparr>blocks = [], index = []\<rparr> [] = Inr (?bl, ?es)"
    using generate_genesis_ok [OF tx(1,2), where c = "\<lparr>blocks = [], index = []\<rparr>" and es = "[]"] by simp
  then have "\<exists>b. chain_init sha pad now ans wallet sig False True folder [] blockchain_new = Inr (True, ?es, b)"
    using assms(1) jb
    by (auto simp: chain_init_def load_blocks_def blockchain_new_def block_container_new_def chain_logs_def Let_def)
  moreover have "length (BlockHash sha pad ?bl) = 32" using assms(2) by (simp add: BlockHash_image)
  from load_genesis [OF tx(1,2) this, of now] have
    "\<exists>b'. chain_init sha pad' now' ans' wallet' sig' False True folder ?es blockchain_new
           = Inr (True, ?es, b') \<and> map_option blocks (container b') = Some [(replicate 32 0, BlockHash sha pad ?bl)]"
      for pad' now' ans' wallet' sig'
    using assms(1) by (simp add: chain_init_def load_blocks_def blockchain_new_def chain_logs_def Let_def)
  moreover have "prev_block_hash ?bl = replicate 32 0 \<and> tx_outputs (coinbase ?bl)
      = (if ans = ''y'' \<or> ans = ''Y'' then [\<lparr>out_amount = 123456789, out_to = wallet\<rparr>] else [\<lparr>out_amount = 0, out_to = replicate 25 0\<rparr>])"
    by (simp add: genesis_def genesis_tx_def)
  ultimately show ?thesis by blast
qed

theorem genesis_survives_restart_witness:
  "\<exists>es b. chain_init (\<lambda>_. replicate 32 1) [0, 0, 0, 0] 5 ''y'' (replicate 25 7) (replicate 65 0) False True ''db'' [] blockchain_new
     = Inr (True, es, b)"
  using genesis_survives_restart [of "''db''" "\<lambda>_. replicate 32 1" "replicate 25 7" "replicate 65 0" "[0, 0, 0, 0]" 5 "''y''"]
  by auto

text \<open>
  C38: \<open>genesis_block\<close> can never return the genesis block: no operation puts anything into the
  index of a loaded container, and \<open>block_at\<close> lets height 0 of an empty index pass its assertion.
  In general the assertion admits exactly one height too many.
\<close>

theorem genesis_block_undefined:
  assumes "block_container_new opened status es = Inr c"
  shows "genesis_block c es' = Inl (Undefined Out_of_bounds)
    \<and> (\<forall>h idx. block_at h idx = (if unat h < length idx then Inr (idx ! unat h)
          else if unat h = length idx then Inl (Undefined Out_of_bounds)
          else Inl (Assertion ''container_.size() >= height'')))"
  using assms
  by (auto simp: block_container_new_def genesis_block_def block_at_def rmap_def rbind_eq_Inr split: if_splits)

theorem genesis_block_undefined_witness:
  "genesis_block \<lparr>blocks = [], index = []\<rparr> [] = Inl (Undefined Out_of_bounds)"
proof -
  have "block_container_new False True [] = Inr \<lparr>blocks = [], index = []\<rparr>" by (simp add: block_container_new_def)
  from genesis_block_undefined [OF this] show ?thesis by blast
qed

end
