(* ===== verification/VM.thy ===== *)
theory VM
  imports Prelude "HOL-Library.Signed_Division"
begin

text \<open>
  The virtual machine for smart contracts (\<open>iotchain/src/VM/MCLVirtualMachine.h\<close> and
  \<open>.cpp\<close>; \<open>___sunum/vm.h\<close> and \<open>vm.cpp\<close> are copies): thirteen 64-bit registers, a stack of
  16 MB and a byte code with variable-length instructions. Every access outside the byte code, the
  registers or the stack is undefined behaviour of the C++ program, as are division by zero and
  the overflow of signed arithmetic. What the machine prints and does to the outside is a list of
  events. The unaligned 64-bit accesses the code makes through casted pointers are taken to work
  as on the targets.
\<close>

section \<open>Opcodes and registers\<close>

datatype Opcode = STOP | ADD | SUB | MUL | SMUL | DIV | SDIV | MOD | SMOD | EXP | NEG | LT | LE | GT | GE | EQ
  | NOT | STORE | LOAD | JMP | CALL | RET | PUSH | POP | MOV | SYSCALL

definition opcodes :: "Opcode list" where
  "opcodes = [STOP, ADD, SUB, MUL, SMUL, DIV, SDIV, MOD, SMOD, EXP, NEG, LT, LE, GT, GE, EQ,
     NOT, STORE, LOAD, JMP, CALL, RET, PUSH, POP, MOV, SYSCALL]"

fun opcode_num :: "Opcode \<Rightarrow> nat" where
  "opcode_num STOP = 0" | "opcode_num ADD = 1" | "opcode_num SUB = 2" | "opcode_num MUL = 3"
| "opcode_num SMUL = 4" | "opcode_num DIV = 5" | "opcode_num SDIV = 6" | "opcode_num MOD = 7"
| "opcode_num SMOD = 8" | "opcode_num EXP = 9" | "opcode_num NEG = 10" | "opcode_num LT = 11"
| "opcode_num LE = 12" | "opcode_num GT = 13" | "opcode_num GE = 14" | "opcode_num EQ = 15"
| "opcode_num NOT = 16" | "opcode_num STORE = 17" | "opcode_num LOAD = 18" | "opcode_num JMP = 19"
| "opcode_num CALL = 20" | "opcode_num RET = 21" | "opcode_num PUSH = 22" | "opcode_num POP = 23"
| "opcode_num MOV = 24" | "opcode_num SYSCALL = 25"

text \<open>The order of the enumeration.\<close>

lemma opcode_num_inject [simp]: "opcode_num x = opcode_num y \<longleftrightarrow> x = y"
  by (cases x; cases y) simp_all

instantiation Opcode :: linorder
begin

definition less_eq_Opcode :: "Opcode \<Rightarrow> Opcode \<Rightarrow> bool" where
  "less_eq_Opcode x y \<longleftrightarrow> opcode_num x \<le> opcode_num y"

definition less_Opcode :: "Opcode \<Rightarrow> Opcode \<Rightarrow> bool" where
  "less_Opcode x y \<longleftrightarrow> opcode_num x < opcode_num y"

instance by standard (auto simp: less_eq_Opcode_def less_Opcode_def)

end

definition opcode_of :: "nat \<Rightarrow> Opcode option" where
  "opcode_of n = (if n < length opcodes then Some (opcodes ! n) else None)"

lemma opcode_of_num [simp]: "opcode_of (opcode_num x) = Some x"
  by (cases x) (simp_all add: opcode_of_def opcodes_def)

datatype Register = R0 | R1 | R2 | R3 | R4 | R5 | R6 | R7 | R8 | R9 | IP | SP | BP

fun reg_num :: "Register \<Rightarrow> nat" where
  "reg_num R0 = 0" | "reg_num R1 = 1" | "reg_num R2 = 2" | "reg_num R3 = 3" | "reg_num R4 = 4"
| "reg_num R5 = 5" | "reg_num R6 = 6" | "reg_num R7 = 7" | "reg_num R8 = 8" | "reg_num R9 = 9"
| "reg_num IP = 10" | "reg_num SP = 11" | "reg_num BP = 12"

lemma reg_num_less [simp]: "reg_num r < 13"
  by (cases r) simp_all

lemma reg_num_inject [simp]: "reg_num r = reg_num s \<longleftrightarrow> r = s"
  by (cases r; cases s) simp_all

section \<open>State\<close>

datatype vm_event =
    Putchar u8
  | Print string
  | Slept u64
  | Pin_mode u32 bool
  | Digital_write u32 u32

record vm =
  bytecode :: bytes
  stack :: "nat \<Rightarrow> u8"
  registers :: "u64 list"
  events :: "vm_event list"

type_synonym 'a vm_op = "vm \<Rightarrow> ('a \<times> vm) res"

definition stack_size :: nat where
  "stack_size = 0x1000000"

definition reg :: "Register \<Rightarrow> vm \<Rightarrow> u64" where
  "reg r m = registers m ! reg_num r"

definition put :: "Register \<Rightarrow> u64 \<Rightarrow> vm \<Rightarrow> vm" where
  "put r v m = m\<lparr>registers := (registers m)[reg_num r := v]\<rparr>"

definition emit :: "vm_event list \<Rightarrow> vm \<Rightarrow> vm" where
  "emit es m = m\<lparr>events := events m @ es\<rparr>"

text \<open>The constructors; \<open>mem\<close> is what the stack's memory holds.\<close>

definition vm_new :: "(nat \<Rightarrow> u8) \<Rightarrow> bytes \<Rightarrow> vm" where
  "vm_new mem code = put SP (of_nat stack_size) \<lparr>bytecode = code, stack = mem, registers = replicate 13 0, events = []\<rparr>"

text \<open>\<open>registers_[i]\<close> for a register number from the byte code.\<close>

definition reg_at :: "u8 \<Rightarrow> vm \<Rightarrow> u64 res" where
  "reg_at i m = (if unat i < length (registers m) then Inr (registers m ! unat i) else Inl (Undefined Out_of_bounds))"

definition put_at :: "u8 \<Rightarrow> u64 \<Rightarrow> vm \<Rightarrow> vm res" where
  "put_at i v m = (if unat i < length (registers m) then Inr (m\<lparr>registers := (registers m)[unat i := v]\<rparr>)
     else Inl (Undefined Out_of_bounds))"

text \<open>64-bit accesses to the stack.\<close>

definition load64 :: "nat \<Rightarrow> vm \<Rightarrow> u64 res" where
  "load64 a m = (if a + 8 \<le> stack_size then Inr (word_of_mem (map (stack m) [a..<a + 8]))
     else Inl (Undefined Out_of_bounds))"

definition store64 :: "nat \<Rightarrow> u64 \<Rightarrow> vm \<Rightarrow> vm res" where
  "store64 a v m = (if a + 8 \<le> stack_size
     then Inr (m\<lparr>stack := (\<lambda>i. if a \<le> i \<and> i < a + 8 then mem_of_word v ! (i - a) else stack m i)\<rparr>)
     else Inl (Undefined Out_of_bounds))"

section \<open>Extraction\<close>

definition fetch :: "u8 vm_op" where
  "fetch m = (if unat (reg IP m) < length (bytecode m)
     then Inr (bytecode m ! unat (reg IP m), put IP (reg IP m + 1) m)
     else Inl (Undefined Out_of_bounds))"

definition ExtractOpcode :: "(u8 \<times> bool \<times> bool) vm_op" where
  "ExtractOpcode m = rbind (fetch m) (\<lambda>(opc, m).
     Inr ((drop_bit 2 opc, and opc 1 \<noteq> 0, and opc 2 \<noteq> 0), m))"

definition ExtractRegister :: "u8 vm_op" where
  "ExtractRegister = fetch"

definition ExtractAddress :: "u32 vm_op" where
  "ExtractAddress m =
     rbind (fetch m) (\<lambda>(a1, m). rbind (fetch m) (\<lambda>(a2, m). rbind (fetch m) (\<lambda>(a3, m).
       Inr (or (or (ucast a1) (push_bit 8 (ucast a2))) (push_bit 16 (ucast a3)), m))))"

definition ExtractConstant :: "u64 vm_op" where
  "ExtractConstant m =
     (if unat (reg IP m) + 8 \<le> length (bytecode m)
      then Inr (word_of_mem (slice (unat (reg IP m)) 8 (bytecode m)), put IP (reg IP m + 8) m)
      else Inl (Undefined Out_of_bounds))"

section \<open>Arithmetic\<close>

definition Add :: "u64 \<Rightarrow> u64 \<Rightarrow> u64 res" where "Add v1 v2 = Inr (v1 + v2)"
definition Sub :: "u64 \<Rightarrow> u64 \<Rightarrow> u64 res" where "Sub v1 v2 = Inr (v1 - v2)"
definition Mul :: "u64 \<Rightarrow> u64 \<Rightarrow> u64 res" where "Mul v1 v2 = Inr (v1 * v2)"

text \<open>The result of signed 64-bit arithmetic, undefined outside the range.\<close>

definition int64 :: "int \<Rightarrow> u64 res" where
  "int64 i = (if - (2 ^ 63) \<le> i \<and> i < 2 ^ 63 then Inr (word_of_int i) else Inl (Undefined Signed_overflow))"

definition SMul :: "u64 \<Rightarrow> u64 \<Rightarrow> u64 res" where "SMul v1 v2 = int64 (sint v1 * sint v2)"

definition Div :: "u64 \<Rightarrow> u64 \<Rightarrow> u64 res" where
  "Div v1 v2 = (if v2 = 0 then Inl (Undefined Division_by_zero) else Inr (v1 div v2))"

definition SDiv :: "u64 \<Rightarrow> u64 \<Rightarrow> u64 res" where
  "SDiv v1 v2 = (if v2 = 0 then Inl (Undefined Division_by_zero) else int64 (sint v1 sdiv sint v2))"

definition Mod :: "u64 \<Rightarrow> u64 \<Rightarrow> u64 res" where
  "Mod v1 v2 = (if v2 = 0 then Inl (Undefined Division_by_zero) else Inr (v1 mod v2))"

text \<open>The remainder is undefined when the quotient does not fit.\<close>

definition SMod :: "u64 \<Rightarrow> u64 \<Rightarrow> u64 res" where
  "SMod v1 v2 = (if v2 = 0 then Inl (Undefined Division_by_zero)
     else rbind (int64 (sint v1 sdiv sint v2)) (\<lambda>_. Inr (word_of_int (sint v1 smod sint v2))))"

text \<open>\<open>Exp\<close> keeps the intermediate power in an \<open>int\<close>.\<close>

definition int32_mul :: "32 word \<Rightarrow> 32 word \<Rightarrow> 32 word res" where
  "int32_mul a b = (let i = sint a * sint b
     in if - (2 ^ 31) \<le> i \<and> i < 2 ^ 31 then Inr (word_of_int i) else Inl (Undefined Signed_overflow))"

function Exp :: "u64 \<Rightarrow> u64 \<Rightarrow> u64 res" where
  "Exp v1 v2 =
     (if v2 = 0 then Inr 1
      else rbind (Exp v1 (v2 div 2)) (\<lambda>r.
        let temp = ucast r :: 32 word
        in if v2 mod 2 = 0 then rmap scast (int32_mul temp temp)
           else Inr (v1 * scast temp * scast temp)))"
  by pat_completeness auto

termination
proof (relation "measure (\<lambda>(v1, v2). unat v2)")
  fix v1 v2 :: u64 assume "v2 \<noteq> 0"
  then have "0 < unat v2" by (simp add: unat_gt_0)
  then show "((v1, v2 div 2), (v1, v2)) \<in> measure (\<lambda>(v1, v2). unat v2)"
    by (simp add: unat_div_distrib)
qed simp

declare Exp.simps [simp del]

definition Neg :: "u64 \<Rightarrow> u64 res" where "Neg v1 = int64 (sint v1 * - 1)"
definition Not_vm :: "u64 \<Rightarrow> u64 res" where "Not_vm v1 = Inr (not v1)"
definition LowerThan :: "u64 \<Rightarrow> u64 \<Rightarrow> bool" where "LowerThan v1 v2 \<longleftrightarrow> v1 < v2"
definition LowerEqual :: "u64 \<Rightarrow> u64 \<Rightarrow> bool" where "LowerEqual v1 v2 \<longleftrightarrow> v1 \<le> v2"
definition GreaterThan :: "u64 \<Rightarrow> u64 \<Rightarrow> bool" where "GreaterThan v1 v2 \<longleftrightarrow> v1 > v2"
definition GreaterEqual :: "u64 \<Rightarrow> u64 \<Rightarrow> bool" where "GreaterEqual v1 v2 \<longleftrightarrow> v1 \<ge> v2"
definition Equal :: "u64 \<Rightarrow> u64 \<Rightarrow> bool" where "Equal v1 v2 \<longleftrightarrow> v1 = v2"

definition Push :: "u64 \<Rightarrow> vm \<Rightarrow> vm res" where
  "Push v1 m = (let m = put SP (reg SP m - 8) m in store64 (unat (reg SP m)) v1 m)"

definition Pop :: "u64 vm_op" where
  "Pop m = rbind (load64 (unat (reg SP m)) m) (\<lambda>v. Inr (v, put SP (reg SP m + 8) m))"


section \<open>The instructions\<close>

definition operand :: "bool \<Rightarrow> u64 vm_op" where
  "operand op m =
     (if \<not> op then rbind (ExtractRegister m) (\<lambda>(r, m). rbind (reg_at r m) (\<lambda>v. Inr (v, m)))
      else ExtractConstant m)"

definition address_operand :: "bool \<Rightarrow> u32 vm_op" where
  "address_operand op m =
     (if \<not> op then rbind (ExtractRegister m) (\<lambda>(r, m). rbind (reg_at r m) (\<lambda>v. Inr (ucast v, m)))
      else ExtractAddress m)"

text \<open>ADD to EXP: two operands, a function, a destination.\<close>

definition exec_binary :: "(u64 \<Rightarrow> u64 \<Rightarrow> u64 res) \<Rightarrow> bool \<Rightarrow> bool \<Rightarrow> vm \<Rightarrow> vm res" where
  "exec_binary f op1 op2 m =
     rbind (operand op1 m) (\<lambda>(v1, m).
     rbind (operand op2 m) (\<lambda>(v2, m).
     rbind (ExtractRegister m) (\<lambda>(r, m).
     rbind (f v1 v2) (\<lambda>v. put_at r v m))))"

definition exec_unary :: "(u64 \<Rightarrow> u64 res) \<Rightarrow> bool \<Rightarrow> vm \<Rightarrow> vm res" where
  "exec_unary f op1 m =
     rbind (operand op1 m) (\<lambda>(v1, m).
     rbind (ExtractRegister m) (\<lambda>(r, m).
     rbind (f v1) (\<lambda>v. put_at r v m)))"

text \<open>LT to EQ: two operands, a comparison, an address to go to.\<close>

definition exec_compare :: "(u64 \<Rightarrow> u64 \<Rightarrow> bool) \<Rightarrow> bool \<Rightarrow> bool \<Rightarrow> vm \<Rightarrow> vm res" where
  "exec_compare c op1 op2 m =
     rbind (operand op1 m) (\<lambda>(v1, m).
     rbind (operand op2 m) (\<lambda>(v2, m).
     rbind (ExtractAddress m) (\<lambda>(address, m).
       Inr (if c v1 v2 then put IP (ucast address) m else m))))"

definition exec_STORE :: "bool \<Rightarrow> vm \<Rightarrow> vm res" where
  "exec_STORE op2 m =
     rbind (ExtractRegister m) (\<lambda>(r, m).
     rbind (address_operand op2 m) (\<lambda>(address, m).
     rbind (reg_at r m) (\<lambda>v. store64 (unat address) v m)))"

definition exec_LOAD :: "bool \<Rightarrow> vm \<Rightarrow> vm res" where
  "exec_LOAD op2 m =
     rbind (ExtractRegister m) (\<lambda>(r, m).
     rbind (address_operand op2 m) (\<lambda>(address, m).
     rbind (load64 (unat address) m) (\<lambda>v. put_at r v m)))"

definition relative :: "bool \<Rightarrow> u32 \<Rightarrow> vm \<Rightarrow> u32" where
  "relative op2 address m = (if \<not> op2 then ucast (ucast address + (reg IP m - 1)) else address)"

definition exec_JMP :: "bool \<Rightarrow> bool \<Rightarrow> vm \<Rightarrow> vm res" where
  "exec_JMP op1 op2 m =
     rbind (address_operand op1 m) (\<lambda>(address, m).
       Inr (put IP (ucast (relative op2 address m)) m))"

definition exec_CALL :: "bool \<Rightarrow> bool \<Rightarrow> vm \<Rightarrow> vm res" where
  "exec_CALL op1 op2 m =
     rbind (address_operand op1 m) (\<lambda>(address, m).
     let address = relative op2 address m
     in rbind (ExtractConstant m) (\<lambda>(retn_size, m).
        rbind (Push retn_size m) (\<lambda>m.
        rbind (Push (reg IP m) m) (\<lambda>m.
          Inr (put IP (ucast address) m)))))"

definition exec_RET :: "vm \<Rightarrow> vm res" where
  "exec_RET m =
     rbind (Pop m) (\<lambda>(v, m).
     let address = ucast v :: u32
     in rbind (Pop m) (\<lambda>(w, m).
        let retn_size = ucast w :: u32;
            m = put SP (reg SP m + ucast retn_size) m
        in Inr (put IP (ucast address) m)))"

definition exec_PUSH :: "bool \<Rightarrow> vm \<Rightarrow> vm res" where
  "exec_PUSH op1 m = rbind (operand op1 m) (\<lambda>(v1, m). Push v1 m)"

definition exec_POP :: "vm \<Rightarrow> vm res" where
  "exec_POP m = rbind (ExtractRegister m) (\<lambda>(r, m). rbind (Pop m) (\<lambda>(v, m). put_at r v m))"

definition exec_MOV :: "bool \<Rightarrow> vm \<Rightarrow> vm res" where
  "exec_MOV op2 m =
     rbind (ExtractRegister m) (\<lambda>(r, m).
     rbind (operand op2 m) (\<lambda>(v2, m). put_at r v2 m))"

text \<open>
  System calls. \<open>rp3\<close> is the function \<open>digitalRead\<close> of the wiringPi library when the program is
  built for the Raspberry Pi. The inner loop of \<open>Stout\<close> writes \<open>n\<close> bytes of a popped value; the
  outer one runs from \<open>i\<close> to \<open>size\<close>.
\<close>

fun stout_loop :: "nat \<Rightarrow> nat \<Rightarrow> vm \<Rightarrow> vm res" where
  "stout_loop 0 i m = Inr m"
| "stout_loop (Suc remaining) i m =
     rbind (Pop m) (\<lambda>(val, m).
       let n = (if remaining = 0 then unat (reg R1 m mod 8) else 8)
       in stout_loop remaining (Suc i) (emit (map Putchar (take n (mem_of_word val))) m))"

definition stout_size :: "u64 \<Rightarrow> u32" where
  "stout_size n = ucast ((n - 1) div 8 + 1)"

definition exec_SYSCALL :: "(u32 \<Rightarrow> 32 word) option \<Rightarrow> vm \<Rightarrow> vm res" where
  "exec_SYSCALL rp3 m =
     (if reg R0 m = 0 then Inr (emit [Slept (reg R1 m)] m)
      else if reg R0 m = 1 \<and> rp3 \<noteq> None then
        Inr (emit [Pin_mode (ucast (reg R1 m)) True, Digital_write (ucast (reg R1 m)) (ucast (reg R2 m))] m)
      else if reg R0 m = 2 \<and> rp3 \<noteq> None then
        Inr (put R2 (scast (the rp3 (ucast (reg R1 m)))) (emit [Pin_mode (ucast (reg R1 m)) False] m))
      else if reg R0 m = 3 then stout_loop (unat (stout_size (reg R1 m))) 0 m
      else Inr m)"

text \<open>The text for an opcode that is none: \<open>uint8_t\<close> is printed as a character.\<close>

definition illegal :: "u8 \<Rightarrow> string" where
  "illegal opcode = ''Illegal instruction: 0x'' @ ''0'' @ [char_of (unat opcode)] @ [CHR 0x0A]"

definition exec_opcode :: "(u32 \<Rightarrow> 32 word) option \<Rightarrow> Opcode \<Rightarrow> bool \<Rightarrow> bool \<Rightarrow> vm \<Rightarrow> vm res" where
  "exec_opcode rp3 opcode op1 op2 m =
     (case opcode of
        STOP \<Rightarrow> Inr m
      | ADD \<Rightarrow> exec_binary Add op1 op2 m
      | SUB \<Rightarrow> exec_binary Sub op1 op2 m
      | MUL \<Rightarrow> exec_binary Mul op1 op2 m
      | SMUL \<Rightarrow> exec_binary SMul op1 op2 m
      | DIV \<Rightarrow> exec_binary Div op1 op2 m
      | SDIV \<Rightarrow> exec_binary SDiv op1 op2 m
      | MOD \<Rightarrow> exec_binary Mod op1 op2 m
      | SMOD \<Rightarrow> exec_binary SMod op1 op2 m
      | EXP \<Rightarrow> exec_binary Exp op1 op2 m
      | NEG \<Rightarrow> exec_unary Neg op1 m
      | LT \<Rightarrow> exec_compare LowerThan op1 op2 m
      | LE \<Rightarrow> exec_compare LowerEqual op1 op2 m
      | GT \<Rightarrow> exec_compare GreaterThan op1 op2 m
      | GE \<Rightarrow> exec_compare GreaterEqual op1 op2 m
      | EQ \<Rightarrow> exec_compare Equal op1 op2 m
      | NOT \<Rightarrow> exec_unary Not_vm op1 m
      | STORE \<Rightarrow> exec_STORE op2 m
      | LOAD \<Rightarrow> exec_LOAD op2 m
      | JMP \<Rightarrow> exec_JMP op1 op2 m
      | CALL \<Rightarrow> exec_CALL op1 op2 m
      | RET \<Rightarrow> exec_RET m
      | PUSH \<Rightarrow> exec_PUSH op1 m
      | POP \<Rightarrow> exec_POP m
      | MOV \<Rightarrow> exec_MOV op2 m
      | SYSCALL \<Rightarrow> exec_SYSCALL rp3 m)"

text \<open>One round of the loop of \<open>Execute\<close>, and the loop, with fuel.\<close>

definition vm_step :: "(u32 \<Rightarrow> 32 word) option \<Rightarrow> u8 vm_op" where
  "vm_step rp3 m =
     rbind (ExtractOpcode m) (\<lambda>((opcode, op1, op2), m).
       rmap (Pair opcode)
         (case opcode_of (unat opcode) of
            Some opc \<Rightarrow> exec_opcode rp3 opc op1 op2 m
          | None \<Rightarrow> Inr (emit [Print (illegal opcode)] m)))"

fun Execute :: "(u32 \<Rightarrow> 32 word) option \<Rightarrow> nat \<Rightarrow> vm \<Rightarrow> vm res" where
  "Execute rp3 0 m = Inl Diverges"
| "Execute rp3 (Suc fuel) m =
     rbind (vm_step rp3 m) (\<lambda>(opcode, m). if opcode \<noteq> 0 then Execute rp3 fuel m else Inr m)"

section \<open>Printing\<close>

definition register_names :: "(string \<times> Register) list" where
  "register_names = [(''R0'', R0), (''R1'', R1), (''R2'', R2), (''R3'', R3), (''R4'', R4), (''R5'', R5),
     (''R6'', R6), (''R7'', R7), (''R8'', R8), (''R9'', R9), (''IP'', IP), (''SP'', SP), (''BP'', BP)]"

definition PrintRegisters :: "vm \<Rightarrow> string" where
  "PrintRegisters m = concat (map (\<lambda>(name, r). name @ '': 0x'' @ hex_width 16 (unat (reg r m)) @ [CHR 0x0A]) register_names)"

text \<open>
  \<open>hex_dump\<close> reads \<open>bufsize\<close> bytes downwards from \<open>buf\<close>; \<open>mem\<close> is the memory it may read.
  \<open>render\<close> is the text collected for the current line.
\<close>

definition printable :: "u8 \<Rightarrow> char" where
  "printable b = (if 0x20 \<le> b \<and> b \<le> 0x7E then char_of (unat b) else CHR ''.'')"

fun hex_dump_loop :: "(int \<Rightarrow> u8 option) \<Rightarrow> bool \<Rightarrow> nat \<Rightarrow> int \<Rightarrow> nat \<Rightarrow> string \<Rightarrow> string \<Rightarrow> (string \<times> string) res" where
  "hex_dump_loop mem show_chars 0 buf linecount render os = Inr (os, render)"
| "hex_dump_loop mem show_chars (Suc bufsize) buf linecount render os =
     (case mem buf of
        None \<Rightarrow> Inl (Undefined Out_of_bounds)
      | Some b \<Rightarrow>
          (let os = os @ hex_width 2 (unat b) @ '' '';
               render = render @ [printable b]
           in if linecount - 1 = 0
              then hex_dump_loop mem show_chars bufsize (buf - 1) (min 16 (Suc bufsize)) []
                     (os @ (if show_chars then '' | '' @ render else []) @ [CHR 0x0A])
              else hex_dump_loop mem show_chars bufsize (buf - 1) (linecount - 1) render os))"

definition hex_dump :: "(int \<Rightarrow> u8 option) \<Rightarrow> int \<Rightarrow> nat \<Rightarrow> bool \<Rightarrow> string res" where
  "hex_dump mem buf bufsize show_chars =
     rbind (hex_dump_loop mem show_chars bufsize buf 16 [] []) (\<lambda>(os, render).
       Inr (if render \<noteq> []
            then os @ (if show_chars then concat (replicate (16 - length render) ''   '') @ '' | '' @ render else [])
                   @ [CHR 0x0A]
            else os))"

definition PrintStack :: "vm \<Rightarrow> string res" where
  "PrintStack m = rmap (\<lambda>s. s @ [CHR 0x0A])
     (hex_dump (\<lambda>a. if 0 \<le> a \<and> a < int stack_size then Some (stack m (nat a)) else None) (int stack_size) 1024 True)"

end
