(* ===== verification/VMCode.thy ===== *)
theory VMCode
  imports VM "HOL-Library.Sublist"
begin

text \<open>
  What the byte code of the virtual machine means: an assembler for its instructions
  (\<open>encode\<close>), their meaning without reference to bytes (\<open>perform\<close>), and the proofs that the
  machine of \<open>VM\<close> decodes the one into the other and runs assembled programs as their
  instructions say.
\<close>

section \<open>Registers and memory\<close>

definition wf_vm :: "vm \<Rightarrow> bool" where
  "wf_vm m \<longleftrightarrow> length (registers m) = 13"

lemma wf_vm_new [simp]: "wf_vm (vm_new mem code)"
  by (simp add: wf_vm_def vm_new_def put_def)

lemma put_simps [simp]:
  "bytecode (put r v m) = bytecode m" "stack (put r v m) = stack m" "events (put r v m) = events m"
  "wf_vm (put r v m) = wf_vm m"
  by (simp_all add: put_def wf_vm_def)

lemma reg_put [simp]: "wf_vm m \<Longrightarrow> reg r (put s v m) = (if r = s then v else reg r m)"
  by (simp add: reg_def put_def wf_vm_def)

lemma put_put [simp]: "put r v (put r w m) = put r v m"
  by (simp add: put_def)

lemma put_reg: "put r (reg r m) m = m"
  by (simp add: put_def reg_def)

lemma reg_num_mod [simp]: "reg_num r mod 256 = reg_num r"
  by (rule mod_less) (use reg_num_less [of r] in linarith)

lemma unat_reg_num [simp]: "unat (of_nat (reg_num r) :: u8) = reg_num r"
  by (cases r) simp_all

lemma reg_at_num [simp]: "wf_vm m \<Longrightarrow> reg_at (of_nat (reg_num r)) m = Inr (reg r m)"
  by (simp add: reg_at_def wf_vm_def reg_def)

lemma put_at_num [simp]: "wf_vm m \<Longrightarrow> put_at (of_nat (reg_num r)) v m = Inr (put r v m)"
  by (simp add: put_at_def wf_vm_def put_def)

lemma store64_simps:
  "a + 8 \<le> stack_size \<Longrightarrow> \<exists>m'. store64 a v m = Inr m' \<and> registers m' = registers m \<and> bytecode m' = bytecode m
     \<and> events m' = events m \<and> (\<forall>i. i < a \<or> a + 8 \<le> i \<longrightarrow> stack m' i = stack m i) \<and> load64 a m' = Inr v"
proof -
  assume a: "a + 8 \<le> stack_size"
  have "map (\<lambda>i. if a \<le> i \<and> i < a + 8 then mem_of_word v ! (i - a) else stack m i) [a..<a + 8] = mem_of_word v"
    by (intro nth_equalityI) simp_all
  with a show ?thesis by (auto simp: store64_def load64_def)
qed

section \<open>What a step leaves alone\<close>

definition confined :: "vm \<Rightarrow> vm \<Rightarrow> bool" where
  "confined m m' \<longleftrightarrow> length (registers m') = length (registers m) \<and> bytecode m' = bytecode m
     \<and> (\<forall>a \<ge> stack_size. stack m' a = stack m a) \<and> prefix (events m) (events m')"

lemma confined_refl [simp]: "confined m m"
  by (simp add: confined_def)

lemma confined_trans [trans]: "confined m m1 \<Longrightarrow> confined m1 m2 \<Longrightarrow> confined m m2"
  by (auto simp: confined_def intro: prefix_order.trans)

lemma confined_put [simp]: "confined m (put r v m1) \<longleftrightarrow> confined m m1" "confined (put r v m) m1 \<longleftrightarrow> confined m m1"
  by (simp_all add: confined_def put_def)

lemma confined_emit: "confined m m1 \<Longrightarrow> confined m (emit es m1)"
  by (auto simp: confined_def emit_def prefix_def)

lemmas confined_intros = confined_trans confined_emit

lemma confined_put_at: "put_at i v m = Inr m' \<Longrightarrow> confined m m'"
  by (auto simp: put_at_def confined_def split: if_splits)

lemma confined_store64: "store64 a v m = Inr m' \<Longrightarrow> confined m m'"
  by (auto simp: store64_def confined_def split: if_splits)

lemma confined_fetch: "fetch m = Inr (b, m') \<Longrightarrow> confined m m'"
  by (auto simp: fetch_def split: if_splits)

lemma confined_constant: "ExtractConstant m = Inr (c, m') \<Longrightarrow> confined m m'"
  by (auto simp: ExtractConstant_def split: if_splits)

lemma confined_register: "ExtractRegister m = Inr (b, m') \<Longrightarrow> confined m m'"
  unfolding ExtractRegister_def by (rule confined_fetch)

lemma confined_address: "ExtractAddress m = Inr (a, m') \<Longrightarrow> confined m m'"
  by (auto simp: ExtractAddress_def rbind_eq_Inr dest!: confined_fetch intro: confined_trans)

lemma confined_pop: "Pop m = Inr (v, m') \<Longrightarrow> confined m m'"
  by (auto simp: Pop_def rbind_eq_Inr)

lemma confined_push: "Push v m = Inr m' \<Longrightarrow> confined m m'"
  unfolding Push_def Let_def using confined_store64 by fastforce

lemma confined_operand: "operand op m = Inr (v, m') \<Longrightarrow> confined m m'"
  by (auto simp: operand_def rbind_eq_Inr split: if_splits dest: confined_register confined_constant)

lemma confined_address_operand: "address_operand op m = Inr (v, m') \<Longrightarrow> confined m m'"
  by (auto simp: address_operand_def rbind_eq_Inr split: if_splits dest: confined_register confined_address)

lemma confined_stout: "stout_loop k i m = Inr m' \<Longrightarrow> confined m m'"
proof (induction k arbitrary: i m)
  case (Suc k)
  then obtain val m1 where p: "Pop m = Inr (val, m1)"
    "stout_loop k (Suc i) (emit (map Putchar (take (if k = 0 then unat (reg R1 m1 mod 8) else 8) (mem_of_word val))) m1) = Inr m'"
    by (auto simp: rbind_eq_Inr Let_def)
  have "confined m1 (emit (map Putchar (take (if k = 0 then unat (reg R1 m1 mod 8) else 8) (mem_of_word val))) m1)"
    by (rule confined_emit) simp
  from confined_trans [OF confined_trans [OF confined_pop [OF p(1)] this] Suc.IH [OF p(2)]] show ?case .
qed simp

lemmas exec_defs = exec_binary_def exec_unary_def exec_compare_def exec_STORE_def exec_LOAD_def exec_JMP_def
  exec_CALL_def exec_RET_def exec_PUSH_def exec_POP_def exec_MOV_def

text \<open>The results of an instruction reach states that \<open>m\<close> confines; rules for its steps.\<close>

definition keeps :: "vm \<Rightarrow> vm res \<Rightarrow> bool" where
  "keeps m r \<longleftrightarrow> (\<forall>m'. r = Inr m' \<longrightarrow> confined m m')"

lemma keeps_result: "keeps m (Inr m1) \<longleftrightarrow> confined m m1"
  by (simp add: keeps_def)

lemma keeps_pair:
  "(\<And>v m1. x = Inr (v, m1) \<Longrightarrow> confined m2 m1) \<Longrightarrow> confined m m2 \<Longrightarrow> (\<And>v m1. confined m m1 \<Longrightarrow> keeps m (f (v, m1)))
     \<Longrightarrow> keeps m (rbind x f)"
  unfolding keeps_def rbind_eq_Inr by (metis confined_trans surj_pair)

lemma keeps_value: "(\<And>v :: u64. keeps m (h v)) \<Longrightarrow> keeps m (rbind z h)"
  by (auto simp: keeps_def rbind_eq_Inr)

lemma keeps_bind: "keeps m y \<Longrightarrow> (\<And>m1. confined m m1 \<Longrightarrow> keeps m (g m1)) \<Longrightarrow> keeps m (rbind y g)"
  by (auto simp: keeps_def rbind_eq_Inr)

lemma keeps_last:
  "confined m m1 \<Longrightarrow> keeps m (put_at i v m1)" "confined m m1 \<Longrightarrow> keeps m (store64 a v m1)"
  "confined m m1 \<Longrightarrow> keeps m (Push v m1)"
  unfolding keeps_def by (blast intro: confined_trans confined_put_at confined_store64 confined_push)+

lemma keeps_first:
  "confined m m2 \<Longrightarrow> (\<And>v m1. confined m m1 \<Longrightarrow> keeps m (f (v, m1))) \<Longrightarrow> keeps m (rbind (operand op m2) f)"
  "confined m m2 \<Longrightarrow> (\<And>v m1. confined m m1 \<Longrightarrow> keeps m (g (v, m1))) \<Longrightarrow> keeps m (rbind (address_operand op m2) g)"
  "confined m m2 \<Longrightarrow> (\<And>v m1. confined m m1 \<Longrightarrow> keeps m (h (v, m1))) \<Longrightarrow> keeps m (rbind (ExtractRegister m2) h)"
  "confined m m2 \<Longrightarrow> (\<And>v m1. confined m m1 \<Longrightarrow> keeps m (f (v, m1))) \<Longrightarrow> keeps m (rbind (ExtractConstant m2) f)"
  "confined m m2 \<Longrightarrow> (\<And>v m1. confined m m1 \<Longrightarrow> keeps m (g (v, m1))) \<Longrightarrow> keeps m (rbind (ExtractAddress m2) g)"
  "confined m m2 \<Longrightarrow> (\<And>v m1. confined m m1 \<Longrightarrow> keeps m (f (v, m1))) \<Longrightarrow> keeps m (rbind (Pop m2) f)"
  by (rule keeps_pair, erule confined_operand confined_address_operand confined_register confined_constant
      confined_address confined_pop, assumption, blast)+

lemmas keeps_rules = keeps_first keeps_bind keeps_value keeps_last

lemma keeps_exec:
  "keeps m (exec_binary f op1 op2 m)" "keeps m (exec_unary g op1 m)" "keeps m (exec_compare c op1 op2 m)"
  "keeps m (exec_STORE op2 m)" "keeps m (exec_LOAD op2 m)" "keeps m (exec_JMP op1 op2 m)"
  "keeps m (exec_CALL op1 op2 m)" "keeps m (exec_RET m)" "keeps m (exec_PUSH op1 m)" "keeps m (exec_POP m)"
  "keeps m (exec_MOV op2 m)"
  unfolding exec_defs Let_def by (auto intro!: keeps_rules simp: keeps_result)

lemma confined_syscall: "exec_SYSCALL rp3 m = Inr m' \<Longrightarrow> confined m m'"
  by (auto simp: exec_SYSCALL_def split: if_splits dest: confined_stout intro!: confined_emit)

lemma confined_exec_opcode: "exec_opcode rp3 opc op1 op2 m = Inr m' \<Longrightarrow> confined m m'"
  using keeps_exec by (cases opc) (force simp: exec_opcode_def keeps_def confined_syscall)+

lemma confined_step: "vm_step rp3 m = Inr (opc, m') \<Longrightarrow> confined m m'"
  by (auto simp: vm_step_def ExtractOpcode_def rbind_eq_Inr rmap_def split: option.splits
      dest!: confined_fetch confined_exec_opcode intro: confined_intros)

lemma confined_execute: "Execute rp3 fuel m = Inr m' \<Longrightarrow> confined m m'"
proof (induction fuel arbitrary: m)
  case (Suc fuel)
  then show ?case
    by (auto simp: rbind_eq_Inr split: if_splits dest!: confined_step intro: confined_trans)
qed simp


section \<open>An assembler and the meaning of instructions\<close>

datatype opr = Reg Register | Const u64
datatype adr = Adr_reg Register | Adr u32

datatype instr =
    I_stop
  | I_binary Opcode opr opr Register
  | I_unary Opcode opr Register
  | I_compare Opcode opr opr u32
  | I_store Register adr
  | I_load Register adr
  | I_jmp adr bool
  | I_call adr bool u64
  | I_ret
  | I_push opr
  | I_pop Register
  | I_mov Register opr
  | I_syscall

definition reg_byte :: "Register \<Rightarrow> u8" where
  "reg_byte r = of_nat (reg_num r)"

fun enc_opr :: "opr \<Rightarrow> bytes" where
  "enc_opr (Reg r) = [reg_byte r]"
| "enc_opr (Const c) = mem_of_word c"

fun enc_adr :: "adr \<Rightarrow> bytes" where
  "enc_adr (Adr_reg r) = [reg_byte r]"
| "enc_adr (Adr a) = le_bytes 3 (unat a)"

fun is_const :: "opr \<Rightarrow> bool" where
  "is_const (Reg r) \<longleftrightarrow> False" | "is_const (Const c) \<longleftrightarrow> True"

fun is_adr :: "adr \<Rightarrow> bool" where
  "is_adr (Adr_reg r) \<longleftrightarrow> False" | "is_adr (Adr a) \<longleftrightarrow> True"

definition op_byte :: "Opcode \<Rightarrow> bool \<Rightarrow> bool \<Rightarrow> u8" where
  "op_byte opc op1 op2 = of_nat (4 * opcode_num opc + (if op1 then 1 else 0) + (if op2 then 2 else 0))"

fun encode :: "instr \<Rightarrow> bytes" where
  "encode I_stop = [op_byte STOP False False]"
| "encode (I_binary opc a b r) = op_byte opc (is_const a) (is_const b) # enc_opr a @ enc_opr b @ [reg_byte r]"
| "encode (I_unary opc a r) = op_byte opc (is_const a) False # enc_opr a @ [reg_byte r]"
| "encode (I_compare opc a b t) = op_byte opc (is_const a) (is_const b) # enc_opr a @ enc_opr b @ enc_adr (Adr t)"
| "encode (I_store r a) = op_byte STORE False (is_adr a) # reg_byte r # enc_adr a"
| "encode (I_load r a) = op_byte LOAD False (is_adr a) # reg_byte r # enc_adr a"
| "encode (I_jmp a absolute) = op_byte JMP (is_adr a) absolute # enc_adr a"
| "encode (I_call a absolute n) = op_byte CALL (is_adr a) absolute # enc_adr a @ mem_of_word n"
| "encode I_ret = [op_byte RET False False]"
| "encode (I_push a) = op_byte PUSH (is_const a) False # enc_opr a"
| "encode (I_pop r) = [op_byte POP False False, reg_byte r]"
| "encode (I_mov r a) = op_byte MOV False (is_const a) # reg_byte r # enc_opr a"
| "encode I_syscall = [op_byte SYSCALL False False]"

fun binary_fun :: "Opcode \<Rightarrow> u64 \<Rightarrow> u64 \<Rightarrow> u64 res" where
  "binary_fun ADD = Add" | "binary_fun SUB = Sub" | "binary_fun MUL = Mul" | "binary_fun SMUL = SMul"
| "binary_fun DIV = Div" | "binary_fun SDIV = SDiv" | "binary_fun MOD = Mod" | "binary_fun SMOD = SMod"
| "binary_fun EXP = Exp" | "binary_fun _ = (\<lambda>_ _. Inl (Undefined Out_of_bounds))"

fun unary_fun :: "Opcode \<Rightarrow> u64 \<Rightarrow> u64 res" where
  "unary_fun NEG = Neg" | "unary_fun NOT = Not_vm" | "unary_fun _ = (\<lambda>_. Inl (Undefined Out_of_bounds))"

fun compare_fun :: "Opcode \<Rightarrow> u64 \<Rightarrow> u64 \<Rightarrow> bool" where
  "compare_fun LT = LowerThan" | "compare_fun LE = LowerEqual" | "compare_fun GT = GreaterThan"
| "compare_fun GE = GreaterEqual" | "compare_fun EQ = Equal" | "compare_fun _ = (\<lambda>_ _. False)"

text \<open>
  What the assembler can say: the operators of each form, addresses of 24 bits, and no operand
  that reads the instruction pointer, whose value there depends on where in the instruction it
  stands.
\<close>

fun wf_opr :: "opr \<Rightarrow> bool" where
  "wf_opr (Reg r) \<longleftrightarrow> r \<noteq> IP" | "wf_opr (Const c) \<longleftrightarrow> True"

fun wf_adr :: "adr \<Rightarrow> bool" where
  "wf_adr (Adr_reg r) \<longleftrightarrow> r \<noteq> IP" | "wf_adr (Adr a) \<longleftrightarrow> unat a < 2 ^ 24"

fun wf_instr :: "instr \<Rightarrow> bool" where
  "wf_instr (I_binary opc a b r) \<longleftrightarrow> ADD \<le> opc \<and> opc \<le> EXP \<and> wf_opr a \<and> wf_opr b"
| "wf_instr (I_unary opc a r) \<longleftrightarrow> opc \<in> {NEG, NOT} \<and> wf_opr a"
| "wf_instr (I_compare opc a b t) \<longleftrightarrow> LT \<le> opc \<and> opc \<le> EQ \<and> wf_opr a \<and> wf_opr b \<and> wf_adr (Adr t)"
| "wf_instr (I_store r a) \<longleftrightarrow> wf_adr a"
| "wf_instr (I_load r a) \<longleftrightarrow> wf_adr a"
| "wf_instr (I_jmp a absolute) \<longleftrightarrow> wf_adr a"
| "wf_instr (I_call a absolute n) \<longleftrightarrow> wf_adr a"
| "wf_instr (I_push a) \<longleftrightarrow> wf_opr a"
| "wf_instr (I_mov r a) \<longleftrightarrow> wf_opr a"
| "wf_instr _ \<longleftrightarrow> True"

fun val :: "opr \<Rightarrow> vm \<Rightarrow> u64" where
  "val (Reg r) m = reg r m" | "val (Const c) m = c"

fun adr_val :: "adr \<Rightarrow> vm \<Rightarrow> u32" where
  "adr_val (Adr_reg r) m = ucast (reg r m)" | "adr_val (Adr a) m = a"

text \<open>
  The meaning of an instruction in a state whose instruction pointer is already behind it.
  \<open>back\<close> in a relative address is the distance from there to the point it counts from.
\<close>

definition target :: "adr \<Rightarrow> bool \<Rightarrow> u64 \<Rightarrow> vm \<Rightarrow> u64" where
  "target a absolute back m =
     (if absolute then ucast (adr_val a m) else ucast (ucast (ucast (adr_val a m) + (reg IP m - back - 1)) :: u32))"

fun perform :: "(u32 \<Rightarrow> 32 word) option \<Rightarrow> instr \<Rightarrow> vm \<Rightarrow> vm res" where
  "perform rp3 I_stop m = Inr m"
| "perform rp3 (I_binary opc a b r) m = rmap (\<lambda>v. put r v m) (binary_fun opc (val a m) (val b m))"
| "perform rp3 (I_unary opc a r) m = rmap (\<lambda>v. put r v m) (unary_fun opc (val a m))"
| "perform rp3 (I_compare opc a b t) m = Inr (if compare_fun opc (val a m) (val b m) then put IP (ucast t) m else m)"
| "perform rp3 (I_store r a) m = store64 (unat (adr_val a m)) (reg r m) m"
| "perform rp3 (I_load r a) m = rmap (\<lambda>v. put r v m) (load64 (unat (adr_val a m)) m)"
| "perform rp3 (I_jmp a absolute) m = Inr (put IP (target a absolute 0 m) m)"
| "perform rp3 (I_call a absolute n) m =
     rbind (Push n m) (\<lambda>m1. rbind (Push (reg IP m1) m1) (\<lambda>m2. Inr (put IP (target a absolute 8 m) m2)))"
| "perform rp3 I_ret m = exec_RET m"
| "perform rp3 (I_push a) m = Push (val a m) m"
| "perform rp3 (I_pop r) m = rbind (Pop m) (\<lambda>(v, m). Inr (put r v m))"
| "perform rp3 (I_mov r a) m = Inr (put r (val a m) m)"
| "perform rp3 I_syscall m = exec_SYSCALL rp3 m"

fun instr_opcode :: "instr \<Rightarrow> Opcode" where
  "instr_opcode I_stop = STOP" | "instr_opcode (I_binary opc a b r) = opc" | "instr_opcode (I_unary opc a r) = opc"
| "instr_opcode (I_compare opc a b t) = opc" | "instr_opcode (I_store r a) = STORE" | "instr_opcode (I_load r a) = LOAD"
| "instr_opcode (I_jmp a absolute) = JMP" | "instr_opcode (I_call a absolute n) = CALL" | "instr_opcode I_ret = RET"
| "instr_opcode (I_push a) = PUSH" | "instr_opcode (I_pop r) = POP" | "instr_opcode (I_mov r a) = MOV"
| "instr_opcode I_syscall = SYSCALL"

section \<open>Decoding\<close>

text \<open>The code from offset \<open>k\<close> starts with \<open>bs\<close>.\<close>

definition code_at :: "nat \<Rightarrow> bytes \<Rightarrow> vm \<Rightarrow> bool" where
  "code_at k bs m \<longleftrightarrow> k + length bs \<le> length (bytecode m) \<and> slice k (length bs) (bytecode m) = bs
     \<and> length (bytecode m) < 2 ^ 63"

lemma code_at_append:
  "code_at k (xs @ ys) m \<longleftrightarrow> code_at k xs m \<and> code_at (k + length xs) ys m"
proof -
  have "take (length xs + length ys) (drop k bs) = xs @ ys \<longleftrightarrow>
      take (length xs) (drop k bs) = xs \<and> take (length ys) (drop (k + length xs) bs) = ys"
    if "k + (length xs + length ys) \<le> length bs" for bs
    using that by (auto simp: take_add add.commute append_eq_append_conv)
  then show ?thesis by (auto simp: code_at_def slice_def add.assoc)
qed

lemma code_at_Cons: "code_at k (x # ys) m \<longleftrightarrow> code_at k [x] m \<and> code_at (Suc k) ys m"
  using code_at_append [of k "[x]" ys m] by simp

lemma code_at_Cons_Cons: "code_at k (x # y # ys) m \<longleftrightarrow> code_at k [x] m \<and> code_at (Suc k) (y # ys) m"
  by (rule code_at_Cons)

lemma code_at_put [simp]: "code_at k bs (put r v m) = code_at k bs m"
  by (simp add: code_at_def)

lemma ip_of_nat: "wf_vm m \<Longrightarrow> k < 2 ^ 63 \<Longrightarrow> unat (reg IP (put IP (of_nat k) m)) = k"
  by (simp add: unat_of_nat)

lemma fetch_at:
  assumes "code_at k [b] m" "wf_vm m"
  shows "fetch (put IP (of_nat k) m) = Inr (b, put IP (of_nat (Suc k)) m)"
proof -
  have k: "k < length (bytecode m)" "bytecode m ! k = b" "k < 2 ^ 63"
    using assms(1) by (auto simp: code_at_def slice_def take_Suc_conv_app_nth)
  with ip_of_nat [OF assms(2) k(3)] assms(2) show ?thesis by (simp add: fetch_def add.commute)
qed

lemma register_at:
  "code_at k [reg_byte r] m \<Longrightarrow> wf_vm m \<Longrightarrow>
   ExtractRegister (put IP (of_nat k) m) = Inr (of_nat (reg_num r), put IP (of_nat (Suc k)) m)"
  using fetch_at [of k "reg_byte r" m] by (simp add: ExtractRegister_def reg_byte_def)

lemma constant_at:
  assumes "code_at k (mem_of_word (c :: u64)) m" "wf_vm m"
  shows "ExtractConstant (put IP (of_nat k) m) = Inr (c, put IP (of_nat (k + 8)) m)"
proof -
  have k: "k + 8 \<le> length (bytecode m)" "slice k 8 (bytecode m) = mem_of_word c" "k < 2 ^ 63"
    using assms(1) by (auto simp: code_at_def)
  with ip_of_nat [OF assms(2) k(3)] assms(2) show ?thesis by (simp add: ExtractConstant_def add.commute)
qed

lemma ucast_byte: "(of_nat (unat (a :: u32) div 2 ^ n mod 256) :: u8) = ucast (drop_bit n a)"
proof -
  have "unat (of_nat (unat a div 2 ^ n mod 256) :: u8) = unat (ucast (drop_bit n a) :: u8)"
    using unsigned_less [of a, where ?'a = nat]
    by (simp add: unsigned_of_nat unsigned_ucast_eq unsigned_drop_bit_eq take_bit_eq_mod drop_bit_eq_div [where 'a = nat])
  then show ?thesis by simp
qed

lemma address_bytes:
  assumes "unat (a :: u32) < 2 ^ 24"
  shows "or (or (ucast (of_nat (unat a mod 256) :: u8)) (push_bit 8 (ucast (of_nat (unat a div 256 mod 256) :: u8))))
     (push_bit 16 (ucast (of_nat (unat a div 256 div 256 mod 256) :: u8))) = a"
proof -
  have b: "(of_nat (unat a mod 256) :: u8) = ucast a" "(of_nat (unat a div 256 mod 256) :: u8) = ucast (drop_bit 8 a)"
    "(of_nat (unat a div 256 div 256 mod 256) :: u8) = ucast (drop_bit 16 a)"
    using ucast_byte [of a 0] ucast_byte [of a 8] ucast_byte [of a 16] by (simp_all add: div_mult2_eq [symmetric])
  have top: "\<not> bit a n" if "n \<ge> 24" for n
  proof -
    have "(2 :: nat) ^ 24 \<le> 2 ^ n" using that by (intro power_increasing) auto
    with assms have "unat a div 2 ^ n = 0" by (intro div_less) simp
    then have "\<not> bit (unat a) n" by (simp add: bit_iff_odd)
    then show ?thesis by (metis bit_imp_le_length bit_unsigned_iff possible_bit_nat)
  qed
  show ?thesis unfolding b
  proof (rule bit_word_eqI)
    fix n assume n: "n < LENGTH(32)"
    show "bit (or (or (ucast (ucast a :: u8)) (push_bit 8 (ucast (ucast (drop_bit 8 a) :: u8))))
       (push_bit 16 (ucast (ucast (drop_bit 16 a) :: u8))) :: u32) n = bit a n"
      using n top [of n] by (cases "n < 8"; cases "n < 16"; cases "n < 24") (auto simp: bit_simps)
  qed
qed

lemma address_at:
  assumes "code_at k (enc_adr (Adr a)) m" "wf_adr (Adr a)" "wf_vm m"
  shows "ExtractAddress (put IP (of_nat k) m) = Inr (a, put IP (of_nat (k + 3)) m)"
proof -
  have b: "code_at k [of_nat (unat a mod 256)] m" "code_at (Suc k) [of_nat (unat a div 256 mod 256)] m"
    "code_at (Suc (Suc k)) [of_nat (unat a div 256 div 256 mod 256)] m"
    using assms(1) by (simp_all add: numeral_3_eq_3 code_at_Cons_Cons)
  have a: "unat a < 2 ^ 24" using assms(2) by simp
  have k: "k + 3 = Suc (Suc (Suc k))" by simp
  show ?thesis
    unfolding ExtractAddress_def k fetch_at [OF b(1) assms(3)] rbind_Inr prod.case fetch_at [OF b(2) assms(3)]
      fetch_at [OF b(3) assms(3)] address_bytes [OF a] ..
qed

lemma operand_at:
  assumes "code_at k (enc_opr a) m" "wf_opr a" "wf_vm m"
  shows "operand (is_const a) (put IP (of_nat k) m) = Inr (val a m, put IP (of_nat (k + length (enc_opr a))) m)"
  using assms by (cases a) (auto simp: operand_def register_at constant_at)

lemma address_operand_at:
  assumes "code_at k (enc_adr a) m" "wf_adr a" "wf_vm m"
  shows "address_operand (is_adr a) (put IP (of_nat k) m)
    = Inr (adr_val a m, put IP (of_nat (k + length (enc_adr a))) m)"
proof (cases a)
  case (Adr x)
  then show ?thesis using address_at [of k x m] assms by (simp add: address_operand_def del: enc_adr.simps) (simp add: numeral_3_eq_3)
qed (use assms in \<open>simp add: address_operand_def register_at\<close>)

lemma op_byte_fields:
  "drop_bit 2 (op_byte opc op1 op2) = of_nat (opcode_num opc)"
  "(and (op_byte opc op1 op2) 1 \<noteq> 0) = op1" "(and (op_byte opc op1 op2) 2 \<noteq> 0) = op2"
  by (cases opc; cases op1; cases op2; simp add: op_byte_def)+

lemma op_byte_inject [simp]: "op_byte opc op1 op2 = op_byte opc op1' op2' \<longleftrightarrow> op1 = op1' \<and> op2 = op2'"
  using op_byte_fields(2,3) [of opc op1 op2] op_byte_fields(2,3) [of opc op1' op2'] by auto

lemma opcode_at:
  assumes "code_at k [op_byte opc op1 op2] m" "wf_vm m"
  shows "ExtractOpcode (put IP (of_nat k) m) = Inr ((of_nat (opcode_num opc), op1, op2), put IP (of_nat (Suc k)) m)"
  using fetch_at [OF assms] by (simp add: ExtractOpcode_def op_byte_fields)

lemma opcode_num_mod [simp]: "opcode_num opc mod 256 = opcode_num opc"
  by (cases opc) simp_all

lemma step_at:
  assumes "code_at k [op_byte opc op1 op2] m" "wf_vm m"
  shows "vm_step rp3 (put IP (of_nat k) m)
    = rmap (Pair (of_nat (opcode_num opc))) (exec_opcode rp3 opc op1 op2 (put IP (of_nat (Suc k)) m))"
  using opcode_at [OF assms] by (simp add: vm_step_def)

section \<open>A step performs the encoded instruction\<close>

text \<open>What follows the opcode byte is decoded to the operands and carried out.\<close>

lemma code_tail:
  assumes "code_at k (b # bs) m"
  shows "code_at k [b] m" "code_at (Suc k) bs m"
  using assms code_at_append [of k "[b]" bs m] by simp_all

lemma step_cases:
  assumes "code_at k (op_byte opc op1 op2 # bs) m" "wf_vm m"
    and "code_at (Suc k) bs m \<Longrightarrow> exec_opcode rp3 opc op1 op2 (put IP (of_nat (Suc k)) m) = r"
  shows "vm_step rp3 (put IP (of_nat k) m) = rmap (Pair (of_nat (opcode_num opc))) r"
  using step_at [OF code_tail(1) [OF assms(1)] assms(2)] assms(3) [OF code_tail(2) [OF assms(1)]] by simp

lemma binary_at:
  assumes "code_at k (enc_opr a @ enc_opr b @ [reg_byte r]) m" "wf_opr a" "wf_opr b" "wf_vm m"
  shows "exec_binary f (is_const a) (is_const b) (put IP (of_nat k) m)
    = rmap (\<lambda>v. put r v (put IP (of_nat (k + length (enc_opr a @ enc_opr b @ [reg_byte r]))) m)) (f (val a m) (val b m))"
proof -
  have c: "code_at k (enc_opr a) m" "code_at (k + length (enc_opr a)) (enc_opr b) m"
    "code_at (k + length (enc_opr a) + length (enc_opr b)) [reg_byte r] m"
    using assms(1) by (simp_all only: code_at_append)
  show ?thesis
    unfolding exec_binary_def operand_at [OF c(1) assms(2,4)] rbind_Inr prod.case operand_at [OF c(2) assms(3,4)]
      register_at [OF c(3) assms(4)]
    using assms(4) by (simp add: rmap_def ac_simps del: of_nat_Suc of_nat_add)
qed

lemma unary_at:
  assumes "code_at k (enc_opr a @ [reg_byte r]) m" "wf_opr a" "wf_vm m"
  shows "exec_unary f (is_const a) (put IP (of_nat k) m)
    = rmap (\<lambda>v. put r v (put IP (of_nat (k + length (enc_opr a @ [reg_byte r]))) m)) (f (val a m))"
proof -
  have c: "code_at k (enc_opr a) m" "code_at (k + length (enc_opr a)) [reg_byte r] m"
    using assms(1) by (simp_all only: code_at_append)
  show ?thesis
    unfolding exec_unary_def operand_at [OF c(1) assms(2,3)] rbind_Inr prod.case register_at [OF c(2) assms(3)]
    using assms(3) by (simp add: rmap_def del: of_nat_Suc of_nat_add)
qed

lemma compare_at:
  assumes "code_at k (enc_opr a @ enc_opr b @ enc_adr (Adr t)) m" "wf_opr a" "wf_opr b" "wf_adr (Adr t)" "wf_vm m"
  shows "exec_compare c (is_const a) (is_const b) (put IP (of_nat k) m)
    = Inr (if c (val a m) (val b m) then put IP (ucast t) m
           else put IP (of_nat (k + length (enc_opr a @ enc_opr b @ enc_adr (Adr t)))) m)"
proof -
  have c: "code_at k (enc_opr a) m" "code_at (k + length (enc_opr a)) (enc_opr b) m"
    "code_at (k + length (enc_opr a) + length (enc_opr b)) (enc_adr (Adr t)) m"
    using assms(1) by (simp_all only: code_at_append)
  show ?thesis
    unfolding exec_compare_def operand_at [OF c(1) assms(2,5)] rbind_Inr prod.case operand_at [OF c(2) assms(3,5)]
      address_at [OF c(3) assms(4,5)]
    using assms(5) by (simp add: ac_simps numeral_3_eq_3 del: of_nat_Suc of_nat_add)
qed

lemma register_then_address_at:
  assumes "code_at k (reg_byte r # enc_adr a) m" "wf_adr a" "wf_vm m"
  shows "ExtractRegister (put IP (of_nat k) m) = Inr (of_nat (reg_num r), put IP (of_nat (Suc k)) m)"
    "address_operand (is_adr a) (put IP (of_nat (Suc k)) m)
       = Inr (adr_val a m, put IP (of_nat (k + length (reg_byte r # enc_adr a))) m)"
  using register_at [OF code_tail(1) [OF assms(1)] assms(3)]
    address_operand_at [OF code_tail(2) [OF assms(1)] assms(2,3)] by simp_all

lemma store_at:
  assumes "code_at k (reg_byte r # enc_adr a) m" "wf_adr a" "wf_vm m"
  shows "exec_STORE (is_adr a) (put IP (of_nat k) m)
    = (let m = put IP (of_nat (k + length (reg_byte r # enc_adr a))) m
       in store64 (unat (adr_val a m)) (reg r m) m)"
proof -
  have a: "adr_val a (put IP w m) = adr_val a m" for w using assms(2,3) by (cases a) simp_all
  show ?thesis
    unfolding exec_STORE_def register_then_address_at [OF assms] rbind_Inr prod.case
    using assms(3) a by (simp add: Let_def del: of_nat_Suc of_nat_add)
qed

lemma load_at:
  assumes "code_at k (reg_byte r # enc_adr a) m" "wf_adr a" "wf_vm m"
  shows "exec_LOAD (is_adr a) (put IP (of_nat k) m)
    = (let m = put IP (of_nat (k + length (reg_byte r # enc_adr a))) m
       in rmap (\<lambda>v. put r v m) (load64 (unat (adr_val a m)) m))"
proof -
  have a: "adr_val a (put IP w m) = adr_val a m" for w using assms(2,3) by (cases a) simp_all
  show ?thesis
    unfolding exec_LOAD_def register_then_address_at [OF assms] rbind_Inr prod.case
    using assms(3) a by (simp add: Let_def rmap_def del: of_nat_Suc of_nat_add)
qed

lemma jmp_at:
  assumes "code_at k (enc_adr a) m" "wf_adr a" "wf_vm m"
  shows "exec_JMP (is_adr a) absolute (put IP (of_nat k) m)
    = (let m = put IP (of_nat (k + length (enc_adr a))) m in Inr (put IP (target a absolute 0 m) m))"
proof -
  have a: "adr_val a (put IP w m) = adr_val a m" for w using assms(2,3) by (cases a) simp_all
  show ?thesis
    unfolding exec_JMP_def address_operand_at [OF assms] rbind_Inr prod.case
    using assms(3) a by (simp add: Let_def relative_def target_def del: of_nat_Suc of_nat_add)
qed

lemma call_at:
  assumes "code_at k (enc_adr a @ mem_of_word n) m" "wf_adr a" "wf_vm m"
  shows "exec_CALL (is_adr a) absolute (put IP (of_nat k) m)
    = (let m = put IP (of_nat (k + length (enc_adr a @ mem_of_word n))) m
       in rbind (Push n m) (\<lambda>m1. rbind (Push (reg IP m1) m1) (\<lambda>m2. Inr (put IP (target a absolute 8 m) m2))))"
proof -
  have c: "code_at k (enc_adr a) m" "code_at (k + length (enc_adr a)) (mem_of_word n) m"
    using assms(1) by (simp_all only: code_at_append)
  have a: "adr_val a (put IP w m) = adr_val a m" for w using assms(2,3) by (cases a) simp_all
  show ?thesis
    unfolding exec_CALL_def address_operand_at [OF c(1) assms(2,3)] rbind_Inr prod.case Let_def
      constant_at [OF c(2) assms(3)]
    using assms(3) a by (simp add: relative_def target_def ac_simps del: of_nat_Suc)
qed

lemma push_at:
  assumes "code_at k (enc_opr a) m" "wf_opr a" "wf_vm m"
  shows "exec_PUSH (is_const a) (put IP (of_nat k) m) = Push (val a m) (put IP (of_nat (k + length (enc_opr a))) m)"
  unfolding exec_PUSH_def operand_at [OF assms] by simp

lemma pop_at:
  assumes "code_at k [reg_byte r] m" "wf_vm m"
  shows "exec_POP (put IP (of_nat k) m) = rbind (Pop (put IP (of_nat (Suc k)) m)) (\<lambda>(v, m). Inr (put r v m))"
proof -
  have "wf_vm m'" if "Pop (put IP w m) = Inr (v, m')" for v m' w
    using that assms(2) by (auto simp: Pop_def rbind_eq_Inr)
  then show ?thesis
    unfolding exec_POP_def register_at [OF assms] rbind_Inr prod.case
    by (intro rbind_cong) (auto split: prod.splits)
qed

lemma mov_at:
  assumes "code_at k (reg_byte r # enc_opr a) m" "wf_opr a" "wf_vm m"
  shows "exec_MOV (is_const a) (put IP (of_nat k) m)
    = Inr (put r (val a m) (put IP (of_nat (k + length (reg_byte r # enc_opr a))) m))"
  unfolding exec_MOV_def register_at [OF code_tail(1) [OF assms(1)] assms(3)] rbind_Inr prod.case
    operand_at [OF code_tail(2) [OF assms(1)] assms(2,3)]
  using assms(3) by (simp del: of_nat_Suc of_nat_add)

lemma exec_binary_fun:
  "ADD \<le> opc \<Longrightarrow> opc \<le> EXP \<Longrightarrow> exec_opcode rp3 opc op1 op2 m = exec_binary (binary_fun opc) op1 op2 m"
  by (cases opc) (simp_all add: exec_opcode_def less_eq_Opcode_def)

lemma exec_compare_fun:
  "LT \<le> opc \<Longrightarrow> opc \<le> EQ \<Longrightarrow> exec_opcode rp3 opc op1 op2 m = exec_compare (compare_fun opc) op1 op2 m"
  by (cases opc) (simp_all add: exec_opcode_def less_eq_Opcode_def)

lemma exec_unary_fun:
  "opc \<in> {NEG, NOT} \<Longrightarrow> exec_opcode rp3 opc op1 op2 m = exec_unary (unary_fun opc) op1 m"
  by (cases opc) (simp_all add: exec_opcode_def)

lemma val_put_IP [simp]: "wf_opr a \<Longrightarrow> wf_vm m \<Longrightarrow> val a (put IP w m) = val a m"
  by (cases a) auto

lemma step_encoded:
  assumes "wf_vm m" "wf_instr i" "code_at k (encode i) m"
  shows "vm_step rp3 (put IP (of_nat k) m) = rmap (Pair (of_nat (opcode_num (instr_opcode i))))
    (perform rp3 i (put IP (of_nat (k + length (encode i))) m))"
proof -
  have ex: "exec_opcode rp3 (instr_opcode i) op1 op2 (put IP (of_nat (Suc k)) m)
      = perform rp3 i (put IP (of_nat (k + length (encode i))) m)"
    if "encode i = op_byte (instr_opcode i) op1 op2 # bs" "code_at (Suc k) bs m" for op1 op2 bs
  proof (cases i)
    case I_stop
    with assms(1,2) that show ?thesis by (simp add: exec_opcode_def Let_def)
  next
    case (I_binary opc x y r)
    with assms(1,2) that binary_at [of "Suc k" x y r m "binary_fun opc"] show ?thesis
      by (simp add: exec_binary_fun)
  next
    case (I_unary opc x r)
    with assms(1,2) that unary_at [of "Suc k" x r m "unary_fun opc"] show ?thesis
      by (simp add: exec_unary_fun)
  next
    case (I_compare opc x y t)
    with assms(1,2) that compare_at [of "Suc k" x y t m "compare_fun opc"] show ?thesis
      by (simp add: exec_compare_fun)
  next
    case (I_store r a)
    with assms(1,2) that store_at [of "Suc k" r a m] show ?thesis by (simp add: exec_opcode_def Let_def)
  next
    case (I_load r a)
    with assms(1,2) that load_at [of "Suc k" r a m] show ?thesis by (simp add: exec_opcode_def Let_def)
  next
    case (I_jmp a absolute)
    with assms(1,2) that jmp_at [of "Suc k" a m absolute] show ?thesis by (simp add: exec_opcode_def Let_def)
  next
    case (I_call a absolute n)
    with assms(1,2) that call_at [of "Suc k" a n m absolute] show ?thesis by (simp add: exec_opcode_def Let_def)
  next
    case I_ret
    with assms(1,2) that show ?thesis by (simp add: exec_opcode_def Let_def)
  next
    case (I_push x)
    with assms(1,2) that push_at [of "Suc k" x m] show ?thesis by (simp add: exec_opcode_def Let_def)
  next
    case (I_pop r)
    with assms(1,2) that pop_at [of "Suc k" r m] show ?thesis by (auto simp: exec_opcode_def)
  next
    case (I_mov r x)
    with assms(1,2) that mov_at [of "Suc k" r x m] show ?thesis by (simp add: exec_opcode_def Let_def)
  next
    case I_syscall
    with assms(1,2) that show ?thesis by (simp add: exec_opcode_def Let_def)
  qed
  obtain op1 op2 bs where e: "encode i = op_byte (instr_opcode i) op1 op2 # bs" by (cases i) auto
  from assms(3) have c: "code_at k (op_byte (instr_opcode i) op1 op2 # bs) m" by (simp add: e)
  show ?thesis by (rule step_cases [OF c assms(1) ex [OF e]])
qed

end
