(* ===== verification/VMRun.thy ===== *)
theory VMRun
  imports VMCode
begin

text \<open>
  Properties of the virtual machine: it stays inside its memory, it runs assembled programs as
  their instructions say, and what calls, exponentiation and printing do.
\<close>

section \<open>Safety\<close>



lemma vm_new_simps [simp]:
  "bytecode (vm_new mem code) = code" "stack (vm_new mem code) = mem" "events (vm_new mem code) = []"
  by (simp_all add: vm_new_def)

lemma put_events: "put r v (m\<lparr>events := es\<rparr>) = (put r v m)\<lparr>events := es\<rparr>"
  by (simp add: put_def)

section \<open>Assembled programs\<close>

text \<open>The instruction that starts at an offset of the assembled code.\<close>

definition assemble :: "instr list \<Rightarrow> bytes" where
  "assemble is = concat (map encode is)"

fun instr_at :: "instr list \<Rightarrow> nat \<Rightarrow> instr option" where
  "instr_at [] k = None"
| "instr_at (i # is) k =
     (if k = 0 then Some i else if k < length (encode i) then None else instr_at is (k - length (encode i)))"

text \<open>
  Running a program instruction by instruction, without decoding. Nothing is said when the
  instruction pointer is not at the start of an instruction.
\<close>

fun run :: "(u32 \<Rightarrow> 32 word) option \<Rightarrow> instr list \<Rightarrow> nat \<Rightarrow> vm \<Rightarrow> vm res option" where
  "run rp3 prog 0 m = Some (Inl Diverges)"
| "run rp3 prog (Suc fuel) m =
     (case instr_at prog (unat (reg IP m)) of
        None \<Rightarrow> None
      | Some i \<Rightarrow>
          (case perform rp3 i (put IP (reg IP m + of_nat (length (encode i))) m) of
             Inl e \<Rightarrow> Some (Inl e)
           | Inr m' \<Rightarrow> if i = I_stop then Some (Inr m') else run rp3 prog fuel m'))"

lemma instr_at_code:
  "instr_at prog k = Some i \<Longrightarrow>
   i \<in> set prog \<and> k + length (encode i) \<le> length (assemble prog) \<and> slice k (length (encode i)) (assemble prog) = encode i"
proof (induction prog k rule: instr_at.induct)
  case (2 j "is" k)
  show ?case
  proof (cases "k = 0")
    case True
    with 2(2) show ?thesis by (simp add: assemble_def slice_def)
  next
    case False
    with 2 show ?thesis by (auto simp: assemble_def slice_def split: if_splits)
  qed
qed simp

lemma keeps_rmap: "(\<And>v :: u64. confined m (f v)) \<Longrightarrow> keeps m (rmap f z)"
  by (auto simp: keeps_def rmap_def rbind_eq_Inr)

lemma keeps_perform: "keeps m (perform rp3 i m)"
proof (cases i)
  case (I_call a absolute n)
  show ?thesis unfolding I_call perform.simps by (auto intro!: keeps_rules simp: keeps_result)
next
  case (I_pop r)
  show ?thesis unfolding I_pop perform.simps by (auto intro!: keeps_rules simp: keeps_result)
next
  case I_syscall
  then show ?thesis by (simp add: keeps_def confined_syscall)
qed (auto simp: keeps_result keeps_exec keeps_last intro: keeps_rmap)

lemma perform_state:
  assumes "perform rp3 i m = Inr m'" "wf_vm m"
  shows "wf_vm m'" "bytecode m' = bytecode m"
  using keeps_perform [of m rp3 i] assms by (auto simp: keeps_def confined_def wf_vm_def)

lemma stop_opcode: "wf_instr i \<Longrightarrow> (of_nat (opcode_num (instr_opcode i)) :: u8) = 0 \<longleftrightarrow> i = I_stop"
proof -
  have z: "(of_nat (opcode_num opc) :: u8) = 0 \<longleftrightarrow> opc = STOP" for opc by (cases opc) simp_all
  show "wf_instr i \<Longrightarrow> ?thesis" unfolding z by (cases i) (auto simp: less_eq_Opcode_def)
qed

lemma put_IP_reg: "wf_vm m \<Longrightarrow> put IP (of_nat (unat (reg IP m))) m = m"
  by (simp add: put_reg)

text \<open>
  C33: the machine runs an assembled program as its instructions say: whenever the execution
  instruction by instruction has a result (a final state, undefined behaviour, or that the fuel is
  used up), then the decoding loop of \<open>Execute\<close> on the assembled bytes has the same result,
  with the same fuel. The operands may be registers or constants, addresses relative or absolute.
\<close>

theorem execute_runs_program:
  assumes "list_all wf_instr prog" "wf_vm m" "bytecode m = assemble prog" "length (assemble prog) < 2 ^ 63"
    and "run rp3 prog fuel m = Some r"
  shows "Execute rp3 fuel m = r"
  using assms(2,3,5)
proof (induction fuel arbitrary: m)
  case (Suc fuel)
  define k where "k = unat (reg IP m)"
  from Suc.prems(3) obtain i where i: "instr_at prog k = Some i" by (auto simp: k_def split: option.splits)
  note c = instr_at_code [OF i]
  have m: "put IP (of_nat k) m = m" using put_IP_reg [OF Suc.prems(1)] by (simp add: k_def)
  have "code_at k (encode i) m" using c Suc.prems(2) assms(4) by (simp add: code_at_def)
  moreover have w: "wf_instr i" using c assms(1) by (auto simp: list_all_iff)
  ultimately have s: "vm_step rp3 m = rmap (Pair (of_nat (opcode_num (instr_opcode i))))
      (perform rp3 i (put IP (reg IP m + of_nat (length (encode i))) m))"
    using step_encoded [of m i k rp3] Suc.prems(1) m by (simp add: k_def)
  show ?case
  proof (cases "perform rp3 i (put IP (reg IP m + of_nat (length (encode i))) m)")
    case (Inl e)
    with Suc.prems(3) i s show ?thesis by (simp add: k_def rmap_def)
  next
    case (Inr m')
    with perform_state [OF Inr] Suc.prems Suc.IH [of m'] i s stop_opcode [OF w] show ?thesis
      by (auto simp: k_def rmap_def split: if_splits)
  qed
qed simp

definition countdown :: "instr list" where
  "countdown = [I_mov R0 (Const 2), I_binary SUB (Reg R0) (Const 1) R0, I_compare GT (Reg R0) (Const 0) 10, I_stop]"

lemma countdown_steps:
  assumes "wf_vm m"
  shows "reg IP m = 0 \<Longrightarrow> run None countdown (Suc f) m = run None countdown f (put R0 2 (put IP 10 m))"
    "reg IP m = 10 \<Longrightarrow> run None countdown (Suc f) m = run None countdown f (put R0 (reg R0 m - 1) (put IP 21 m))"
    "reg IP m = 21 \<Longrightarrow> run None countdown (Suc f) m = run None countdown f (put IP (if reg R0 m > 0 then 10 else 34) m)"
    "reg IP m = 34 \<Longrightarrow> run None countdown (Suc f) m = Some (Inr (put IP 35 m))"
  using assms by (simp_all add: countdown_def Sub_def GreaterThan_def rmap_def)

theorem execute_runs_program_witness:
  "\<exists>m. Execute None 6 (vm_new (\<lambda>_. 0) (assemble countdown)) = Inr m \<and> reg R0 m = 0 \<and> reg IP m = 35"
proof -
  let ?m = "vm_new (\<lambda>_. 0) (assemble countdown)"
  have ip: "reg IP ?m = 0" by (simp add: vm_new_def reg_def put_def)
  have "run None countdown (Suc (Suc (Suc (Suc (Suc (Suc 0)))))) ?m
      = Some (Inr (put IP 35 (put IP 34 (put R0 0 (put IP 21 (put IP 10 (put R0 1 (put IP 21 (put R0 2 (put IP 10 ?m))))))))))"
    by (simp add: countdown_steps ip del: run.simps)
  then have m: "run None countdown 6 ?m
      = Some (Inr (put IP 35 (put IP 34 (put R0 0 (put IP 21 (put IP 10 (put R0 1 (put IP 21 (put R0 2 (put IP 10 ?m))))))))))"
    by (simp add: eval_nat_numeral)
  have "Execute None 6 ?m = Inr (put IP 35 (put IP 34 (put R0 0 (put IP 21 (put IP 10 (put R0 1 (put IP 21 (put R0 2 (put IP 10 ?m)))))))))"
    by (rule execute_runs_program [OF _ _ _ _ m])
      (simp_all add: countdown_def less_eq_Opcode_def assemble_def)
  then show ?thesis by simp
qed

section \<open>Exponentiation\<close>

definition fits_int :: "int \<Rightarrow> bool" where
  "fits_int i \<longleftrightarrow> - (2 ^ 31) \<le> i \<and> i < 2 ^ 31"

lemma word_power_int: "(v :: u64) ^ n = word_of_int (sint v ^ n)"
  by (simp add: of_int_power [symmetric])

lemma sint_temp: "fits_int (sint v ^ n) \<Longrightarrow> sint (ucast ((v :: u64) ^ n) :: 32 word) = sint v ^ n"
proof -
  have "(word_of_int (take_bit 64 i) :: 32 word) = word_of_int i" for i
    by transfer (simp add: take_bit_take_bit)
  then have "(ucast (v ^ n) :: 32 word) = word_of_int (sint v ^ n)"
    unfolding word_power_int by (simp add: unsigned_of_int del: of_int_power)
  then show "fits_int (sint v ^ n) \<Longrightarrow> ?thesis"
    by (simp add: fits_int_def signed_of_int signed_take_bit_int_eq_self del: of_int_power)
qed

lemma scast_fits: "fits_int i \<Longrightarrow> (scast (word_of_int i :: 32 word) :: u64) = word_of_int i"
  by (simp add: fits_int_def signed_of_int signed_take_bit_int_eq_self)

lemma fits_power_half:
  assumes "fits_int (s ^ n)"
  shows "fits_int (s ^ (n div 2)) \<and> (even n \<longrightarrow> s ^ n < 2 ^ 31)"
proof (cases "n = 0 \<or> \<bar>s\<bar> \<le> 1")
  case True
  then have "\<bar>s ^ (n div 2)\<bar> \<le> 1" by (auto simp: power_abs intro: power_le_one)
  with assms show ?thesis by (auto simp: fits_int_def)
next
  case False
  then have "\<bar>s\<bar> ^ Suc (n div 2) \<le> \<bar>s\<bar> ^ n" by (intro power_increasing) auto
  then have "2 * \<bar>s ^ (n div 2)\<bar> \<le> \<bar>s ^ n\<bar>"
    using False mult_right_mono [of 2 "\<bar>s\<bar>" "\<bar>s\<bar> ^ (n div 2)"] by (auto simp: power_abs)
  with assms show ?thesis unfolding fits_int_def by linarith
qed

text \<open>
  C35: what \<open>Exp\<close> computes. The recursion keeps the power to half the exponent in an \<open>int\<close>. As
  long as that power (of the signed base) fits, the result is the power modulo \<open>2 ^ 64\<close>, with one exception: for an
  even exponent the square is taken in \<open>int\<close> arithmetic, and a power of \<open>2 ^ 31\<close> or more is
  a signed overflow.
\<close>

theorem exp_power:
  assumes "fits_int (sint v1 ^ (unat v2 div 2))"
  shows "Exp v1 v2 = (if even (unat v2) \<and> 2 ^ 31 \<le> sint v1 ^ unat v2 then Inl (Undefined Signed_overflow)
    else Inr (v1 ^ unat v2))"
  using assms
proof (induction v1 v2 rule: Exp.induct)
  case (1 v1 v2)
  let ?s = "sint v1" and ?n = "unat v2"
  let ?h = "?n div 2"
  have h: "unat (v2 div 2) = ?h" by (simp add: unat_div_distrib)
  show ?case
  proof (cases "v2 = 0")
    case True
    then show ?thesis by (subst Exp.simps) simp
  next
    case False
    note f = fits_power_half [OF 1(2)]
    have e: "Exp v1 (v2 div 2) = Inr (v1 ^ ?h)"
      using 1(1) [OF False] f by (auto simp: h)
    have t: "sint (ucast (v1 ^ ?h) :: 32 word) = ?s ^ ?h" by (rule sint_temp [OF 1(2)])
    then have sc: "(scast (ucast (v1 ^ ?h) :: 32 word) :: u64) = v1 ^ ?h"
      by (metis word_power_int scast_eq)
    have par: "v2 mod 2 = 0 \<longleftrightarrow> even ?n" 
      by (simp add: word_unat_eq_iff unat_mod_distrib even_iff_mod_2_eq_zero)
    show ?thesis
    proof (cases "even ?n")
      case True
      then have n: "?n = ?h + ?h" by auto
      have i: "?s ^ ?h * ?s ^ ?h = ?s ^ ?n" by (subst (3) n) (simp add: power_add)
      moreover have "0 \<le> ?s ^ ?h * ?s ^ ?h" by simp
      ultimately have "int32_mul (ucast (v1 ^ ?h)) (ucast (v1 ^ ?h))
          = (if 2 ^ 31 \<le> ?s ^ ?n then Inl (Undefined Signed_overflow) else Inr (word_of_int (?s ^ ?n)))"
        by (simp add: int32_mul_def t)
      moreover have "fits_int (?s ^ ?n)" if "\<not> 2 ^ 31 \<le> ?s ^ ?n"
        using that i \<open>0 \<le> ?s ^ ?h * ?s ^ ?h\<close> by (simp add: fits_int_def)
      ultimately show ?thesis
        using True False par 
        by (subst Exp.simps) (simp add: e rmap_def scast_fits word_power_int [symmetric] del: of_int_power)
    next
      case odd: False
      then have n: "?n = Suc (?h + ?h)" by (metis even_two_times_div_two mult_2 odd_two_times_div_two_succ Suc_eq_plus1)
      have "v1 ^ ?n = v1 * v1 ^ ?h * v1 ^ ?h" by (subst n) (simp add: power_add)
      with odd show ?thesis using False par by (subst Exp.simps) (simp add: e sc)
    qed
  qed
qed

theorem exp_power_witness:
  "Exp 3 5 = Inr 243 \<and> Exp 65536 2 = Inl (Undefined Signed_overflow)"
  using exp_power [of 3 5] exp_power [of 65536 2] by (simp add: fits_int_def)

section \<open>Calls\<close>

lemma fetch_state: "fetch m = Inr (b, m') \<Longrightarrow> m' = put IP (reg IP m + 1) m"
  by (auto simp: fetch_def split: if_splits)

lemma address_operand_state:
  assumes "address_operand op m = Inr (a, m')" "wf_vm m"
  shows "m' = put IP (reg IP m + (if op then 3 else 1)) m"
  using assms
  by (auto simp: address_operand_def ExtractRegister_def ExtractAddress_def rbind_eq_Inr add.commute
      dest!: fetch_state split: if_splits)

lemma store64_Inr:
  assumes "store64 a v m = Inr m'"
  shows "a + 8 \<le> stack_size" "registers m' = registers m" "bytecode m' = bytecode m" "load64 a m' = Inr v"
    "i < a \<or> a + 8 \<le> i \<Longrightarrow> stack m' i = stack m i"
proof -
  from assms show "a + 8 \<le> stack_size" by (simp add: store64_def split: if_splits)
  from store64_simps [OF this, of v m] assms
  show "registers m' = registers m" "bytecode m' = bytecode m" "load64 a m' = Inr v"
    "i < a \<or> a + 8 \<le> i \<Longrightarrow> stack m' i = stack m i" by auto
qed

lemma load64_cong: "(\<And>i. a \<le> i \<Longrightarrow> i < a + 8 \<Longrightarrow> stack m i = stack m' i) \<Longrightarrow> load64 a m = load64 a m'"
  by (auto simp: load64_def intro!: arg_cong [of _ _ word_of_mem])

lemma Push_Inr:
  assumes "Push v m = Inr m'" "wf_vm m"
  shows "unat (reg SP m - 8) + 8 \<le> stack_size" "wf_vm m'" "reg r m' = (if r = SP then reg SP m - 8 else reg r m)"
    "load64 (unat (reg SP m - 8)) m' = Inr v"
    "i < unat (reg SP m - 8) \<or> unat (reg SP m - 8) + 8 \<le> i \<Longrightarrow> stack m' i = stack m i"
proof -
  note s = store64_Inr [OF assms(1) [unfolded Push_def Let_def]]
  show "unat (reg SP m - 8) + 8 \<le> stack_size" "load64 (unat (reg SP m - 8)) m' = Inr v"
    "i < unat (reg SP m - 8) \<or> unat (reg SP m - 8) + 8 \<le> i \<Longrightarrow> stack m' i = stack m i"
    using s(1,4,5) assms(2) by simp_all
  show "wf_vm m'" using s(2) assms(2) by (simp add: wf_vm_def put_def)
  have "reg r m' = reg r (put SP (reg SP m - 8) m)" using s(2) by (simp add: reg_def)
  with assms(2) show "reg r m' = (if r = SP then reg SP m - 8 else reg r m)" by simp
qed

lemma Push_total: "wf_vm m \<Longrightarrow> unat (reg SP m - 8) + 8 \<le> stack_size \<Longrightarrow> \<exists>m'. Push v m = Inr m'"
  by (simp add: Push_def store64_def Let_def)

lemma unat_plus_8: "unat (w :: u64) + 8 \<le> stack_size \<Longrightarrow> unat (w + 8) = unat w + 8"
  by (simp add: unat_word_ariths stack_size_def)

text \<open>
  C36: a call returns. If \<open>CALL\<close> is carried out and the called code comes to a \<open>RET\<close> with the
  stack pointer and the sixteen bytes above it as \<open>CALL\<close> left them, then \<open>RET\<close> goes back to
  the byte behind the \<open>CALL\<close> (as far as 32 bits hold it), the caller's stack pointer is restored, with the
  arguments removed that \<open>CALL\<close> announced, and nothing else changes.
\<close>

theorem call_returns:
  assumes "wf_vm m" "exec_CALL op1 op2 m = Inr m1"
    and "wf_vm m2" "reg SP m2 = reg SP m1"
    and "\<And>a. unat (reg SP m1) \<le> a \<Longrightarrow> a < unat (reg SP m1) + 16 \<Longrightarrow> stack m2 a = stack m1 a"
  shows "exec_RET m2 =
    (let back = reg IP m + (if op1 then 11 else 9);
         args = word_of_mem (slice (unat (reg IP m + (if op1 then 3 else 1))) 8 (bytecode m)) :: u64
     in Inr (put IP (ucast (ucast back :: u32)) (put SP (reg SP m + ucast (ucast args :: u32)) m2)))"
proof -
  let ?n = "word_of_mem (slice (unat (reg IP m + (if op1 then 3 else 1))) 8 (bytecode m)) :: u64"
  let ?ma = "put IP (reg IP m + (if op1 then 11 else 9)) m"
  from assms(2) obtain a m0 c mc p q where step:
    "address_operand op1 m = Inr (a, m0)" "ExtractConstant m0 = Inr (c, mc)"
    "Push c mc = Inr p" "Push (reg IP p) p = Inr q" "m1 = put IP (ucast (relative op2 a m0)) q"
    by (auto simp: exec_CALL_def Let_def rbind_eq_Inr)
  note m0 = address_operand_state [OF step(1) assms(1)]
  from step(2) assms(1) have c: "c = ?n" "mc = ?ma"
    by (auto simp: ExtractConstant_def m0 add.commute split: if_splits)
  have wma: "wf_vm ?ma" using assms(1) by simp
  note p = Push_Inr [OF step(3) [unfolded c] wma]
  note q = Push_Inr [OF step(4) p(2)]
  let ?sp = "reg SP m - 16"
  have sp: "reg SP p - 8 = ?sp" "reg SP mc - 8 = ?sp + 8" using p(3) [of SP] assms(1) by (simp_all add: c)
  have bound: "unat ?sp + 8 \<le> stack_size" using q(1) sp by simp
  note up = unat_plus_8 [OF this]
  have sp1: "reg SP m1 = ?sp" using q(2) q(3) [of SP] sp(1) by (simp add: step(5))
  have st: "stack m2 i = stack q i" if "unat ?sp \<le> i" "i < unat ?sp + 16" for i
  proof -
    have "stack m1 = stack q" by (simp add: step(5))
    with assms(5) [of i] that show ?thesis unfolding sp1 by simp
  qed
  have "load64 (unat ?sp) m2 = load64 (unat ?sp) q" by (rule load64_cong) (use st in simp)
  then have ret: "load64 (unat ?sp) m2 = Inr (reg IP ?ma)" using q(4) p(3) [of IP] sp(1) by (simp add: c)
  have "load64 (unat ?sp + 8) m2 = load64 (unat ?sp + 8) p"
    by (rule load64_cong) (use st q(5) sp(1) in simp)
  then have args: "load64 (unat ?sp + 8) m2 = Inr ?n" using p(4) sp(2) up by (simp add: c)
  have load: "load64 a (put r w m2) = load64 a m2" for a r w by (simp add: load64_def)
  have pop1: "Pop m2 = Inr (reg IP ?ma, put SP (?sp + 8) m2)"
    using ret sp1 assms(4) by (simp add: Pop_def)
  have pop2: "Pop (put SP (?sp + 8) m2) = Inr (?n, put SP (reg SP m) m2)"
    using args up assms(3) by (simp add: Pop_def load)
  show ?thesis
    unfolding exec_RET_def pop1 rbind_Inr prod.case Let_def pop2 using assms(1,3) by simp
qed

theorem call_returns_witness:
  "\<exists>m1. exec_CALL True True (vm_new (\<lambda>_. 0) ([0, 0, 0] @ mem_of_word (8 :: u64))) = Inr m1
     \<and> exec_RET m1 = Inr (put IP 11 (put SP 0x1000008 m1))"
proof -
  define code where "code = [0, 0, 0] @ mem_of_word (8 :: u64)"
  define m where "m = vm_new (\<lambda>_. 0) code"
  have r: "reg IP m = 0" "reg SP m = 0x1000000" "wf_vm m" "bytecode m = code"
    by (simp_all add: m_def) (simp_all add: vm_new_def reg_def put_def stack_size_def)
  have m: "put IP (of_nat 0) m = m" using put_reg [of IP m] r(1) by simp
  have c: "code = enc_adr (Adr 0) @ mem_of_word (8 :: u64)" by (simp add: code_def numeral_3_eq_3)
  have "code_at 0 code m" by (simp add: code_at_def r slice_def code_def)
  from call_at [OF this [unfolded c] _ r(3), of True] m
  have call: "exec_CALL True True m = rbind (Push 8 (put IP 11 m)) (\<lambda>m1. rbind (Push (reg IP m1) m1)
      (\<lambda>m2. Inr (put IP (target (Adr 0) True 8 (put IP 11 m)) m2)))"
    by (simp add: Let_def)
  obtain p where p: "Push 8 (put IP 11 m) = Inr p" using Push_total [of "put IP 11 m" 8] by (auto simp: r stack_size_def)
  have "reg SP p = 0xFFFFF8" "wf_vm p" using Push_Inr(2,3) [OF p] by (simp_all add: r)
  then obtain q where "Push (reg IP p) p = Inr q" using Push_total [of p "reg IP p"] by (auto simp: stack_size_def)
  with call p obtain m1 where m1: "exec_CALL True True m = Inr m1" by auto
  then have "wf_vm m1"
    using keeps_exec(7) [of m True True] r(3) by (auto simp: keeps_def confined_def wf_vm_def)
  moreover have "slice 3 8 code = mem_of_word (8 :: u64)" by (simp add: slice_def code_def)
  ultimately show ?thesis
    using call_returns [OF r(3) m1, of m1] m1 unfolding r by (auto simp: Let_def m_def code_def)
qed

section \<open>Printing\<close>

lemma emit_simps [simp]:
  "reg r (emit es m) = reg r m" "stack (emit es m) = stack m" "wf_vm (emit es m) = wf_vm m"
  "put r v (emit es m) = emit es (put r v m)" "emit xs (emit es m) = emit (es @ xs) m" "emit [] m = m"
  by (simp_all add: emit_def reg_def wf_vm_def put_def)

lemma stout_loop_prints:
  assumes "wf_vm m" "unat (reg SP m) + 8 * k \<le> stack_size"
  shows "stout_loop k i m = Inr (put SP (reg SP m + 8 * of_nat k) (emit (map (Putchar \<circ> stack m)
    [unat (reg SP m)..<unat (reg SP m) + (if k = 0 then 0 else 8 * (k - 1) + unat (reg R1 m mod 8))]) m))"
  using assms
proof (induction k arbitrary: i m)
  case (Suc k)
  let ?sp = "unat (reg SP m)" and ?r = "unat (reg R1 m mod 8)"
  let ?m1 = "put SP (reg SP m + 8) m"
  let ?n = "if k = 0 then ?r else 8"
  let ?m2 = "emit (map (Putchar \<circ> stack m) [?sp..<?sp + ?n]) ?m1"
  have sp: "unat (reg SP m + 8) = ?sp + 8" using Suc.prems by (intro unat_plus_8) simp
  have pop: "Pop m = Inr (word_of_mem (map (stack m) [?sp..<?sp + 8]), ?m1)"
    using Suc.prems by (simp add: Pop_def load64_def)
  have "unat (reg R1 m mod 8) < 8" by (simp add: unat_mod_distrib)
  moreover have "mem_of_word (word_of_mem (map (stack m) [?sp..<?sp + 8]) :: u64) = map (stack m) [?sp..<?sp + 8]"
    by (simp add: mem_of_word_of_mem64)
  ultimately have "stout_loop (Suc k) i m = stout_loop k (Suc i) ?m2"
    using Suc.prems by (simp add: pop Let_def comp_def take_map)
  also have "\<dots> = Inr (put SP (reg SP m + 8 * of_nat (Suc k)) (emit (map (Putchar \<circ> stack m) [?sp..<?sp + (8 * k + ?r)]) m))"
  proof (cases k)
    case 0
    then show ?thesis by (simp add: comp_def)
  next
    case (Suc l)
    have "[?sp..<?sp + 8] @ [?sp + 8..<?sp + 8 + (8 * l + ?r)] = [?sp..<?sp + (8 * k + ?r)]"
      using upt_add_eq_append [of ?sp "?sp + 8" "8 * l + ?r"] by (simp add: Suc ac_simps)
    then have "map (Putchar \<circ> stack m) [?sp..<?sp + 8] @ map (Putchar \<circ> stack m) [?sp + 8..<?sp + 8 + (8 * l + ?r)]
        = map (Putchar \<circ> stack m) [?sp..<?sp + (8 * k + ?r)]"
      by (metis map_append)
    with Suc.IH [of ?m2 "Suc i"] Suc.prems sp show ?thesis
      by (simp add: \<open>k = Suc l\<close> ac_simps comp_def del: stout_loop.simps)
  qed
  finally show ?case by (simp add: comp_def del: stout_loop.simps)
qed (simp add: put_reg)

lemma words_needed:
  assumes "0 < (n :: nat)"
  shows "(n + 7) div 8 = (n - 1) div 8 + 1"
    "8 * ((n - 1) div 8) + n mod 8 = (if 8 dvd n then n - 8 else n)"
proof -
  obtain q r where n: "n = 8 * q + r" "r < 8"
    by (metis div_mult_mod_eq mod_less_divisor mult.commute zero_less_numeral)
  have "(n + 7) div 8 = (n - 1) div 8 + 1 \<and> 8 * ((n - 1) div 8) + n mod 8 = (if 8 dvd n then n - 8 else n)"
  proof (cases "r = 0")
    case True
    with n assms obtain p where "q = Suc p" by (cases q) auto
    with True n show ?thesis by auto
  next
    case False
    then have "n - 1 = 8 * q + (r - 1)" "n + 7 = 8 * Suc q + (r - 1)" using n by auto
    moreover have "\<not> 8 dvd n" using n False by (simp add: dvd_add_right_iff nat_dvd_not_less)
    ultimately show ?thesis using n by auto
  qed
  then show "(n + 7) div 8 = (n - 1) div 8 + 1" "8 * ((n - 1) div 8) + n mod 8 = (if 8 dvd n then n - 8 else n)" by simp_all
qed

text \<open>
  The system call for text output pops the words that hold the \<open>n\<close> bytes announced in \<open>R1\<close>
  and prints the bytes from the top of the stack, in order: all of them, except that the last eight are
  missing when \<open>n\<close> is a multiple of eight, because the loop takes \<open>n % 8\<close> bytes of the last word.
\<close>

theorem stout_prints:
  assumes "wf_vm m" "reg R0 m = 3" "reg R1 m = of_nat n" "0 < n" "n \<le> stack_size"
    and "unat (reg SP m) + 8 * ((n + 7) div 8) \<le> stack_size"
  shows "exec_SYSCALL rp3 m = Inr (put SP (reg SP m + 8 * of_nat ((n + 7) div 8))
    (m\<lparr>events := events m @ map (\<lambda>a. Putchar (stack m a))
       [unat (reg SP m)..<unat (reg SP m) + (if 8 dvd n then n - 8 else n)]\<rparr>))"
proof -
  have n: "n < 2 ^ 32" using assms(5) by (simp add: stack_size_def)
  define k where "k = (n + 7) div 8"
  have k: "k = (n - 1) div 8 + 1" using assms(4) by (simp add: k_def words_needed(1))
  moreover have "unat ((of_nat n - 1 :: u64) div 8 + 1) = (n - 1) div 8 + 1"
  proof -
    have "(of_nat n - 1 :: u64) = of_nat (n - 1)" using assms(4) by (simp add: of_nat_diff)
    moreover have "(n - 1) div 8 + 1 < 2 ^ 64" using n by simp
    ultimately show ?thesis using n by (simp add: unat_word_ariths unat_div_distrib unat_of_nat)
  qed
  ultimately have size: "unat (stout_size (reg R1 m)) = k"
    using n by (simp add: stout_size_def assms(3) unsigned_ucast_eq take_bit_eq_mod)
  have "unat (reg R1 m mod 8) = n mod 8" using n by (simp add: assms(3) unat_mod_distrib unat_of_nat)
  moreover have "8 * (k - 1) + n mod 8 = (if 8 dvd n then n - 8 else n)" "k \<noteq> 0"
    using words_needed(2) [OF assms(4)] by (simp_all add: k)
  ultimately show ?thesis
    using stout_loop_prints [OF assms(1), of k 0] assms(6) size
    by (simp add: exec_SYSCALL_def assms(2) k_def [symmetric] emit_def comp_def)
qed

theorem stout_prints_witness:
  "exec_SYSCALL None (put SP 0xFFFFF8 (put R1 5 (put R0 3 (vm_new (\<lambda>a. of_nat a) []))))
     = Inr ((put SP 0x1000000 (put R1 5 (put R0 3 (vm_new (\<lambda>a. of_nat a) []))))
        \<lparr>events := map (\<lambda>a. Putchar (of_nat a)) [0xFFFFF8..<0xFFFFFD]\<rparr>)"
  using stout_prints [of "put SP 0xFFFFF8 (put R1 5 (put R0 3 (vm_new (\<lambda>a. of_nat a) [])))" 5 None]
  by (simp add: stack_size_def put_events)

section \<open>Printing the machine\<close>

text \<open>\<open>PrintStack\<close> is undefined for every machine: it starts to read one byte behind the stack.\<close>

lemma stack_unprintable: "PrintStack m = Inl (Undefined Out_of_bounds)"
proof -
  have "hex_dump_loop mem True (Suc k) (int stack_size) 16 [] [] = Inl (Undefined Out_of_bounds)"
    if "mem (int stack_size) = None" for mem k
    using that by simp
  then have "hex_dump_loop mem True 1024 (int stack_size) 16 [] [] = Inl (Undefined Out_of_bounds)"
    if "mem (int stack_size) = None" for mem
    using that by (metis numeral_eq_Suc)
  then show ?thesis by (simp add: PrintStack_def hex_dump_def rmap_def)
qed

end
