(* ===== verification/Sunum.thy ===== *)
theory Sunum
  imports VMRun MsgHandler BlockStore CLib
begin

text \<open>
  The test programs that put the parts together (\<open>iotchain_tests/sunum.cpp\<close>, of which
  \<open>___sunum/sunum.cpp\<close> is a variant, and \<open>p2p_test.cpp\<close>): peers that run the payload of a
  message as a smart contract, the command that sends one, and a node that announces a transaction.
\<close>

section \<open>The contract peer\<close>

definition MSG_TYPE_CONTRACT :: u8 where "MSG_TYPE_CONTRACT = 5"

text \<open>
  \<open>sunum_peer::process_msg\<close>. The application's state is what the contracts did and printed;
  \<open>mem\<close> is the content of the new machine's stack, \<open>fuel\<close> bounds the steps of the contract.
\<close>

definition sunum_process_msg :: "(nat \<Rightarrow> u8) \<Rightarrow> (u32 \<Rightarrow> 32 word) option \<Rightarrow> nat \<Rightarrow> vm_event list process" where
  "sunum_process_msg mem rp3 fuel msg out =
     (if hdr_type (header msg) = MSG_TYPE_CONTRACT then
        (case Execute rp3 fuel (vm_new mem (bs_buf msg)) of
           Inl e \<Rightarrow> (Inl e, out)
         | Inr interpreter \<Rightarrow>
             (let out = out @ events interpreter @ [Print (PrintRegisters interpreter), Print [CHR 0x0A, CHR 0x0A],
                           Print [CHR 0x0A]]
              in case PrintStack interpreter of
                   Inl e \<Rightarrow> (Inl e, out)
                 | Inr s \<Rightarrow> (Inr (True, msg), out @ [Print s])))
      else (Inr (True, msg), out))"

text \<open>The command \<open>newtx\<close>, with the content of the file it names.\<close>

definition newtx :: "u32 \<Rightarrow> bytes \<Rightarrow> 'app node \<Rightarrow> 'app node res" where
  "newtx junk file n =
     rbind (bs_write file (message_new junk MSG_TYPE_CONTRACT 1)) (\<lambda>m. broadcast m None n)"

text \<open>
  \<open>p2p_test::execute\<close> after the key pair was made: the transaction it announces, with \<open>sig\<close> the
  content of the uninitialised signature.
\<close>

definition p2p_test_tx :: "u64 \<Rightarrow> bytes \<Rightarrow> bytes \<Rightarrow> TX" where
  "p2p_test_tx now pub sig =
     \<lparr>tx_time = now, tx_inputs = [\<lparr>in_amount = 123456789, in_data = []\<rparr>],
      tx_outputs = [\<lparr>out_amount = 123456789, out_to = pub\<rparr>], tx_extra = [],
      tx_from = replicate 25 0, tx_signature = sig\<rparr>"

definition p2p_test_execute :: "u32 \<Rightarrow> u64 \<Rightarrow> bytes \<Rightarrow> bytes \<Rightarrow> 'app node \<Rightarrow> (bool \<times> 'app node) res" where
  "p2p_test_execute junk now pub sig n = rbind (send_tx junk (p2p_test_tx now pub sig) n) (\<lambda>(_, n). Inr (True, n))"

section \<open>Faults of the machine\<close>

definition machine_fault :: "exn \<Rightarrow> bool" where
  "machine_fault e \<longleftrightarrow> e = Diverges \<or> (\<exists>u. e = Undefined u)"

text \<open>A result that is no C++ exception.\<close>

definition faulty :: "'a res \<Rightarrow> bool" where
  "faulty r \<longleftrightarrow> (\<forall>e. r = Inl e \<longrightarrow> machine_fault e)"

named_theorems faults \<open>operations of the machine raise no exceptions\<close>

lemma faulty_Inr [simp, faults]: "faulty (Inr x)"
  by (simp add: faulty_def)

lemma faulty_Undefined [simp, faults]: "faulty (Inl (Undefined u))"
  by (simp add: faulty_def machine_fault_def)

lemma faulty_rbind [faults]: "faulty x \<Longrightarrow> (\<And>y. faulty (f y)) \<Longrightarrow> faulty (rbind x f)"
  by (cases x) (simp_all add: faulty_def)

lemma faulty_rmap [faults]: "faulty x \<Longrightarrow> faulty (rmap f x)"
  by (cases x) (simp_all add: faulty_def rmap_def)

lemma faulty_accesses [faults]:
  "faulty (fetch m)" "faulty (ExtractRegister m)" "faulty (ExtractConstant m)" "faulty (reg_at r m)"
  "faulty (put_at r v m)" "faulty (load64 a m)" "faulty (store64 a v m)"
  by (simp_all add: fetch_def ExtractRegister_def ExtractConstant_def reg_at_def put_at_def load64_def store64_def)

lemma faulty_case_prod [faults]: "(\<And>x y. faulty (f x y)) \<Longrightarrow> faulty (case p of (x, y) \<Rightarrow> f x y)"
  by (cases p) simp

lemma faulty_if [faults]: "faulty x \<Longrightarrow> faulty y \<Longrightarrow> faulty (if b then x else y)"
  by simp

lemma faulty_operations [faults]:
  "faulty (ExtractAddress m)" "faulty (ExtractOpcode m)" "faulty (Push v m)" "faulty (Pop m)"
  "faulty (operand op m)" "faulty (address_operand op m)"
  unfolding ExtractAddress_def ExtractOpcode_def Push_def Pop_def operand_def address_operand_def Let_def
  by (intro faults)+

lemma faulty_int64 [faults]: "faulty (int64 i)" "faulty (int32_mul a b)"
  by (simp_all add: int64_def int32_mul_def Let_def)

lemma faulty_Exp [faults]: "faulty (Exp v1 v2)"
proof (induction v1 v2 rule: Exp.induct)
  case (1 v1 v2)
  then show ?case by (subst Exp.simps) (auto simp: Let_def intro!: faults)
qed

lemma faulty_arithmetic [faults]:
  "faulty (Add v w)" "faulty (Sub v w)" "faulty (Mul v w)" "faulty (SMul v w)" "faulty (Div v w)"
  "faulty (SDiv v w)" "faulty (Mod v w)" "faulty (SMod v w)" "faulty (Neg v)" "faulty (Not_vm v)"
  unfolding Add_def Sub_def Mul_def SMul_def Div_def SDiv_def Mod_def SMod_def Neg_def Not_vm_def
  by (intro faults)+

lemma faulty_exec_binary [faults]: "(\<And>v w. faulty (f v w)) \<Longrightarrow> faulty (exec_binary f op1 op2 m)"
  unfolding exec_binary_def by (intro faults)

lemma faulty_exec_unary [faults]: "(\<And>v. faulty (f v)) \<Longrightarrow> faulty (exec_unary f op1 m)"
  unfolding exec_unary_def by (intro faults)

lemma faulty_exec [faults]:
  "faulty (exec_compare c op1 op2 m)" "faulty (exec_STORE op2 m)" "faulty (exec_LOAD op2 m)"
  "faulty (exec_JMP op1 op2 m)" "faulty (exec_CALL op1 op2 m)" "faulty (exec_RET m)" "faulty (exec_PUSH op1 m)"
  "faulty (exec_POP m)" "faulty (exec_MOV op2 m)"
  unfolding exec_defs Let_def by (intro faults)+

lemma faulty_stout [faults]: "faulty (stout_loop k i m)"
proof (induction k arbitrary: i m)
  case (Suc k)
  then show ?case unfolding stout_loop.simps Let_def by (intro faults)
qed simp

lemma faulty_exec_opcode [faults]: "faulty (exec_opcode rp3 opc op1 op2 m)"
  by (cases opc) (auto simp: exec_opcode_def exec_SYSCALL_def intro!: faults)

lemma faulty_step [faults]: "faulty (vm_step rp3 m)"
  unfolding vm_step_def by (auto intro!: faults split: option.splits prod.splits)

lemma faulty_Execute: "faulty (Execute rp3 fuel m)"
proof (induction fuel arbitrary: m)
  case (Suc fuel)
  then show ?case unfolding Execute.simps by (intro faults)
qed (simp add: faulty_def machine_fault_def)

section \<open>Properties\<close>


definition contract_node :: "vm_event list node" where
  "contract_node = do_accept (replicate 16 1) (node_new 0 [])"


text \<open>The command that sends a contract, and the test that announces a transaction, reach nobody.\<close>

lemma newtx_reaches_nobody: "length file \<le> vec_max \<Longrightarrow> newtx junk file n = Inr n"
  by (simp add: newtx_def message_new_def message_ext bs_write_def bs_size_def broadcast_null)

section \<open>The loop of commands\<close>

text \<open>
  The words of the input; at its end, the string that is read to stays empty. \<open>send\<close> is what the
  program does with the receiver and the file of a command \<open>newtx\<close>.
\<close>

definition next_word :: "string list \<Rightarrow> string \<times> string list" where
  "next_word ws = (case ws of [] \<Rightarrow> ([], []) | w # ws \<Rightarrow> (w, ws))"

definition command_round :: "(string \<Rightarrow> string \<Rightarrow> 's \<Rightarrow> 's res) \<Rightarrow> string list \<times> 's \<Rightarrow> (string list \<times> 's) res" where
  "command_round send st =
     (let (cmd, words) = next_word (fst st)
      in if cmd = ''newtx'' then
           (let (receiver, words) = next_word words; (file, words) = next_word words
            in rmap (Pair words) (send receiver file (snd st)))
         else Inr (words, snd st))"

text \<open>The first \<open>k\<close> rounds of the loop, which has no exit.\<close>

fun command_rounds :: "(string \<Rightarrow> string \<Rightarrow> 's \<Rightarrow> 's res) \<Rightarrow> nat \<Rightarrow> string list \<times> 's \<Rightarrow> (string list \<times> 's) res" where
  "command_rounds send 0 st = Inr st"
| "command_rounds send (Suc k) st = rbind (command_round send st) (command_rounds send k)"

text \<open>
  The vector a file is read to: the size of a file that cannot be opened is \<open>-1\<close>, too large for a
  vector, and the first element of an empty vector is undefined.
\<close>

definition file_vector :: "bytes option \<Rightarrow> bytes res" where
  "file_vector content =
     (case content of
        None \<Rightarrow> Inl Length_error
      | Some result \<Rightarrow>
          if length result > vec_max then Inl Length_error
          else if result = [] then Inl (Undefined Out_of_bounds) else Inr result)"

text \<open>What \<open>sunum\<close> does, with its node and the lines it logs.\<close>

definition sunum_send :: "(nat \<Rightarrow> u32) \<Rightarrow> (string \<Rightarrow> bytes option) \<Rightarrow> string \<Rightarrow> string
    \<Rightarrow> 'app node \<times> string list \<Rightarrow> ('app node \<times> string list) res" where
  "sunum_send junk files receiver file st =
     rbind (file_vector (files file)) (\<lambda>result.
     rbind (newtx (junk (length (snd st))) result (fst st)) (\<lambda>n.
     Inr (n, snd st @ [''Sent TX (Payload Size: '' @ decimal (length result) @ '' bytes)''])))"

text \<open>\<open>default_test::execute\<close>, and the \<open>main\<close> of the tests with the result of the one that it runs.\<close>

definition default_test_execute :: "bool res" where
  "default_test_execute = (let bc = blockchain_new in Inr True)"

definition test_main :: "string \<Rightarrow> bool res \<Rightarrow> string list \<times> int res" where
  "test_main name result =
     (let started = ''Running test case '' @ [CHR 0x27] @ name @ [CHR 0x27];
          succeeded = ''Test case '' @ [CHR 0x27] @ name @ [CHR 0x27] @ '' has succeeded''
      in case result of
           Inl e \<Rightarrow> ([started], Inl e)
         | Inr ok \<Rightarrow> ([started, if ok then succeeded else succeeded], Inr 0))"

subsection \<open>Facts\<close>

lemma command_newtx: "command_round send (''newtx'' # receiver # file # ws, st) = rmap (Pair ws) (send receiver file st)"
  by (simp add: command_round_def next_word_def)

text \<open>At the end of the input the loop spins without reading, waiting or stopping.\<close>

lemma command_rounds_end: "command_rounds send k ([], st) = Inr ([], st)"
  by (induction k) (simp_all add: command_round_def next_word_def)

text \<open>An empty name of a file, such as that of a command cut short, ends the program.\<close>

lemma command_cut_short:
  "files [] = None \<Longrightarrow> command_round (sunum_send junk files) ([''newtx''], st) = Inl Length_error"
  by (simp add: command_round_def next_word_def sunum_send_def file_vector_def rmap_def)

text \<open>Whatever is typed, the node and its peers stay as they are: a contract reaches nobody.\<close>

lemma sunum_round_node:
  "command_round (sunum_send junk files) st = Inr st' \<Longrightarrow> fst (snd st') = fst (snd st)"
  by (auto simp: command_round_def next_word_def sunum_send_def file_vector_def newtx_reaches_nobody rmap_def
      rbind_def Let_def split: if_splits option.splits list.splits sum.splits prod.splits)

lemma sunum_commands_reach_nobody:
  "command_rounds (sunum_send junk files) k st = Inr st' \<Longrightarrow> fst (snd st') = fst (snd st)"
proof (induction k arbitrary: st)
  case (Suc k)
  then obtain st1 where "command_round (sunum_send junk files) st = Inr st1"
    and "command_rounds (sunum_send junk files) k st1 = Inr st'"
    by (auto simp: rbind_eq_Inr)
  with Suc.IH [of st1] sunum_round_node [of junk files st st1] show ?case by simp
qed simp

lemma failure_reported_as_success: "test_main name (Inr False) = test_main name (Inr True)"
  by (simp add: test_main_def)

end
