(* ===== verification/SunumDemo.thy ===== *)
theory SunumDemo
  imports Sunum JsonCodec JsonOps Base58
begin

text \<open>
  The demonstration program of \<open>___sunum\<close>. It has its own copies of the network library, the
  machine, base58 and the JSON library: \<open>json.hpp\<close> is the same file, base58 differs in its
  namespace only. This theory has what differs: the system call of the machine, \<open>broadcast\<close>, the
  peer, and the loop of commands, which prints a record of each contract it sends.
\<close>

unbundle bit_operations_syntax

section \<open>Machine\<close>

text \<open>
  The number of a system call is converted to an \<open>enum class\<close>, which is an \<open>int\<close>: only its lower
  32 bits count. \<open>BUILD_RP3\<close> is not defined.
\<close>

definition demo_SYSCALL :: "vm \<Rightarrow> vm res" where
  "demo_SYSCALL m =
     (let call = (ucast (reg R0 m) :: 32 word)
      in if call = 0 then Inr (emit [Slept (reg R1 m)] m)
         else if call = 3 then stout_loop (unat (stout_size (reg R1 m))) 0 m
         else Inr m)"

definition demo_opcode :: "Opcode \<Rightarrow> bool \<Rightarrow> bool \<Rightarrow> vm \<Rightarrow> vm res" where
  "demo_opcode opcode op1 op2 m =
     (if opcode = SYSCALL then demo_SYSCALL m else exec_opcode None opcode op1 op2 m)"

definition demo_step :: "u8 vm_op" where
  "demo_step m =
     rbind (ExtractOpcode m) (\<lambda>((opcode, op1, op2), m).
       rmap (Pair opcode)
         (case opcode_of (unat opcode) of
            Some opc \<Rightarrow> demo_opcode opc op1 op2 m
          | None \<Rightarrow> Inr (emit [Print (illegal opcode)] m)))"

fun demo_Execute :: "nat \<Rightarrow> vm \<Rightarrow> vm res" where
  "demo_Execute 0 m = Inl Diverges"
| "demo_Execute (Suc fuel) m =
     rbind (demo_step m) (\<lambda>(opcode, m). if opcode \<noteq> 0 then demo_Execute fuel m else Inr m)"

section \<open>Peers\<close>

text \<open>\<open>peer_list::broadcast\<close>: a broadcast on behalf of nobody goes to every peer.\<close>

fun demo_broadcast_each :: "message \<Rightarrow> uuid option \<Rightarrow> nat option list \<Rightarrow> 'app node \<Rightarrow> 'app node res" where
  "demo_broadcast_each msg p [] n = Inr n"
| "demo_broadcast_each msg p (x # xs) n =
     rbind (case (x, weak_lock n x) of
              (Some i, Some spt) \<Rightarrow>
                (if (case p of None \<Rightarrow> True | Some u \<Rightarrow> \<not> uuid_eq u (uuid spt))
                 then rmap (\<lambda>spt. set_peer i spt n) (send_post msg spt)
                 else Inr n)
            | _ \<Rightarrow> Inr n)
       (demo_broadcast_each msg p xs)"

definition demo_broadcast :: "message \<Rightarrow> uuid option \<Rightarrow> 'app node \<Rightarrow> 'app node res" where
  "demo_broadcast msg p n = demo_broadcast_each msg p (peer_list n) n"

definition demo_process_msg :: "(nat \<Rightarrow> u8) \<Rightarrow> nat \<Rightarrow> vm_event list process" where
  "demo_process_msg mem fuel msg out =
     (if hdr_type (header msg) = MSG_TYPE_CONTRACT then
        (case demo_Execute fuel (vm_new mem (bs_buf msg)) of
           Inl e \<Rightarrow> (Inl e, out)
         | Inr interpreter \<Rightarrow>
             (let out = out @ events interpreter @ [Print (PrintRegisters interpreter), Print [CHR 0x0A, CHR 0x0A]]
              in case PrintStack interpreter of
                   Inl e \<Rightarrow> (Inl e, out)
                 | Inr s \<Rightarrow> (Inr (True, msg), out @ [Print s])))
      else (Inr (True, msg), out))"

section \<open>Commands\<close>

text \<open>The address of a node: the byte 4 and six random numbers, least significant byte first.\<close>

definition demo_address :: "u32 list \<Rightarrow> bytes" where
  "demo_address vals = 4 # concat (map (\<lambda>val. [ucast (val AND 0xFF), ucast (drop_bit 8 val AND 0xFF),
     ucast (drop_bit 16 val AND 0xFF), ucast (drop_bit 24 val AND 0xFF)]) vals)"

definition demo_pubkey :: "u32 list \<Rightarrow> string res" where
  "demo_pubkey vals = base58_encode (demo_address vals)"

text \<open>The record of a contract; the length of a name shorter than its extension wraps around.\<close>

definition contract_name :: "string \<Rightarrow> string" where
  "contract_name file = take (size_sub (length file) 4) file"

definition demo_record :: "u32 \<Rightarrow> u64 \<Rightarrow> string \<Rightarrow> string \<Rightarrow> string \<Rightarrow> bytes \<Rightarrow> json res" where
  "demo_record number now my_pubkey receiver file result =
     rbind (hex_buffer result) (\<lambda>payload.
       Inr (json_init
         [json_init [String ''nonce'', Number_unsigned (ucast number)],
          json_init [String ''timestamp'', Number_unsigned now],
          json_init [String ''type'', String ''smart contract execution''],
          json_init [String ''inputs'', json_init
            [json_init [String ''from'', String my_pubkey],
             json_init [String ''to'', String receiver],
             json_init [String ''assets'', Number_float 0],
             json_init [String ''extra'', json_init
               [json_init [String ''contract_name'', String (contract_name file)],
                json_init [String ''payload'', String payload]]]]]]))"

text \<open>
  The command \<open>newtx\<close>, with the content of the file, if it can be opened: the size is otherwise
  \<open>-1\<close> and too large for a vector. The first element of an empty vector is undefined. The result is
  the text that is logged and the node.
\<close>

definition demo_newtx :: "u32 \<Rightarrow> u32 \<Rightarrow> u64 \<Rightarrow> string \<Rightarrow> string \<Rightarrow> string \<Rightarrow> bytes option \<Rightarrow> 'app node
    \<Rightarrow> (string \<times> 'app node) res" where
  "demo_newtx junk number now my_pubkey receiver file content n =
     (case content of
        None \<Rightarrow> Inl Length_error
      | Some result \<Rightarrow>
          if result = [] then Inl (Undefined Out_of_bounds)
          else rbind (bs_write result (message_new junk MSG_TYPE_CONTRACT 1)) (\<lambda>m.
               rbind (demo_broadcast m None n) (\<lambda>n.
               rbind (demo_record number now my_pubkey receiver file result) (\<lambda>j.
               Inr (dump_json 4 j, n)))))"

section \<open>Facts\<close>

text \<open>The machine differs from the one of the chain in system calls with more than 32 bits.\<close>

lemma demo_SYSCALL_same:
  assumes "reg R0 m < 2 ^ 32"
  shows "demo_SYSCALL m = exec_SYSCALL None m"
proof -
  have low: "unat (ucast (reg R0 m) :: 32 word) = unat (reg R0 m)"
    using assms by (simp add: unsigned_ucast_eq take_bit_nat_eq_self word_less_nat_alt)
  have eq: "(ucast (reg R0 m) :: 32 word) = k \<longleftrightarrow> reg R0 m = ucast k" if "unat k = unat (ucast k :: u64)" for k
    using low that unat_eq_nat_uint [of "reg R0 m"] by (metis unsigned_word_eqI)
  show ?thesis using eq [of 0] eq [of 3] by (simp add: demo_SYSCALL_def exec_SYSCALL_def)
qed

lemma demo_step_same:
  assumes "\<And>r m'. ExtractOpcode m = Inr (r, m') \<Longrightarrow> reg R0 m' < 2 ^ 32"
  shows "demo_step m = vm_step None m"
proof -
  have "demo_opcode opc op1 op2 m' = exec_opcode None opc op1 op2 m'" if "reg R0 m' < 2 ^ 32" for opc op1 op2 m'
    using demo_SYSCALL_same [OF that] by (simp add: demo_opcode_def exec_opcode_def)
  then show ?thesis
    using assms by (cases "ExtractOpcode m") (auto simp: demo_step_def vm_step_def split: prod.splits option.splits)
qed

text \<open>The number 2 ^ 32 + 3 is that of no call of the chain's machine, and prints here.\<close>

lemma demo_SYSCALL_wide:
  assumes "reg R0 m = 2 ^ 32 + 3"
  shows "exec_SYSCALL None m = Inr m \<and> demo_SYSCALL m = stout_loop (unat (stout_size (reg R1 m))) 0 m"
  using assms by (simp add: exec_SYSCALL_def demo_SYSCALL_def)

text \<open>A contract ends the peer that runs it, as in the other program.\<close>

lemma faulty_demo_step: "faulty (demo_step m)"
  unfolding demo_step_def demo_opcode_def demo_SYSCALL_def
  by (auto simp: Let_def intro!: faults split: option.splits prod.splits)

lemma faulty_demo_Execute: "faulty (demo_Execute fuel m)"
proof (induction fuel arbitrary: m)
  case (Suc fuel)
  then show ?case unfolding demo_Execute.simps by (intro faults faulty_demo_step)
qed (simp add: faulty_def machine_fault_def)

lemma demo_contract_never_returns:
  assumes "hdr_type (header msg) = MSG_TYPE_CONTRACT"
  shows "\<exists>e out'. demo_process_msg mem fuel msg out = (Inl e, out') \<and> machine_fault e"
  using assms faulty_demo_Execute [of fuel "vm_new mem (bs_buf msg)"]
  by (cases "demo_Execute fuel (vm_new mem (bs_buf msg))")
    (auto simp: demo_process_msg_def stack_unprintable faulty_def machine_fault_def Let_def)

section \<open>Broadcasts\<close>

text \<open>On behalf of a peer, the two versions of \<open>broadcast\<close> agree.\<close>

lemma demo_broadcast_each_same: "demo_broadcast_each m (Some u) xs = broadcast_each m (Some u) xs"
proof (induction xs)
  case (Cons x xs)
  show ?case by (rule ext) (simp add: Cons split: option.splits)
qed (simp add: fun_eq_iff)

lemma demo_broadcast_same: "demo_broadcast m (Some u) n = broadcast m (Some u) n"
  by (simp add: demo_broadcast_def broadcast_def demo_broadcast_each_same)

lemma demo_broadcast_each_all:
  assumes "length (payload m) \<le> vec_max" "distinct (filter (\<lambda>i. objs n i \<noteq> None) (ids xs))"
  shows "demo_broadcast_each m None xs n
    = Inr (n\<lparr>objs := \<lambda>j. if j \<in> set (ids xs) then map_option (posted m) (objs n j) else objs n j\<rparr>)"
  using assms
proof (induction xs arbitrary: n rule: ids.induct)
  case (3 i xs)
  show ?case
  proof (cases "objs n i")
    case None
    with 3 show ?thesis by (auto simp: weak_lock_def fun_eq_iff intro!: arg_cong [where f="\<lambda>f. n\<lparr>objs := f\<rparr>"])
  next
    case (Some q)
    let ?n = "set_peer i (posted m q) n"
    have none: "objs ?n j \<noteq> None \<longleftrightarrow> objs n j \<noteq> None" for j
      using Some by (simp add: set_peer_def)
    have "distinct (filter (\<lambda>j. objs ?n j \<noteq> None) (ids xs))"
      using 3(3) Some unfolding none by simp
    from 3(1) [OF 3(2) this] Some 3(2)
    have "demo_broadcast_each m None (Some i # xs) n
        = Inr (?n\<lparr>objs := \<lambda>j. if j \<in> set (ids xs) then map_option (posted m) (objs ?n j) else objs ?n j\<rparr>)"
      by (simp add: weak_lock_def send_post_posted)
    moreover have "i \<notin> set (ids xs)" using 3(3) Some by auto
    ultimately show ?thesis
      using Some by (auto simp: set_peer_def fun_eq_iff intro!: arg_cong [where f="\<lambda>f. n\<lparr>objs := f\<rparr>"])
  qed
qed (simp_all add: weak_lock_def)

lemma demo_broadcast_all:
  assumes "node_inv n" "length (payload m) \<le> vec_max"
  shows "demo_broadcast m None n = Inr (n\<lparr>objs := \<lambda>j. map_option (posted m) (objs n j)\<rparr>)"
proof -
  have some: "ident n j \<noteq> None \<longleftrightarrow> objs n j \<noteq> None" for j by (simp add: ident_def)
  then have live: "live n = filter (\<lambda>j. objs n j \<noteq> None) (ids (peer_list n))" by (simp add: live_def)
  have "distinct (filter (\<lambda>j. objs n j \<noteq> None) (ids (peer_list n)))"
    using node_invD(3) [OF assms(1)] unfolding live by (simp add: strict_sorted_iff)
  moreover have "(if j \<in> set (ids (peer_list n)) then map_option (posted m) (objs n j) else objs n j)
      = map_option (posted m) (objs n j)" for j
    using node_invD(4) [OF assms(1), of j] some [of j] live by (cases "objs n j") auto
  ultimately show ?thesis
    using demo_broadcast_each_all [OF assms(2), of n "peer_list n"] by (simp add: demo_broadcast_def)
qed

section \<open>Sending contracts\<close>

lemma demo_address_25: "length vals = 6 \<Longrightarrow> length (demo_address vals) = 25"
  by (simp add: demo_address_def length_concat comp_def sum_list_triv)

text \<open>The address decodes to the byte 4 and the random numbers.\<close>

lemma demo_pubkey_decodes:
  assumes "length vals = 6"
  shows "rbind (demo_pubkey vals) (\<lambda>s. base58_decode s vch) = Inr (True, demo_address vals)"
  unfolding demo_pubkey_def by (rule roundtrip_small) (simp add: demo_address_25 [OF assms] max_encode_def)

lemma contract_name_cut:
  "4 \<le> length file \<Longrightarrow> length file < 2 ^ 64 \<Longrightarrow> contract_name file = take (length file - 4) file"
  "length file < 4 \<Longrightarrow> contract_name file = file"
  by (simp_all add: contract_name_def size_sub_le) (simp add: size_sub_def)

lemma demo_record_json:
  assumes "length result < 2 ^ 31 - 1"
  shows "demo_record number now key receiver file result = Inr (Object
    [(''inputs'', Object
       [(''assets'', Number_float 0),
        (''extra'', Object [(''contract_name'', String (contract_name file)), (''payload'', String (hex_of_bytes result))]),
        (''from'', String key), (''to'', String receiver)]),
     (''nonce'', Number_unsigned (ucast number)), (''timestamp'', Number_unsigned now),
     (''type'', String ''smart contract execution'')])"
  using assms by (simp add: demo_record_def hex_buffer_text) (simp add: json_init_def)

definition record_payload :: "json \<Rightarrow> string res" where
  "record_payload j = rbind (at_key ''inputs'' j) (\<lambda>j. rbind (at_key ''extra'' j) (\<lambda>j. rbind (at_key ''payload'' j) get_string))"

text \<open>The message of a contract, before it is sent.\<close>

definition contract_message :: "u32 \<Rightarrow> bytes \<Rightarrow> message" where
  "contract_message junk result =
     \<lparr>bs_buf = result, bs_pos = length result, header = \<lparr>hdr_size = junk, hdr_type = 5, hdr_ttl = 1\<rparr>\<rparr>"

lemma demo_newtx_node:
  assumes "node_inv n" "result \<noteq> []" "length result < 2 ^ 31 - 1"
  shows "\<exists>j. demo_newtx junk number now key receiver file (Some result) n
      = Inr (dump_json 4 j, n\<lparr>objs := \<lambda>i. map_option (\<lambda>q. q\<lparr>tasks := tasks q @ [contract_message junk result]\<rparr>) (objs n i)\<rparr>)
    \<and> rbind (record_payload j) (\<lambda>s. integer_buffer s (replicate (length result) 0)) = Inr result"
proof -
  let ?m = "contract_message junk result"
  have max: "length result \<le> vec_max" using assms(3) by (simp add: vec_max_def)
  then have "demo_broadcast ?m None n = Inr (n\<lparr>objs := \<lambda>i. map_option (posted ?m) (objs n i)\<rparr>)"
    by (intro demo_broadcast_all [OF assms(1)]) (simp_all add: payload_def contract_message_def)
  moreover have "bs_write result (message_new junk MSG_TYPE_CONTRACT 1) = Inr ?m"
    using max by (simp add: bs_write_def bs_size_def message_new_def message_ext insert_at_def MSG_TYPE_CONTRACT_def
        contract_message_def)
  moreover have "posted ?m = (\<lambda>q. q\<lparr>tasks := tasks q @ [?m]\<rparr>)"
    by (simp add: posted_def payload_def fun_eq_iff contract_message_def)
  moreover obtain j where "demo_record number now key receiver file result = Inr j"
    and "record_payload j = Inr (hex_of_bytes result)"
    using demo_record_json [OF assms(3)] by (simp add: record_payload_def)
  ultimately show ?thesis
    using assms(2) hex_of_bytes_read(1) [OF assms(3)] by (intro exI [of _ j]) (simp add: demo_newtx_def)
qed

text \<open>
  The command sends the contract to every live peer, once, and logs a record of it from whose
  payload the contract can be read back.
\<close>

theorem demo_newtx_reaches_all:
  assumes "node_run junk process_msg what (node_new max_con a) es n" "next_id n < 2 ^ 64"
    and "result \<noteq> []" "length result < 2 ^ 31 - 1"
  shows "\<exists>j. demo_newtx junk number now key receiver file (Some result) n
      = Inr (dump_json 4 j, n\<lparr>objs := \<lambda>i. map_option (\<lambda>q. q\<lparr>tasks := tasks q @ [contract_message junk result]\<rparr>) (objs n i)\<rparr>)
    \<and> rbind (record_payload j) (\<lambda>s. integer_buffer s (replicate (length result) 0)) = Inr result"
proof -
  have "node_inv n" using node_run_inv [OF assms(1) node_inv_new assms(2)] by blast
  then show ?thesis by (rule demo_newtx_node [OF _ assms(3,4)])
qed

theorem demo_newtx_reaches_all_witness:
  "\<exists>t n'. demo_newtx 0 7 8 ''k'' ''r'' ''a.bin'' (Some [1, 2]) two_peers = Inr (t, n')
     \<and> map_option (\<lambda>q. map bs_buf (tasks q)) (objs n' 1) = Some [[1, 2]]"
  using demo_newtx_reaches_all [OF two_peers_run, of "[1, 2]" 7 8 "''k''" "''r''" "''a.bin''"]
  by (auto simp: two_peers_objs peer_new_def contract_message_def)

section \<open>The loop of commands\<close>

text \<open>One command, with the peers' node and the two lines it logs.\<close>

definition demo_send :: "(nat \<Rightarrow> u32) \<Rightarrow> (nat \<Rightarrow> u32) \<Rightarrow> (nat \<Rightarrow> u64) \<Rightarrow> string \<Rightarrow> (string \<Rightarrow> bytes option)
    \<Rightarrow> string \<Rightarrow> string \<Rightarrow> 'app node \<times> string list \<Rightarrow> ('app node \<times> string list) res" where
  "demo_send junk numbers now key files receiver file st =
     (let k = length (snd st); content = files file
      in rmap (\<lambda>(line, n). (n, snd st @ [line, ''Sent TX (Payload Size: '' @
             decimal (case content of None \<Rightarrow> 0 | Some result \<Rightarrow> length result) @ '' bytes)'']))
           (demo_newtx (junk k) (numbers k) (now k) key receiver file content (fst st)))"

text \<open>The words typed for contracts, receiver and file, and the files that can be sent.\<close>

definition typed :: "(string \<times> string) list \<Rightarrow> string list" where
  "typed cs = concat (map (\<lambda>(receiver, file). [''newtx'', receiver, file]) cs)"

definition sendable :: "bytes option \<Rightarrow> bool" where
  "sendable content \<longleftrightarrow> (case content of None \<Rightarrow> False | Some result \<Rightarrow> result \<noteq> [] \<and> length result < 2 ^ 31 - 1)"

definition give :: "message list \<Rightarrow> 'app node \<Rightarrow> 'app node" where
  "give ms n = n\<lparr>objs := \<lambda>i. map_option (\<lambda>q. q\<lparr>tasks := tasks q @ ms\<rparr>) (objs n i)\<rparr>"

lemma give_simps: "give [] n = n" "give ms' (give ms n) = give (ms @ ms') n"
  by (simp_all add: give_def option.map_comp comp_def option.map_ident)

lemma node_inv_give: "node_inv n \<Longrightarrow> node_inv (give ms n)"
  by (rule node_inv_skeleton [of _ n])
    (auto simp: skeleton_def give_def ident_def fun_eq_iff option.map_comp comp_def split: option.splits)

lemma demo_send_gives:
  assumes "node_inv n" "sendable (files file)"
  shows "\<exists>line line'. demo_send junk numbers now key files receiver file (n, out)
    = Inr (give [contract_message (junk (length out)) (the (files file))] n, out @ [line, line'])"
proof -
  obtain result where r: "files file = Some result" "result \<noteq> []" "length result < 2 ^ 31 - 1"
    using assms(2) by (cases "files file") (auto simp: sendable_def)
  obtain line where "demo_newtx (junk (length out)) (numbers (length out)) (now (length out)) key receiver file (Some result) n
      = Inr (line, give [contract_message (junk (length out)) result] n)"
    using demo_newtx_node [OF assms(1) r(2,3)] unfolding give_def by blast
  then show ?thesis by (simp add: demo_send_def r(1) rmap_def)
qed

lemma typed_rounds:
  assumes "node_inv n" "\<forall>c \<in> set cs. sendable (files (snd c))"
  shows "\<exists>ms out'. command_rounds (demo_send junk numbers now key files) (length cs) (typed cs, n, out)
      = Inr ([], give ms n, out') \<and> map bs_buf ms = map (\<lambda>c. the (files (snd c))) cs
    \<and> (\<forall>m \<in> set ms. hdr_type (header m) = MSG_TYPE_CONTRACT)"
  using assms
proof (induction cs arbitrary: n out)
  case Nil
  then show ?case by (intro exI [of _ "[]"] exI [of _ out]) (simp add: typed_def give_simps)
next
  case (Cons c cs)
  obtain receiver name where c: "c = (receiver, name)" by (cases c)
  let ?m = "contract_message (junk (length out)) (the (files name))"
  obtain line line' where "demo_send junk numbers now key files receiver name (n, out)
      = Inr (give [?m] n, out @ [line, line'])"
    using demo_send_gives [OF Cons(2)] Cons(3) c by fastforce
  then have "command_round (demo_send junk numbers now key files) (typed (c # cs), n, out)
      = Inr (typed cs, give [?m] n, out @ [line, line'])"
    by (simp add: c typed_def command_newtx rmap_def)
  moreover obtain ms out' where "command_rounds (demo_send junk numbers now key files) (length cs)
      (typed cs, give [?m] n, out @ [line, line']) = Inr ([], give ms (give [?m] n), out')"
    "map bs_buf ms = map (\<lambda>c. the (files (snd c))) cs" "\<forall>m \<in> set ms. hdr_type (header m) = MSG_TYPE_CONTRACT"
    using Cons.IH [OF node_inv_give [OF Cons(2)], of "[?m]" "out @ [line, line']"] Cons(3) by auto
  ultimately show ?case
    by (intro exI [of _ "?m # ms"] exI [of _ out']) (simp add: give_simps c contract_message_def MSG_TYPE_CONTRACT_def)
qed

text \<open>
  C40: Contracts that are sent one after the other are queued in this order at each peer that is alive,
  each once and whole, after what was queued there, and nothing else of the node changes.
\<close>

theorem demo_session:
  assumes "node_run junk' process_msg what (node_new max_con a) es n" "next_id n < 2 ^ 64"
    and "\<forall>c \<in> set cs. sendable (files (snd c))"
  shows "\<exists>ms out. command_rounds (demo_send junk numbers now key files) (length cs) (typed cs, n, [])
      = Inr ([], n\<lparr>objs := \<lambda>i. map_option (\<lambda>q. q\<lparr>tasks := tasks q @ ms\<rparr>) (objs n i)\<rparr>, out)
    \<and> map bs_buf ms = map (\<lambda>c. the (files (snd c))) cs
    \<and> (\<forall>m \<in> set ms. hdr_type (header m) = MSG_TYPE_CONTRACT)"
proof -
  have "node_inv n" using node_run_inv [OF assms(1) node_inv_new assms(2)] by blast
  from typed_rounds [OF this assms(3)] show ?thesis unfolding give_def by blast
qed

theorem demo_session_witness:
  "\<exists>n' out. command_rounds (demo_send (\<lambda>_. 0) (\<lambda>k. of_nat k) (\<lambda>_. 8) ''k'' [''a.bin'' \<mapsto> [1, 2], ''b.bin'' \<mapsto> [3]]) (Suc (Suc 0))
       ([''newtx'', ''r'', ''a.bin'', ''newtx'', ''s'', ''b.bin''], two_peers, []) = Inr ([], n', out)
     \<and> map_option (\<lambda>q. map bs_buf (tasks q)) (objs n' 1) = Some [[1, 2], [3]]"
proof -
  let ?files = "[''a.bin'' \<mapsto> [1, 2], ''b.bin'' \<mapsto> [3]] :: string \<Rightarrow> bytes option"
  obtain ms out where "command_rounds (demo_send (\<lambda>_. 0) (\<lambda>k. of_nat k) (\<lambda>_. 8) ''k'' ?files) (Suc (Suc 0))
      ([''newtx'', ''r'', ''a.bin'', ''newtx'', ''s'', ''b.bin''], two_peers, [])
      = Inr ([], two_peers\<lparr>objs := \<lambda>i. map_option (\<lambda>q. q\<lparr>tasks := tasks q @ ms\<rparr>) (objs two_peers i)\<rparr>, out)"
    and "map bs_buf ms = [[1, 2], [3]]"
    using demo_session [OF two_peers_run, of "[(''r'', ''a.bin''), (''s'', ''b.bin'')]" ?files "\<lambda>_. 0" "\<lambda>k. of_nat k" "\<lambda>_. 8" "''k''"]
    by (auto simp: two_peers_objs typed_def sendable_def simp del: command_rounds.simps)
  then show ?thesis by (simp add: two_peers_objs peer_new_def)
qed

end
