(* ===== verification/Logging.thy ===== *)
theory Logging
  imports Prelude
begin

text \<open>
  The loggers (\<open>Logging/logger.h\<close>, \<open>logger.cpp\<close>), of which the network library and the chain library
  have a copy each in their own namespaces, over the registry of \<open>spdlog\<close>, of which a program has
  only one.
\<close>

section \<open>The registry of spdlog\<close>

datatype level = trace | debug | info | warn | err | critical | off

fun level_num :: "level \<Rightarrow> nat" where
  "level_num trace = 0"
| "level_num debug = 1"
| "level_num info = 2"
| "level_num warn = 3"
| "level_num err = 4"
| "level_num critical = 5"
| "level_num off = 6"

text \<open>The loggers with their levels, the level of new ones, and the lines written, oldest first.\<close>

record registry =
  loggers :: "string \<rightharpoonup> level"
  new_level :: level
  lines :: "(string \<times> level \<times> string) list"

datatype log_fault = spdlog_ex string | null_logger

definition create_logger :: "string \<Rightarrow> 'a registry_scheme \<Rightarrow> log_fault option \<times> 'a registry_scheme" where
  "create_logger name st =
     (if loggers st name \<noteq> None
      then (Some (spdlog_ex (''logger with name '' @ [CHR 0x27] @ name @ [CHR 0x27] @ '' already exists'')), st)
      else (None, st\<lparr>loggers := (loggers st)(name \<mapsto> new_level st)\<rparr>))"

definition set_level :: "level \<Rightarrow> 'a registry_scheme \<Rightarrow> 'a registry_scheme" where
  "set_level lvl st = st\<lparr>loggers := (\<lambda>name. map_option (\<lambda>_. lvl) (loggers st name)), new_level := lvl\<rparr>"

definition log_line :: "string \<Rightarrow> level \<Rightarrow> string \<Rightarrow> 'a registry_scheme \<Rightarrow> 'a registry_scheme" where
  "log_line name lvl msg st =
     (case loggers st name of
        Some l \<Rightarrow> if level_num l \<le> level_num lvl then st\<lparr>lines := lines st @ [(name, lvl, msg)]\<rparr> else st
      | None \<Rightarrow> st)"

section \<open>The class logger\<close>

text \<open>The two libraries and their global variables; a pointer to a logger is its name.\<close>

datatype library = chain_library | network_library

record logging = registry +
  g_logger_initialized :: "library \<Rightarrow> bool"
  g_console_logger :: "library \<Rightarrow> string option"
  g_file_logger :: "library \<Rightarrow> string option"

definition logging_start :: logging where
  "logging_start = \<lparr>loggers = Map.empty, new_level = info, lines = [], g_logger_initialized = (\<lambda>_. False),
     g_console_logger = (\<lambda>_. None), g_file_logger = (\<lambda>_. None)\<rparr>"

text \<open>How the program was built: \<open>_DEBUG\<close> and \<open>ENABLE_FILE_LOGGING\<close>.\<close>

record build =
  debug_build :: bool
  file_logging :: bool

definition LOG_LEVEL :: "build \<Rightarrow> level" where
  "LOG_LEVEL b = (if debug_build b then debug else info)"

text \<open>The constructor. An exception leaves what was done before it.\<close>

definition logger_init :: "build \<Rightarrow> library \<Rightarrow> logging \<Rightarrow> log_fault option \<times> logging" where
  "logger_init b lib st =
     (case create_logger ''p2p-network'' st of
        (Some e, st) \<Rightarrow> (Some e, st)
      | (None, st) \<Rightarrow>
          (let st = st\<lparr>g_console_logger := (g_console_logger st)(lib := Some ''p2p-network'')\<rparr>
           in if file_logging b then
                (case create_logger ''network'' st of
                   (Some e, st) \<Rightarrow> (Some e, st)
                 | (None, st) \<Rightarrow> (None, st\<lparr>g_file_logger := (g_file_logger st)(lib := Some ''network''),
                     g_logger_initialized := (g_logger_initialized st)(lib := True)\<rparr>))
              else (None, st\<lparr>g_logger_initialized := (g_logger_initialized st)(lib := True)\<rparr>)))"

definition logger_new :: "build \<Rightarrow> library \<Rightarrow> logging \<Rightarrow> log_fault option \<times> logging" where
  "logger_new b lib st =
     (case (if \<not> g_logger_initialized st lib then logger_init b lib st else (None, st)) of
        (Some e, st) \<Rightarrow> (Some e, st)
      | (None, st) \<Rightarrow> (None, set_level (LOG_LEVEL b) st))"

text \<open>\<open>operator<<\<close>, and \<open>format\<close> after the text is formatted.\<close>

definition log_to :: "string option \<Rightarrow> level \<Rightarrow> string \<Rightarrow> logging \<Rightarrow> log_fault option \<times> logging" where
  "log_to target lvl msg st =
     (case target of None \<Rightarrow> (Some null_logger, st) | Some name \<Rightarrow> (None, log_line name lvl msg st))"

definition logger_write :: "build \<Rightarrow> library \<Rightarrow> level \<Rightarrow> string \<Rightarrow> logging \<Rightarrow> log_fault option \<times> logging" where
  "logger_write b lib lvl msg st =
     (case log_to (g_console_logger st lib) lvl msg st of
        (Some e, st) \<Rightarrow> (Some e, st)
      | (None, st) \<Rightarrow> if file_logging b then log_to (g_file_logger st lib) lvl msg st else (None, st))"

text \<open>A statement \<open>logger(lvl) << msg\<close> in the code of a library.\<close>

definition log_statement :: "build \<Rightarrow> library \<times> level \<times> string \<Rightarrow> logging \<Rightarrow> log_fault option \<times> logging" where
  "log_statement b s st =
     (case s of (lib, lvl, msg) \<Rightarrow>
       (case logger_new b lib st of
          (Some e, st) \<Rightarrow> (Some e, st)
        | (None, st) \<Rightarrow> logger_write b lib lvl msg st))"

text \<open>A run of the program: its statements, with the exception that each ends with, if any.\<close>

fun run_statements :: "build \<Rightarrow> (library \<times> level \<times> string) list \<Rightarrow> logging \<Rightarrow> log_fault option list \<times> logging" where
  "run_statements b [] st = ([], st)"
| "run_statements b (s # ss) st =
     (let (e, st) = log_statement b s st; (es, st) = run_statements b ss st in (e # es, st))"

section \<open>Facts\<close>

definition name_taken :: log_fault where
  "name_taken = spdlog_ex (''logger with name '' @ [CHR 0x27] @ ''p2p-network'' @ [CHR 0x27] @ '' already exists'')"

text \<open>The lines of a statement, if its level is high enough.\<close>

definition lines_of :: "build \<Rightarrow> level \<Rightarrow> string \<Rightarrow> (string \<times> level \<times> string) list" where
  "lines_of b lvl msg =
     (if level_num (LOG_LEVEL b) \<le> level_num lvl
      then (''p2p-network'', lvl, msg) # (if file_logging b then [(''network'', lvl, msg)] else []) else [])"

text \<open>The state after a library has logged.\<close>

definition logged :: "build \<Rightarrow> library \<Rightarrow> (string \<times> level \<times> string) list \<Rightarrow> logging" where
  "logged b lib ls =
     \<lparr>loggers = (if file_logging b then [''p2p-network'' \<mapsto> LOG_LEVEL b, ''network'' \<mapsto> LOG_LEVEL b]
                 else [''p2p-network'' \<mapsto> LOG_LEVEL b]),
      new_level = LOG_LEVEL b, lines = ls, g_logger_initialized = (\<lambda>l. l = lib),
      g_console_logger = (\<lambda>l. if l = lib then Some ''p2p-network'' else None),
      g_file_logger = (\<lambda>l. if l = lib \<and> file_logging b then Some ''network'' else None)\<rparr>"

lemmas logging_defs = log_statement_def logger_new_def logger_init_def logger_write_def log_to_def log_line_def
  create_logger_def set_level_def

lemma first_statement: "log_statement b (lib, lvl, msg) logging_start = (None, logged b lib (lines_of b lvl msg))"
  by (simp add: logging_defs logging_start_def logged_def lines_of_def fun_eq_iff)

lemma next_statement:
  "log_statement b (lib, lvl, msg) (logged b lib ls) = (None, logged b lib (ls @ lines_of b lvl msg))"
  by (simp add: logging_defs logged_def lines_of_def fun_eq_iff)

lemma other_statement:
  "lib' \<noteq> lib \<Longrightarrow> log_statement b (lib', lvl, msg) (logged b lib ls) = (Some name_taken, logged b lib ls)"
  by (simp add: logging_defs logged_def name_taken_def)

lemma run_logged:
  "run_statements b ss (logged b lib ls) =
     (map (\<lambda>(l, _). if l = lib then None else Some name_taken) ss,
      logged b lib (ls @ concat (map (\<lambda>(l, lvl, msg). if l = lib then lines_of b lvl msg else []) ss)))"
proof (induction ss arbitrary: ls)
  case (Cons s ss)
  obtain l lvl msg where "s = (l, lvl, msg)" by (cases s)
  with Cons show ?case by (cases "l = lib") (simp_all add: next_statement other_statement)
qed simp

text \<open>
  C39: The library that logs first is the only one that can: both give their logger the same name, and the
  registry has only one logger of a name. Every statement of the other library ends with an exception,
  each time again; the statements of the first one write the lines whose level is not below that
  of the build, in order.
\<close>

theorem first_library_logs:
  "run_statements b ((lib, lvl, msg) # ss) logging_start =
     (map (\<lambda>(l, _). if l = lib then None else Some name_taken) ((lib, lvl, msg) # ss),
      logged b lib (concat (map (\<lambda>(l, lvl, msg). if l = lib then lines_of b lvl msg else []) ((lib, lvl, msg) # ss))))"
  by (simp add: first_statement run_logged)

end
